(* ===== verification/Prelude.thy ===== *)
theory Prelude
  imports Main "HOL-Library.Word"
begin

text \<open>
  Shared vocabulary of the development: machine integers and bytes, the outcome type in
  which every kernel routine returns (a value, a panic, or a suspension in \<open>sleep\<close>),
  its sequencing operator, little-endian accessors for the on-disk structures, and the
  generic list lemmas the component theories use.
\<close>

unbundle bit_operations_syntax

declare One_nat_def [simp del]

subsection \<open>Machine integers\<close>

text \<open>
  \<open>uint\<close>, \<open>ushort\<close> and \<open>uchar\<close> of \<open>src/xv6/types.h\<close>. Signed C integers appear as
  \<open>int\<close> where the code only counts with them; where a wrap-around can be observed the
  word is kept and read with \<open>sint\<close>.
\<close>

type_synonym byte = "8 word"
type_synonym u16 = "16 word"
type_synonym u32 = "32 word"

subsection \<open>Outcomes\<close>

text \<open>
  The addresses on which kernel code sleeps; distinct kernel objects have distinct addresses.
\<close>

datatype chan =
    LogChan              \<comment> \<open>\<open>&log\<close>\<close>
  | BufLock nat          \<comment> \<open>\<open>&bcache.buf[i].lock\<close>\<close>
  | BufIO nat            \<comment> \<open>\<open>&bcache.buf[i]\<close>, the disk request\<close>
  | InodeLock nat        \<comment> \<open>\<open>&icache.inode[i].lock\<close>\<close>
  | PipeRead nat         \<comment> \<open>\<open>&p->nread\<close>\<close>
  | PipeWrite nat        \<comment> \<open>\<open>&p->nwrite\<close>\<close>
  | ProcChan nat         \<comment> \<open>\<open>&ptable.proc[i]\<close>, used by \<open>wait\<close>\<close>
  | TicksChan            \<comment> \<open>\<open>&ticks\<close>\<close>
  | InputChan            \<comment> \<open>\<open>&input.r\<close>\<close>

text \<open>
  What a kernel routine does when run from a state: return a value and a new state, stop the
  machine in \<open>panic\<close>, or give up the processor in \<open>sleep(chan, ..)\<close>, in which case
  the state is the one the other processes see.
\<close>

datatype ('a, 's) outcome =
    Ret 'a 's
  | Panic string
  | Sleep chan 's

fun obind :: "('a, 's) outcome \<Rightarrow> ('a \<Rightarrow> 's \<Rightarrow> ('b, 's) outcome) \<Rightarrow> ('b, 's) outcome" where
  "obind (Ret a s) f = f a s"
| "obind (Panic m) f = Panic m"
| "obind (Sleep c s) f = Sleep c s"

text \<open>Running a routine of one component inside a larger state.\<close>

fun olift :: "('t \<Rightarrow> 's) \<Rightarrow> ('a, 't) outcome \<Rightarrow> ('a, 's) outcome" where
  "olift put (Ret a t) = Ret a (put t)"
| "olift put (Panic m) = Panic m"
| "olift put (Sleep c t) = Sleep c (put t)"

text \<open>A C loop \<open>for(i = ..) body\<close> over the values \<open>is\<close> of its variable.\<close>

fun ofor :: "nat list \<Rightarrow> (nat \<Rightarrow> 's \<Rightarrow> (unit, 's) outcome) \<Rightarrow> 's \<Rightarrow> (unit, 's) outcome" where
  "ofor [] f s = Ret () s"
| "ofor (i # is) f s = obind (f i s) (\<lambda>_ s. ofor is f s)"

fun returns :: "('a, 's) outcome \<Rightarrow> bool" where
  "returns (Ret a s) = True"
| "returns (Panic m) = False"
| "returns (Sleep c s) = False"

lemma obind_Ret_iff:
  "obind m f = Ret b s' \<longleftrightarrow> (\<exists>a s. m = Ret a s \<and> f a s = Ret b s')"
  by (cases m) auto

lemma obind_RetE:
  assumes "obind m f = Ret b s'"
  obtains a s where "m = Ret a s" and "f a s = Ret b s'"
  using assms by (auto simp: obind_Ret_iff)

lemma obind_assoc: "obind (obind m f) g = obind m (\<lambda>a s. obind (f a s) g)"
  by (cases m) auto

lemma obind_Panic_iff:
  "obind m f = Panic e \<longleftrightarrow> m = Panic e \<or> (\<exists>a s. m = Ret a s \<and> f a s = Panic e)"
  by (cases m) auto

lemma olift_Ret_iff: "olift put m = Ret b s' \<longleftrightarrow> (\<exists>t. m = Ret b t \<and> s' = put t)"
  by (cases m) auto

lemma returns_iff: "returns m \<longleftrightarrow> (\<exists>a s. m = Ret a s)"
  by (cases m) auto

lemma obind_cong [fundef_cong]:
  "m = m' \<Longrightarrow> (\<And>a s. m' = Ret a s \<Longrightarrow> f a s = f' a s) \<Longrightarrow> obind m f = obind m' f'"
  by (cases m') auto

subsection \<open>Slices of byte arrays\<close>

text \<open>
  \<open>slice d off n\<close> is what \<open>memmove(dst, d + off, n)\<close> copies out of a block;
  \<open>patch d off bs\<close> is the block after \<open>memmove(d + off, bs, length bs)\<close>.
\<close>

definition slice :: "'a list \<Rightarrow> nat \<Rightarrow> nat \<Rightarrow> 'a list" where
  "slice d off n = take n (drop off d)"

definition patch :: "'a list \<Rightarrow> nat \<Rightarrow> 'a list \<Rightarrow> 'a list" where
  "patch d off bs = take off d @ bs @ drop (off + length bs) d"

lemma length_patch [simp]: "off + length bs \<le> length d \<Longrightarrow> length (patch d off bs) = length d"
  by (simp add: patch_def)

lemma length_slice [simp]: "off + n \<le> length d \<Longrightarrow> length (slice d off n) = n"
  by (simp add: slice_def)

lemma slice_patch_same [simp]:
  "off + length bs \<le> length d \<Longrightarrow> n = length bs \<Longrightarrow> slice (patch d off bs) off n = bs"
  by (simp add: slice_def patch_def)

lemma slice_patch_before:
  "p + n \<le> off \<Longrightarrow> off + length bs \<le> length d \<Longrightarrow> slice (patch d off bs) p n = slice d p n"
  by (simp add: slice_def patch_def take_drop min_def)

lemma slice_patch_after:
  assumes "off + length bs \<le> p" and "off + length bs \<le> length d"
  shows "slice (patch d off bs) p n = slice d p n"
proof -
  have "drop p (take off d @ bs @ drop (off + length bs) d) = drop p d"
    using assms by (simp add: drop_append)
  then show ?thesis by (simp add: slice_def patch_def)
qed

lemma slice_patch_other:
  "p + n \<le> off \<or> off + length bs \<le> p \<Longrightarrow> off + length bs \<le> length d \<Longrightarrow>
   slice (patch d off bs) p n = slice d p n"
  using slice_patch_before slice_patch_after by blast

lemma patch_slice_id: "off + n \<le> length d \<Longrightarrow> patch d off (slice d off n) = d"
  by (simp add: patch_def slice_def add.commute[of off n] flip: drop_drop)

lemma patch_patch_same:
  "length bs = length cs \<Longrightarrow> off + length bs \<le> length d \<Longrightarrow>
   patch (patch d off bs) off cs = patch d off cs"
  by (simp add: patch_def)

lemma nth_patch:
  assumes "off + length bs \<le> length d" and "k < length d"
  shows "patch d off bs ! k = (if off \<le> k \<and> k < off + length bs then bs ! (k - off) else d ! k)"
  using assms by (auto simp: patch_def nth_append min_def)

lemma nth_slice: "k < n \<Longrightarrow> off + n \<le> length d \<Longrightarrow> slice d off n ! k = d ! (off + k)"
  by (simp add: slice_def)

lemma slice_0_all [simp]: "slice d 0 (length d) = d"
  by (simp add: slice_def)

lemma slice_append:
  "slice d off (m + n) = slice d off m @ slice d (off + m) n"
  by (simp add: slice_def take_add add.commute)

lemma slice_eq_iff_nth:
  assumes "off + n \<le> length d" and "off' + n \<le> length d'"
  shows "slice d off n = slice d' off' n \<longleftrightarrow> (\<forall>k<n. d ! (off + k) = d' ! (off' + k))"
  using assms by (auto simp: list_eq_iff_nth_eq nth_slice)

subsection \<open>Little-endian integers\<close>

definition le16 :: "u16 \<Rightarrow> byte list" where
  "le16 w = [ucast w, ucast (drop_bit 8 w)]"

definition le32 :: "u32 \<Rightarrow> byte list" where
  "le32 w = [ucast w, ucast (drop_bit 8 w), ucast (drop_bit 16 w), ucast (drop_bit 24 w)]"

definition un_le16 :: "byte list \<Rightarrow> u16" where
  "un_le16 bs = ucast (bs ! 0) OR push_bit 8 (ucast (bs ! 1))"

definition un_le32 :: "byte list \<Rightarrow> u32" where
  "un_le32 bs = ucast (bs ! 0) OR push_bit 8 (ucast (bs ! 1))
     OR push_bit 16 (ucast (bs ! 2)) OR push_bit 24 (ucast (bs ! 3))"

lemma length_le16 [simp]: "length (le16 w) = 2"
  by (simp add: le16_def)

lemma length_le32 [simp]: "length (le32 w) = 4"
  by (simp add: le32_def)

lemma un_le16_le16 [simp]: "un_le16 (le16 w) = w"
  by (rule bit_word_eqI) (auto simp: un_le16_def le16_def bit_simps)

lemma un_le32_le32 [simp]: "un_le32 (le32 w) = w"
proof (rule bit_word_eqI)
  fix n
  assume "n < LENGTH(32)"
  then consider "n < 16" | "16 \<le> n \<and> n < 24 \<and> 16 + (n - 16) = n" | "24 \<le> n \<and> 24 + (n - 24) = n"
    by fastforce
  then show "bit (un_le32 (le32 w)) n = bit w n"
    using \<open>n < LENGTH(32)\<close>
    by cases (auto simp: un_le32_def le32_def bit_simps)
qed

definition get16 :: "byte list \<Rightarrow> nat \<Rightarrow> u16" where
  "get16 d off = un_le16 (slice d off 2)"

definition put16 :: "byte list \<Rightarrow> nat \<Rightarrow> u16 \<Rightarrow> byte list" where
  "put16 d off w = patch d off (le16 w)"

definition get32 :: "byte list \<Rightarrow> nat \<Rightarrow> u32" where
  "get32 d off = un_le32 (slice d off 4)"

definition put32 :: "byte list \<Rightarrow> nat \<Rightarrow> u32 \<Rightarrow> byte list" where
  "put32 d off w = patch d off (le32 w)"

lemma length_put16 [simp]: "off + 2 \<le> length d \<Longrightarrow> length (put16 d off w) = length d"
  by (simp add: put16_def)

lemma length_put32 [simp]: "off + 4 \<le> length d \<Longrightarrow> length (put32 d off w) = length d"
  by (simp add: put32_def)

lemma get32_put32_same [simp]: "off + 4 \<le> length d \<Longrightarrow> get32 (put32 d off w) off = w"
  by (simp add: get32_def put32_def)

lemma get16_put16_same [simp]: "off + 2 \<le> length d \<Longrightarrow> get16 (put16 d off w) off = w"
  by (simp add: get16_def put16_def)

lemma get32_put32_other:
  "p + 4 \<le> off \<or> off + 4 \<le> p \<Longrightarrow> off + 4 \<le> length d \<Longrightarrow> get32 (put32 d off w) p = get32 d p"
  by (simp add: get32_def put32_def slice_patch_other)

subsection \<open>First match in a table\<close>

lemma find_upt_Some: "List.find P [0..<m] = Some i \<longleftrightarrow> i < m \<and> P i \<and> (\<forall>j<i. \<not> P j)"
  by (auto simp: find_Some_iff)

lemma find_upt_None: "List.find P [0..<m] = None \<longleftrightarrow> (\<forall>i<m. \<not> P i)"
  by (auto simp: find_None_iff)

end
