(* ===== verification/Block_Cache.thy ===== *)
theory Block_Cache
  imports Prelude
begin

text \<open>
  The contract of the buffer cache, as the log and the file system rely on it. The abstract
  state \<open>bstore\<close> gives, per block of the disk, the contents callers see, whether the
  block is pinned (\<open>B_DIRTY\<close>), whether a process has it locked, and the contents and the
  write history of the medium below. The locale \<open>block_cache\<close> states what each routine
  of the cache promises on that abstract state; the lemmas inside it are the block
  transfers of the log and the read and update idioms of the file system.
\<close>

definition BSIZE :: nat where "BSIZE = 512"

record bstore =
  s_view :: "nat \<Rightarrow> byte list"
  s_dirty :: "nat \<Rightarrow> bool"
  s_locked :: "nat \<Rightarrow> bool"
  s_disk :: "nat \<Rightarrow> byte list"
  s_size :: nat
  s_writes :: "(nat \<times> byte list) list"

text \<open>The blocks whose buffers cannot be recycled.\<close>

definition s_busy :: "bstore \<Rightarrow> nat set" where
  "s_busy a = {b. s_dirty a b \<or> s_locked a b}"

text \<open>Replaying sector writes on a disk.\<close>

fun replay :: "(nat \<Rightarrow> byte list) \<Rightarrow> (nat \<times> byte list) list \<Rightarrow> (nat \<Rightarrow> byte list)" where
  "replay d [] = d"
| "replay d ((b, x) # ws) = replay (d(b := x)) ws"

lemma replay_append [simp]: "replay d (ws @ vs) = replay (replay d ws) vs"
  by (induction ws arbitrary: d) auto

lemma replay_other: "b \<notin> fst ` set ws \<Longrightarrow> replay d ws b = d b"
  by (induction ws arbitrary: d) auto

lemma replay_distinct:
  "distinct (map fst ws) \<Longrightarrow> (b, x) \<in> set ws \<Longrightarrow> replay d ws b = x"
proof (induction ws arbitrary: d)
  case (Cons w ws)
  show ?case
  proof (cases "(b, x) = w")
    case True
    with Cons.prems have "b \<notin> fst ` set ws" by force
    then show ?thesis using True by (auto simp: replay_other)
  next
    case False
    then show ?thesis using Cons by (cases w) auto
  qed
qed simp

text \<open>The effect of writing a block through to the disk.\<close>

definition put_block :: "nat \<Rightarrow> byte list \<Rightarrow> bstore \<Rightarrow> bstore" where
  "put_block x d a = a\<lparr>s_view := (s_view a)(x := d), s_disk := (s_disk a)(x := d),
     s_dirty := (s_dirty a)(x := False), s_writes := s_writes a @ [(x, d)]\<rparr>"

lemma put_block_sel [simp]:
  "s_view (put_block x d a) = (s_view a)(x := d)" "s_disk (put_block x d a) = (s_disk a)(x := d)"
  "s_dirty (put_block x d a) = (s_dirty a)(x := False)" "s_locked (put_block x d a) = s_locked a"
  "s_size (put_block x d a) = s_size a" "s_writes (put_block x d a) = s_writes a @ [(x, d)]"
  by (simp_all add: put_block_def)

lemma s_busy_put_block: "s_busy (put_block x d a) \<subseteq> s_busy a"
  by (auto simp: s_busy_def)

subsection \<open>The contract\<close>

locale block_cache =
  fixes bread :: "int \<Rightarrow> nat \<Rightarrow> nat \<Rightarrow> 's \<Rightarrow> (nat, 's) outcome"
    and bwrite :: "int \<Rightarrow> nat \<Rightarrow> 's \<Rightarrow> (unit, 's) outcome"
    and brelse :: "int \<Rightarrow> nat \<Rightarrow> 's \<Rightarrow> (unit, 's) outcome"
    and bdata :: "'s \<Rightarrow> nat \<Rightarrow> byte list"
    and set_data :: "nat \<Rightarrow> byte list \<Rightarrow> 's \<Rightarrow> 's"
    and set_dirty :: "nat \<Rightarrow> 's \<Rightarrow> 's"
    and inv :: "'s \<Rightarrow> bool"
    and held :: "int \<Rightarrow> 's \<Rightarrow> nat \<Rightarrow> nat \<Rightarrow> bool"
    and abs :: "'s \<Rightarrow> bstore"
    and cap :: nat
  assumes bread_ok:
      "\<lbrakk>inv s; blk < s_size (abs s); \<not> s_locked (abs s) blk;
        s_dirty (abs s) blk \<or> card (s_busy (abs s)) < cap\<rbrakk> \<Longrightarrow>
       \<exists>i s'. bread me 1 blk s = Ret i s' \<and> inv s' \<and> held me s' i blk \<and>
         abs s' = (abs s)\<lparr>s_locked := (s_locked (abs s))(blk := True)\<rparr> \<and>
         (\<forall>j b. held me s j b \<longrightarrow> held me s' j b)"
    and set_data_ok:
      "\<lbrakk>inv s; held me s i blk; length d = BSIZE\<rbrakk> \<Longrightarrow>
       inv (set_data i d s) \<and>
       abs (set_data i d s) = (abs s)\<lparr>s_view := (s_view (abs s))(blk := d)\<rparr> \<and>
       (\<forall>j b. held me s j b \<longrightarrow> held me (set_data i d s) j b)"
    and set_dirty_ok:
      "\<lbrakk>inv s; held me s i blk\<rbrakk> \<Longrightarrow>
       inv (set_dirty i s) \<and>
       abs (set_dirty i s) = (abs s)\<lparr>s_dirty := (s_dirty (abs s))(blk := True)\<rparr> \<and>
       (\<forall>j b. held me s j b \<longrightarrow> held me (set_dirty i s) j b)"
    and bwrite_ok:
      "\<lbrakk>inv s; held me s i blk\<rbrakk> \<Longrightarrow>
       \<exists>s'. bwrite me i s = Ret () s' \<and> inv s' \<and>
         abs s' = (abs s)\<lparr>s_dirty := (s_dirty (abs s))(blk := False),
           s_disk := (s_disk (abs s))(blk := s_view (abs s) blk),
           s_writes := s_writes (abs s) @ [(blk, s_view (abs s) blk)]\<rparr> \<and>
         (\<forall>j b. held me s j b \<longrightarrow> held me s' j b)"
    and brelse_ok:
      "\<lbrakk>inv s; held me s i blk; s_dirty (abs s) blk \<or> s_view (abs s) blk = s_disk (abs s) blk\<rbrakk> \<Longrightarrow>
       \<exists>s'. brelse me i s = Ret () s' \<and> inv s' \<and>
         abs s' = (abs s)\<lparr>s_locked := (s_locked (abs s))(blk := False)\<rparr> \<and>
         (\<forall>j b. held me s j b \<longrightarrow> j \<noteq> i \<longrightarrow> held me s' j b)"
    and held_data: "\<lbrakk>inv s; held me s i blk\<rbrakk> \<Longrightarrow> bdata s i = s_view (abs s) blk"
    and held_locked: "\<lbrakk>inv s; held me s i blk\<rbrakk> \<Longrightarrow> s_locked (abs s) blk \<and> blk < s_size (abs s)"
    and held_inj: "\<lbrakk>inv s; held me s i blk; held me s i blk'\<rbrakk> \<Longrightarrow> blk = blk'"
    and view_length: "\<lbrakk>inv s; blk < s_size (abs s)\<rbrakk> \<Longrightarrow> length (s_view (abs s) blk) = BSIZE"
    and clean_view:
      "\<lbrakk>inv s; \<not> s_dirty (abs s) blk; \<not> s_locked (abs s) blk\<rbrakk> \<Longrightarrow>
       s_view (abs s) blk = s_disk (abs s) blk"
    and busy_finite: "inv s \<Longrightarrow> finite (s_busy (abs s))"
begin

text \<open>
  Reading a block and releasing it leaves the abstract state alone. \<open>f\<close> is what the caller
  computes from the data while it holds the buffer.
\<close>

lemma read_block:
  assumes "inv s" and "blk < s_size (abs s)" and "\<not> s_locked (abs s) blk"
    and "s_dirty (abs s) blk \<or> card (s_busy (abs s)) < cap"
  shows "\<exists>s'. obind (bread me 1 blk s) (\<lambda>i s. obind (brelse me i s) (\<lambda>_ s'. Ret (f (bdata s i)) s'))
      = Ret (f (s_view (abs s) blk)) s' \<and> inv s' \<and> abs s' = abs s \<and>
      (\<forall>j b. held me s j b \<longrightarrow> held me s' j b)"
proof -
  obtain i s1 where 1: "bread me 1 blk s = Ret i s1" "inv s1" "held me s1 i blk"
    "abs s1 = (abs s)\<lparr>s_locked := (s_locked (abs s))(blk := True)\<rparr>"
    and h1: "\<forall>j b. held me s j b \<longrightarrow> held me s1 j b"
    using bread_ok [OF assms] by blast
  have c: "s_dirty (abs s1) blk \<or> s_view (abs s1) blk = s_disk (abs s1) blk"
    using 1(4) clean_view [OF assms(1) _ assms(3)] by auto
  obtain s2 where 2: "brelse me i s1 = Ret () s2" "inv s2"
    "abs s2 = (abs s1)\<lparr>s_locked := (s_locked (abs s1))(blk := False)\<rparr>"
    and h2: "\<forall>j b. held me s1 j b \<longrightarrow> j \<noteq> i \<longrightarrow> held me s2 j b"
    using brelse_ok [OF 1(2,3) c] by blast
  have "abs s2 = abs s"
    using 1(4) 2(3) assms(3) by (simp add: fun_upd_idem)
  moreover have "bdata s1 i = s_view (abs s) blk"
    using held_data [OF 1(2,3)] 1(4) by simp
  moreover have "held me s2 j b" if "held me s j b" for j b
  proof -
    have "held me s1 j b" using h1 that by blast
    moreover have "b \<noteq> blk" using held_locked [OF assms(1) that] assms(3) by auto
    ultimately have "j \<noteq> i" using held_inj [OF 1(2) _ 1(3)] by blast
    then show ?thesis using h2 \<open>held me s1 j b\<close> by blast
  qed
  ultimately show ?thesis using 1 2 by simp
qed

text \<open>The header update: read a block, change it, write it through, release it.\<close>

lemma write_block:
  assumes "inv s" and "x < s_size (abs s)" and "\<not> s_locked (abs s) x"
    and "s_dirty (abs s) x \<or> card (s_busy (abs s)) < cap"
    and "length (g (s_view (abs s) x)) = BSIZE"
  shows "\<exists>s'. obind (bread me 1 x s) (\<lambda>i s. obind (bwrite me i (set_data i (g (bdata s i)) s))
      (\<lambda>_ s. brelse me i s)) = Ret () s' \<and> inv s' \<and>
      abs s' = put_block x (g (s_view (abs s) x)) (abs s)"
proof -
  let ?d = "g (s_view (abs s) x)"
  obtain i s1 where 1: "bread me 1 x s = Ret i s1" "inv s1" "held me s1 i x"
    "abs s1 = (abs s)\<lparr>s_locked := (s_locked (abs s))(x := True)\<rparr>"
    using bread_ok [OF assms(1-4)] by blast
  have d: "bdata s1 i = s_view (abs s) x" using held_data [OF 1(2,3)] 1(4) by simp
  note 2 = set_data_ok [OF 1(2,3) assms(5)]
  then have i2: "inv (set_data i ?d s1)" and h2: "held me (set_data i ?d s1) i x"
    using 1(3) by blast+
  obtain s3 where 3: "bwrite me i (set_data i ?d s1) = Ret () s3" "inv s3" "held me s3 i x"
    "abs s3 = (abs s1)\<lparr>s_view := (s_view (abs s1))(x := ?d), s_dirty := (s_dirty (abs s1))(x := False),
      s_disk := (s_disk (abs s1))(x := ?d), s_writes := s_writes (abs s1) @ [(x, ?d)]\<rparr>"
    using bwrite_ok [OF i2 h2] 2 h2 by auto
  have "s_view (abs s3) x = s_disk (abs s3) x" by (simp add: 3(4))
  then obtain s4 where 4: "brelse me i s3 = Ret () s4" "inv s4"
    "abs s4 = (abs s3)\<lparr>s_locked := (s_locked (abs s3))(x := False)\<rparr>"
    using brelse_ok [OF 3(2,3)] by blast
  have "abs s4 = put_block x ?d (abs s)"
    using 1(4) 3(4) 4(3) assms(3) by (simp add: put_block_def fun_upd_idem)
  then show ?thesis using 1 3 4 d by simp
qed

text \<open>Two buffers held at once.\<close>

lemma bread_two:
  assumes "inv s" and "x < s_size (abs s)" and "y < s_size (abs s)" and "x \<noteq> y"
    and "\<not> s_locked (abs s) x" and "\<not> s_locked (abs s) y"
    and "s_dirty (abs s) x \<or> card (s_busy (abs s)) < cap"
    and "s_dirty (abs s) y \<or> card (s_busy (abs s)) + 1 < cap"
  obtains i j s1 s2 where "bread me 1 x s = Ret i s1" and "bread me 1 y s1 = Ret j s2"
    and "inv s2" and "held me s2 i x" and "held me s2 j y" and "i \<noteq> j"
    and "abs s2 = (abs s)\<lparr>s_locked := (s_locked (abs s))(x := True, y := True)\<rparr>"
proof -
  obtain i s1 where 1: "bread me 1 x s = Ret i s1" "inv s1" "held me s1 i x"
    "abs s1 = (abs s)\<lparr>s_locked := (s_locked (abs s))(x := True)\<rparr>"
    using bread_ok [OF assms(1,2,5,7)] by blast
  have "s_busy (abs s1) \<subseteq> insert x (s_busy (abs s))"
    by (auto simp: s_busy_def 1(4))
  then have "card (s_busy (abs s1)) \<le> card (s_busy (abs s)) + 1"
    using card_mono [of "insert x (s_busy (abs s))"] card_insert_le_m1 busy_finite [OF assms(1)]
    by (metis Suc_eq_plus1 card_insert_if finite_insert le_SucI)
  then obtain j s2 where 2: "bread me 1 y s1 = Ret j s2" "inv s2" "held me s2 j y"
    "abs s2 = (abs s1)\<lparr>s_locked := (s_locked (abs s1))(y := True)\<rparr>"
    "\<forall>k b. held me s1 k b \<longrightarrow> held me s2 k b"
    using bread_ok [OF 1(2), of y me] assms 1(4) by auto
  have hi: "held me s2 i x" using 1(3) 2(5) by blast
  moreover have "i \<noteq> j" using held_inj [OF 2(2) hi, of y] 2(3) assms(4) by blast
  ultimately show ?thesis
    using that [OF 1(1) 2(1,2) hi 2(3)] 1(4) 2(4) by simp
qed

text \<open>
  Copying a block onto another one through the disk. In the first form the target is the buffer
  read first (\<open>write_log\<close>), in the second the one read second (\<open>install_trans\<close>).
\<close>

lemma copy_into_first:
  assumes "inv s" and "x < s_size (abs s)" and "y < s_size (abs s)" and "x \<noteq> y"
    and "\<not> s_locked (abs s) x" and "\<not> s_locked (abs s) y"
    and "s_dirty (abs s) x \<or> card (s_busy (abs s)) < cap"
    and "s_dirty (abs s) y \<or> card (s_busy (abs s)) + 1 < cap"
  shows "\<exists>s'. obind (bread me 1 x s) (\<lambda>i s. obind (bread me 1 y s) (\<lambda>j s.
      obind (bwrite me i (set_data i (bdata s j) s)) (\<lambda>_ s.
      obind (brelse me j s) (\<lambda>_ s. brelse me i s)))) = Ret () s' \<and> inv s' \<and>
      abs s' = put_block x (s_view (abs s) y) (abs s)"
proof -
  let ?d = "s_view (abs s) y"
  obtain i j s1 s2 where 2: "bread me 1 x s = Ret i s1" "bread me 1 y s1 = Ret j s2"
    "inv s2" "held me s2 i x" "held me s2 j y" "i \<noteq> j"
    "abs s2 = (abs s)\<lparr>s_locked := (s_locked (abs s))(x := True, y := True)\<rparr>"
    by (rule bread_two [OF assms])
  have d: "bdata s2 j = ?d" using held_data [OF 2(3,5)] 2(7) by simp
  have l: "length ?d = BSIZE" using view_length [OF assms(1,3)] .
  note 3 = set_data_ok [OF 2(3,4) l]
  then have i3: "inv (set_data i ?d s2)" and h3: "held me (set_data i ?d s2) i x"
    and h3': "held me (set_data i ?d s2) j y"
    using 2(4,5) by blast+
  obtain s4 where 4: "bwrite me i (set_data i ?d s2) = Ret () s4" "inv s4"
    "held me s4 i x" "held me s4 j y"
    "abs s4 = (abs s2)\<lparr>s_view := (s_view (abs s2))(x := ?d), s_dirty := (s_dirty (abs s2))(x := False),
      s_disk := (s_disk (abs s2))(x := ?d), s_writes := s_writes (abs s2) @ [(x, ?d)]\<rparr>"
    using bwrite_ok [OF i3 h3] 3 h3 h3' by auto
  have "s_dirty (abs s4) y \<or> s_view (abs s4) y = s_disk (abs s4) y"
    using clean_view [OF assms(1) _ assms(6)] assms(4) by (auto simp: 4(5) 2(7))
  then obtain s5 where 5: "brelse me j s4 = Ret () s5" "inv s5" "held me s5 i x"
    "abs s5 = (abs s4)\<lparr>s_locked := (s_locked (abs s4))(y := False)\<rparr>"
    using brelse_ok [OF 4(2,4)] 4(3) 2(6) by blast
  have "s_view (abs s5) x = s_disk (abs s5) x" by (simp add: 5(4) 4(5))
  then obtain s6 where 6: "brelse me i s5 = Ret () s6" "inv s6"
    "abs s6 = (abs s5)\<lparr>s_locked := (s_locked (abs s5))(x := False)\<rparr>"
    using brelse_ok [OF 5(2,3)] by blast
  have "abs s6 = put_block x ?d (abs s)"
    using assms(4-6) by (intro bstore.equality) (auto simp: 2(7) 4(5) 5(4) 6(3) fun_eq_iff)
  then show ?thesis using 2 4 5 6 d by simp
qed

lemma copy_into_second:
  assumes "inv s" and "x < s_size (abs s)" and "y < s_size (abs s)" and "x \<noteq> y"
    and "\<not> s_locked (abs s) x" and "\<not> s_locked (abs s) y"
    and "s_dirty (abs s) x \<or> card (s_busy (abs s)) < cap"
    and "s_dirty (abs s) y \<or> card (s_busy (abs s)) + 1 < cap"
  shows "\<exists>s'. obind (bread me 1 x s) (\<lambda>i s. obind (bread me 1 y s) (\<lambda>j s.
      obind (bwrite me j (set_data j (bdata s i) s)) (\<lambda>_ s.
      obind (brelse me i s) (\<lambda>_ s. brelse me j s)))) = Ret () s' \<and> inv s' \<and>
      abs s' = put_block y (s_view (abs s) x) (abs s)"
proof -
  let ?d = "s_view (abs s) x"
  obtain i j s1 s2 where 2: "bread me 1 x s = Ret i s1" "bread me 1 y s1 = Ret j s2"
    "inv s2" "held me s2 i x" "held me s2 j y" "i \<noteq> j"
    "abs s2 = (abs s)\<lparr>s_locked := (s_locked (abs s))(x := True, y := True)\<rparr>"
    by (rule bread_two [OF assms])
  have d: "bdata s2 i = ?d" using held_data [OF 2(3,4)] 2(7) by simp
  have l: "length ?d = BSIZE" using view_length [OF assms(1,2)] .
  note 3 = set_data_ok [OF 2(3,5) l]
  then have i3: "inv (set_data j ?d s2)" and h3: "held me (set_data j ?d s2) j y"
    and h3': "held me (set_data j ?d s2) i x"
    using 2(4,5) by blast+
  obtain s4 where 4: "bwrite me j (set_data j ?d s2) = Ret () s4" "inv s4"
    "held me s4 j y" "held me s4 i x"
    "abs s4 = (abs s2)\<lparr>s_view := (s_view (abs s2))(y := ?d), s_dirty := (s_dirty (abs s2))(y := False),
      s_disk := (s_disk (abs s2))(y := ?d), s_writes := s_writes (abs s2) @ [(y, ?d)]\<rparr>"
    using bwrite_ok [OF i3 h3] 3 h3 h3' by auto
  have "s_dirty (abs s4) x \<or> s_view (abs s4) x = s_disk (abs s4) x"
    using clean_view [OF assms(1) _ assms(5)] assms(4) by (auto simp: 4(5) 2(7))
  then obtain s5 where 5: "brelse me i s4 = Ret () s5" "inv s5" "held me s5 j y"
    "abs s5 = (abs s4)\<lparr>s_locked := (s_locked (abs s4))(x := False)\<rparr>"
    using brelse_ok [OF 4(2,4)] 4(3) 2(6) by blast
  have "s_view (abs s5) y = s_disk (abs s5) y" by (simp add: 5(4) 4(5))
  then obtain s6 where 6: "brelse me j s5 = Ret () s6" "inv s6"
    "abs s6 = (abs s5)\<lparr>s_locked := (s_locked (abs s5))(y := False)\<rparr>"
    using brelse_ok [OF 5(2,3)] by blast
  have "abs s6 = put_block y ?d (abs s)"
    using assms(4-6) by (intro bstore.equality) (auto simp: 2(7) 4(5) 5(4) 6(3) fun_eq_iff)
  then show ?thesis using 2 4 5 6 d by simp
qed

end

end
