(* ===== verification/Sleeplock.thy ===== *)
theory Sleeplock
  imports Prelude
begin

text \<open>
  Sleep locks (\<open>src/xv6/sleeplock.c\<close>). The spin lock \<open>lk->lk\<close> makes each of the
  four routines atomic, so a routine is one function on the lock. The field \<open>name\<close> is for
  debugging only. \<open>me\<close> is \<open>myproc()->pid\<close>.
\<close>

record sleeplock =
  sl_locked :: bool
  sl_pid :: int

definition initsleeplock :: sleeplock where
  "initsleeplock = \<lparr>sl_locked = False, sl_pid = 0\<rparr>"

text \<open>
  \<open>acquiresleep\<close> sleeps on the lock while it is held; \<open>None\<close> says that the caller
  goes to sleep in this state.
\<close>

definition acquiresleep :: "int \<Rightarrow> sleeplock \<Rightarrow> sleeplock option" where
  "acquiresleep me lk =
     (if sl_locked lk then None else Some (lk\<lparr>sl_locked := True, sl_pid := me\<rparr>))"

definition releasesleep :: "sleeplock \<Rightarrow> sleeplock" where
  "releasesleep lk = lk\<lparr>sl_locked := False, sl_pid := 0\<rparr>"

definition holdingsleep :: "int \<Rightarrow> sleeplock \<Rightarrow> bool" where
  "holdingsleep me lk \<longleftrightarrow> sl_locked lk \<and> sl_pid lk = me"

lemmas sleeplock_defs = initsleeplock_def acquiresleep_def releasesleep_def holdingsleep_def

lemma sleeplock_upd_all [simp]:
  "(lk :: sleeplock)\<lparr>sl_locked := a, sl_pid := b\<rparr> = \<lparr>sl_locked = a, sl_pid = b\<rparr>"
  by (cases lk) simp

lemma acquiresleep_holding: "acquiresleep me lk = Some lk' \<Longrightarrow> holdingsleep me lk'"
  by (auto simp: sleeplock_defs split: if_splits)

lemma holdingsleep_excludes: "holdingsleep me lk \<Longrightarrow> acquiresleep other lk = None"
  by (simp add: sleeplock_defs)

lemma releasesleep_free: "acquiresleep other (releasesleep lk) \<noteq> None"
  by (simp add: sleeplock_defs)

lemma holdingsleep_unique: "holdingsleep a lk \<Longrightarrow> holdingsleep b lk \<Longrightarrow> a = b"
  by (simp add: holdingsleep_def)

end
