(* ===== verification/Bio.thy ===== *)
theory Bio
  imports Block_Cache Sleeplock
begin

text \<open>
  The buffer cache (\<open>src/xv6/bio.c\<close>) over the disk driver that keeps the disk in memory
  (\<open>src/xv6/memide.c\<close>). A \<open>struct buf *\<close> is the index of the buffer in
  \<open>bcache.buf[NBUF]\<close>; the list head \<open>&bcache.head\<close> is the index \<open>NBUF\<close>. The
  links \<open>next\<close> and \<open>prev\<close> are kept as pointers. The two bits \<open>B_VALID\<close> and
  \<open>B_DIRTY\<close> of \<open>flags\<close> are two fields. \<open>bcache.lock\<close> is held over every list
  walk and every update of a reference count, so each routine is one step on the state.

  The field \<open>writes\<close> lists the sector writes in the order the driver made them: the disk
  is the replay of that list, and a crash leaves the replay of one of its prefixes.
\<close>

definition NBUF :: nat where "NBUF = 30"

abbreviation HEAD :: nat where "HEAD \<equiv> NBUF"

record buf =
  b_valid :: bool
  b_dirty :: bool
  b_dev :: nat
  b_blockno :: nat
  b_lock :: sleeplock
  b_refcnt :: int
  b_data :: "byte list"

record bcache =
  bufs :: "nat \<Rightarrow> buf"
  bnext :: "nat \<Rightarrow> nat"
  bprev :: "nat \<Rightarrow> nat"
  disk :: "nat \<Rightarrow> byte list"
  disksize :: nat
  writes :: "(nat \<times> byte list) list"

definition set_buf :: "nat \<Rightarrow> buf \<Rightarrow> bcache \<Rightarrow> bcache" where
  "set_buf i b s = s\<lparr>bufs := (bufs s)(i := b)\<rparr>"

text \<open>The assignment \<open>bp->data[..] = ..\<close> of a caller that holds the buffer.\<close>

definition set_data :: "nat \<Rightarrow> byte list \<Rightarrow> bcache \<Rightarrow> bcache" where
  "set_data i d s = set_buf i ((bufs s i)\<lparr>b_data := d\<rparr>) s"

subsection \<open>Initialisation\<close>

text \<open>The four assignments that link a buffer in after the head.\<close>

definition link_front :: "nat \<Rightarrow> bcache \<Rightarrow> bcache" where
  "link_front b s =
     (let nx = (bnext s)(b := bnext s HEAD);
          pv = (bprev s)(b := HEAD);
          pv = pv(nx HEAD := b);
          nx = nx(HEAD := b)
      in s\<lparr>bnext := nx, bprev := pv\<rparr>)"

definition unlink_buf :: "nat \<Rightarrow> bcache \<Rightarrow> bcache" where
  "unlink_buf b s =
     s\<lparr>bprev := (bprev s)(bnext s b := bprev s b),
       bnext := (bnext s)(bprev s b := bnext s b)\<rparr>"

text \<open>Static storage is zero before \<open>binit\<close>.\<close>

definition zero_buf :: buf where
  "zero_buf = \<lparr>b_valid = False, b_dirty = False, b_dev = 0, b_blockno = 0,
     b_lock = initsleeplock, b_refcnt = 0, b_data = replicate BSIZE 0\<rparr>"

definition bss_bcache :: "(nat \<Rightarrow> byte list) \<Rightarrow> nat \<Rightarrow> bcache" where
  "bss_bcache d n = \<lparr>bufs = (\<lambda>_. zero_buf), bnext = (\<lambda>_. 0), bprev = (\<lambda>_. 0),
     disk = d, disksize = n, writes = []\<rparr>"

definition binit :: "bcache \<Rightarrow> bcache" where
  "binit s =
     fold (\<lambda>b s. link_front b (set_buf b ((bufs s b)\<lparr>b_lock := initsleeplock\<rparr>) s)) [0..<NBUF]
       (s\<lparr>bprev := (bprev s)(HEAD := HEAD), bnext := (bnext s)(HEAD := HEAD)\<rparr>)"

subsection \<open>The driver\<close>

definition iderw :: "int \<Rightarrow> nat \<Rightarrow> bcache \<Rightarrow> (unit, bcache) outcome" where
  "iderw me i s =
     (let b = bufs s i in
      if \<not> holdingsleep me (b_lock b) then Panic ''iderw: buf not locked''
      else if b_valid b \<and> \<not> b_dirty b then Panic ''iderw: nothing to do''
      else if b_dev b \<noteq> 1 then Panic ''iderw: request not for disk 1''
      else if disksize s \<le> b_blockno b then Panic ''iderw: block out of range''
      else if b_dirty b then
        Ret () (set_buf i (b\<lparr>b_dirty := False, b_valid := True\<rparr>)
          (s\<lparr>disk := (disk s)(b_blockno b := b_data b),
             writes := writes s @ [(b_blockno b, b_data b)]\<rparr>))
      else Ret () (set_buf i (b\<lparr>b_data := disk s (b_blockno b), b_valid := True\<rparr>) s))"

subsection \<open>Lookup and release\<close>

text \<open>
  The two list walks of \<open>bget\<close>: from \<open>b\<close>, along \<open>nx\<close>, to the head. The list has
  \<open>NBUF\<close> buffers, so \<open>NBUF + 1\<close> steps reach the head (\<open>walk_find\<close> below).
\<close>

fun walk :: "nat \<Rightarrow> (nat \<Rightarrow> nat) \<Rightarrow> (nat \<Rightarrow> bool) \<Rightarrow> nat \<Rightarrow> nat option" where
  "walk 0 nx P b = None"
| "walk (Suc k) nx P b =
     (if b = HEAD then None else if P b then Some b else walk k nx P (nx b))"

definition lock_buf :: "int \<Rightarrow> nat \<Rightarrow> bcache \<Rightarrow> (nat, bcache) outcome" where
  "lock_buf me i s =
     (case acquiresleep me (b_lock (bufs s i)) of
        None \<Rightarrow> Sleep (BufLock i) s
      | Some lk \<Rightarrow> Ret i (set_buf i ((bufs s i)\<lparr>b_lock := lk\<rparr>) s))"

definition bget :: "int \<Rightarrow> nat \<Rightarrow> nat \<Rightarrow> bcache \<Rightarrow> (nat, bcache) outcome" where
  "bget me dev blockno s =
     (case walk (NBUF + 1) (bnext s)
             (\<lambda>i. b_dev (bufs s i) = dev \<and> b_blockno (bufs s i) = blockno) (bnext s HEAD) of
        Some i \<Rightarrow> lock_buf me i (set_buf i ((bufs s i)\<lparr>b_refcnt := b_refcnt (bufs s i) + 1\<rparr>) s)
      | None \<Rightarrow>
         (case walk (NBUF + 1) (bprev s)
                 (\<lambda>i. b_refcnt (bufs s i) = 0 \<and> \<not> b_dirty (bufs s i)) (bprev s HEAD) of
            Some i \<Rightarrow>
              lock_buf me i (set_buf i ((bufs s i)\<lparr>b_dev := dev, b_blockno := blockno,
                b_valid := False, b_dirty := False, b_refcnt := 1\<rparr>) s)
          | None \<Rightarrow> Panic ''bget: no buffers''))"

definition bread :: "int \<Rightarrow> nat \<Rightarrow> nat \<Rightarrow> bcache \<Rightarrow> (nat, bcache) outcome" where
  "bread me dev blockno s =
     obind (bget me dev blockno s) (\<lambda>i s.
       if \<not> b_valid (bufs s i) then obind (iderw me i s) (\<lambda>_ s. Ret i s)
       else Ret i s)"

definition bwrite :: "int \<Rightarrow> nat \<Rightarrow> bcache \<Rightarrow> (unit, bcache) outcome" where
  "bwrite me i s =
     (if \<not> holdingsleep me (b_lock (bufs s i)) then Panic ''bwrite''
      else iderw me i (set_buf i ((bufs s i)\<lparr>b_dirty := True\<rparr>) s))"

definition brelse :: "int \<Rightarrow> nat \<Rightarrow> bcache \<Rightarrow> (unit, bcache) outcome" where
  "brelse me i s =
     (if \<not> holdingsleep me (b_lock (bufs s i)) then Panic ''brelse''
      else
        let s = set_buf i ((bufs s i)\<lparr>b_lock := releasesleep (b_lock (bufs s i))\<rparr>) s;
            s = set_buf i ((bufs s i)\<lparr>b_refcnt := b_refcnt (bufs s i) - 1\<rparr>) s
        in if b_refcnt (bufs s i) = 0 then Ret () (link_front i (unlink_buf i s))
           else Ret () s)"

subsection \<open>The list of buffers\<close>

text \<open>
  The abstraction of the doubly linked list: \<open>links nx pv ys\<close> says that \<open>nx\<close> and
  \<open>pv\<close> join the consecutive members of \<open>ys\<close>, and \<open>ring s xs\<close> that the list of
  the cache, from the head and back to it, holds the buffers \<open>xs\<close>, most recently used first.
\<close>

fun links :: "(nat \<Rightarrow> nat) \<Rightarrow> (nat \<Rightarrow> nat) \<Rightarrow> nat list \<Rightarrow> bool" where
  "links nx pv (a # b # ys) \<longleftrightarrow> nx a = b \<and> pv b = a \<and> links nx pv (b # ys)"
| "links nx pv _ \<longleftrightarrow> True"

definition ring :: "bcache \<Rightarrow> nat list \<Rightarrow> bool" where
  "ring s xs \<longleftrightarrow> distinct xs \<and> HEAD \<notin> set xs \<and> links (bnext s) (bprev s) (HEAD # xs @ [HEAD])"

lemma links_append:
  "us \<noteq> [] \<Longrightarrow> vs \<noteq> [] \<Longrightarrow>
   links nx pv (us @ vs) \<longleftrightarrow>
     links nx pv us \<and> links nx pv vs \<and> nx (last us) = hd vs \<and> pv (hd vs) = last us"
proof (induction us rule: induct_list012)
  case (2 a)
  then show ?case by (cases vs) auto
qed auto

lemma links_upd_nx: "a \<notin> set (butlast ys) \<Longrightarrow> links (nx(a := z)) pv ys = links nx pv ys"
  by (induction nx pv ys rule: links.induct) auto

lemma links_upd_pv: "a \<notin> set (tl ys) \<Longrightarrow> links nx (pv(a := z)) ys = links nx pv ys"
  by (induction nx pv ys rule: links.induct) auto

lemma links_upd:
  "links nx pv ys \<Longrightarrow> a \<notin> set (butlast ys) \<Longrightarrow> b \<notin> set (tl ys) \<Longrightarrow>
   links (nx(a := z)) (pv(b := w)) ys"
  by (simp add: links_upd_nx links_upd_pv)

lemma links_rev: "links nx pv ys \<Longrightarrow> links pv nx (rev ys)"
proof (induction nx pv ys rule: links.induct)
  case (1 nx pv a b ys)
  then have "links pv nx (rev (b # ys))" by simp
  moreover have "last (rev (b # ys)) = b" by simp
  ultimately show ?case
    using 1 links_append [of "rev (b # ys)" "[a]" pv nx] by simp
qed auto

lemma walk_links:
  "links nx pv (a # xs @ [HEAD]) \<Longrightarrow> HEAD \<notin> set xs \<Longrightarrow> length xs < k \<Longrightarrow>
   walk k nx P (nx a) = List.find P xs"
proof (induction xs arbitrary: a k)
  case Nil
  then show ?case by (cases k) auto
next
  case (Cons x xs)
  then show ?case by (cases k) auto
qed

declare walk.simps [simp del]

lemma last_notin_butlast: "distinct xs \<Longrightarrow> xs \<noteq> [] \<Longrightarrow> last xs \<notin> set (butlast xs)"
  by (metis append_butlast_last_id distinct.simps(2) distinct1_rotate rotate1.simps(2))

lemma hd_notin_tl: "distinct xs \<Longrightarrow> xs \<noteq> [] \<Longrightarrow> hd xs \<notin> set (tl xs)"
  by (cases xs) auto

lemma ring_unlink:
  assumes "ring s (as @ b # cs)"
  shows "ring (unlink_buf b s) (as @ cs)"
proof -
  let ?us = "HEAD # as" and ?vs = "cs @ [HEAD]"
  let ?nx = "bnext s" and ?pv = "bprev s"
  have l: "links ?nx ?pv (?us @ [b] @ ?vs)"
    and d: "distinct (as @ b # cs)" "HEAD \<notin> set (as @ b # cs)"
    using assms by (auto simp: ring_def)
  have u: "links ?nx ?pv ?us" and v: "links ?nx ?pv ?vs" and
    e: "?nx (last ?us) = b" "?pv b = last ?us" "?nx b = hd ?vs" "?pv (hd ?vs) = b"
    using l links_append [of ?us "[b] @ ?vs"] links_append [of "[b]" ?vs] by auto
  let ?nx' = "?nx(last ?us := hd ?vs)" and ?pv' = "?pv(hd ?vs := last ?us)"
  have "last ?us \<notin> set (butlast ?us)" and "hd ?vs \<notin> set (tl ?us)"
    using d last_notin_butlast [of ?us] by (auto, cases cs, auto)
  with u have "links ?nx' ?pv' ?us"
    by (rule links_upd)
  moreover have "last ?us \<notin> set (butlast ?vs)" and "hd ?vs \<notin> set (tl ?vs)"
    using d hd_notin_tl [of ?vs] by (auto, metis disjoint_iff last_in_set)
  with v have "links ?nx' ?pv' ?vs"
    by (rule links_upd)
  ultimately have "links ?nx' ?pv' (?us @ ?vs)"
    by (subst links_append) auto
  then show ?thesis
    using d e by (simp add: ring_def unlink_buf_def)
qed

lemma ring_link_front:
  assumes "ring s ys" and "b \<notin> set ys" and "b \<noteq> HEAD"
  shows "ring (link_front b s) (b # ys)"
proof -
  let ?vs = "ys @ [HEAD]"
  let ?nx = "bnext s" and ?pv = "bprev s"
  have v: "links ?nx ?pv ?vs" and f: "?nx HEAD = hd ?vs"
    using assms(1) links_append [of "[HEAD]" ?vs] by (auto simp: ring_def)
  let ?nx' = "?nx(b := hd ?vs, HEAD := b)" and ?pv' = "?pv(b := HEAD, hd ?vs := b)"
  have d: "distinct ?vs" and b: "b \<notin> set ?vs" "hd ?vs \<noteq> b"
    using assms by (auto simp: ring_def, cases ys, auto)
  have "hd ?vs \<notin> set (tl ?vs)" "b \<notin> set (tl ?vs)" "b \<notin> set (butlast ?vs)" "HEAD \<notin> set (butlast ?vs)"
    using d b hd_notin_tl [OF d] list.set_sel(2) [of ?vs b] by (auto dest: in_set_butlastD)
  then have "links ?nx' ?pv' ?vs"
    using v by (intro links_upd)
  then have "links ?nx' ?pv' (HEAD # b # ?vs)"
    using b assms(3) links_append [of "[b]" ?vs ?nx' ?pv'] by simp
  then show ?thesis
    using assms f by (simp add: ring_def link_front_def Let_def)
qed

lemma ring_find_fwd:
  assumes "ring s xs" and "set xs = {..<NBUF}"
  shows "walk (NBUF + 1) (bnext s) P (bnext s HEAD) = List.find P xs"
proof -
  have "length xs = NBUF"
    using assms by (metis card_lessThan distinct_card ring_def)
  then show ?thesis
    using assms by (intro walk_links [of "bnext s" "bprev s"]) (auto simp: ring_def)
qed

lemma ring_find_bwd:
  assumes "ring s xs" and "set xs = {..<NBUF}"
  shows "walk (NBUF + 1) (bprev s) P (bprev s HEAD) = List.find P (rev xs)"
proof -
  have "length xs = NBUF"
    using assms by (metis card_lessThan distinct_card ring_def)
  moreover have "links (bprev s) (bnext s) (HEAD # rev xs @ [HEAD])"
    using assms links_rev [of "bnext s" "bprev s" "HEAD # xs @ [HEAD]"] by (simp add: ring_def)
  ultimately show ?thesis
    using assms by (intro walk_links [of "bprev s" "bnext s"]) (auto simp: ring_def)
qed

subsection \<open>Invariant and abstraction\<close>

text \<open>
  A buffer is well formed: it holds a block of the disk exactly when it is valid, a dirty
  buffer is valid, nobody waits for it, and while it is neither locked nor dirty its data
  are those of the disk.
\<close>

abbreviation is_locked :: "buf \<Rightarrow> bool" where
  "is_locked b \<equiv> sl_locked (b_lock b)"

definition buf_ok :: "bcache \<Rightarrow> buf \<Rightarrow> bool" where
  "buf_ok s b \<longleftrightarrow>
     length (b_data b) = BSIZE \<and>
     (b_valid b \<longleftrightarrow> b_dev b = 1) \<and> (b_valid b \<longrightarrow> b_blockno b < disksize s) \<and>
     (b_dirty b \<longrightarrow> b_valid b) \<and> (is_locked b \<longrightarrow> b_valid b) \<and>
     b_refcnt b = (if is_locked b then 1 else 0) \<and>
     (b_valid b \<and> \<not> b_dirty b \<and> \<not> is_locked b \<longrightarrow> b_data b = disk s (b_blockno b))"

definition holds :: "bcache \<Rightarrow> nat \<Rightarrow> nat \<Rightarrow> bool" where
  "holds s i blk \<longleftrightarrow> i < NBUF \<and> b_dev (bufs s i) = 1 \<and> b_blockno (bufs s i) = blk"

definition bio_inv :: "bcache \<Rightarrow> bool" where
  "bio_inv s \<longleftrightarrow>
     (\<exists>xs. ring s xs \<and> set xs = {..<NBUF}) \<and>
     (\<forall>i<NBUF. buf_ok s (bufs s i)) \<and>
     (\<forall>i j blk. holds s i blk \<longrightarrow> holds s j blk \<longrightarrow> i = j) \<and>
     (\<forall>b<disksize s. length (disk s b) = BSIZE)"

text \<open>
  What a caller can see of a block: its current contents, whether it is pinned by
  \<open>B_DIRTY\<close>, whether it is locked, and how many buffers cannot be recycled.
\<close>

definition view :: "bcache \<Rightarrow> nat \<Rightarrow> byte list" where
  "view s blk =
     (case List.find (\<lambda>i. b_dev (bufs s i) = 1 \<and> b_blockno (bufs s i) = blk) [0..<NBUF] of
        Some i \<Rightarrow> b_data (bufs s i) | None \<Rightarrow> disk s blk)"

definition dirty :: "bcache \<Rightarrow> nat \<Rightarrow> bool" where
  "dirty s blk \<longleftrightarrow> (\<exists>i. holds s i blk \<and> b_dirty (bufs s i))"

definition locked :: "bcache \<Rightarrow> nat \<Rightarrow> bool" where
  "locked s blk \<longleftrightarrow> (\<exists>i. holds s i blk \<and> is_locked (bufs s i))"

definition busy :: "bcache \<Rightarrow> nat set" where
  "busy s = {i. i < NBUF \<and> (is_locked (bufs s i) \<or> b_dirty (bufs s i))}"

definition held :: "int \<Rightarrow> bcache \<Rightarrow> nat \<Rightarrow> nat \<Rightarrow> bool" where
  "held me s i blk \<longleftrightarrow> holds s i blk \<and> holdingsleep me (b_lock (bufs s i))"

lemma find_None_ball: "List.find P xs = None \<longleftrightarrow> (\<forall>x\<in>set xs. \<not> P x)"
  by (auto simp: find_None_iff)

lemma find_Some_in: "List.find P xs = Some x \<Longrightarrow> x \<in> set xs \<and> P x"
  by (auto simp: find_Some_iff)

lemma find_unique:
  assumes "x \<in> set xs" and "P x" and "\<And>y. y \<in> set xs \<Longrightarrow> P y \<Longrightarrow> y = x"
  shows "List.find P xs = Some x"
proof (cases "List.find P xs")
  case None
  then show ?thesis using assms(1,2) by (simp add: find_None_ball)
next
  case (Some y)
  then show ?thesis using assms(3) find_Some_in [OF Some] by simp
qed

lemma bio_inv_ring: "bio_inv s \<Longrightarrow> \<exists>xs. ring s xs \<and> set xs = {..<NBUF}"
  unfolding bio_inv_def by blast

lemma bio_inv_buf: "bio_inv s \<Longrightarrow> i < NBUF \<Longrightarrow> buf_ok s (bufs s i)"
  unfolding bio_inv_def by blast

lemma bio_inv_unique: "bio_inv s \<Longrightarrow> holds s i blk \<Longrightarrow> holds s j blk \<Longrightarrow> i = j"
  unfolding bio_inv_def by blast

lemma bio_inv_disk: "bio_inv s \<Longrightarrow> b < disksize s \<Longrightarrow> length (disk s b) = BSIZE"
  unfolding bio_inv_def by blast

lemma view_holds:
  assumes "bio_inv s" and "holds s i blk"
  shows "view s blk = b_data (bufs s i)"
proof -
  have "List.find (\<lambda>i. b_dev (bufs s i) = 1 \<and> b_blockno (bufs s i) = blk) [0..<NBUF] = Some i"
  proof (rule find_unique)
    show "j = i" if "b_dev (bufs s j) = 1 \<and> b_blockno (bufs s j) = blk" "j \<in> set [0..<NBUF]" for j
      using that bio_inv_unique [OF assms(1,2), of j] by (simp add: holds_def)
  qed (use assms(2) in \<open>auto simp: holds_def\<close>)
  then show ?thesis by (simp add: view_def)
qed

lemma view_uncached:
  assumes "\<And>i. \<not> holds s i blk"
  shows "view s blk = disk s blk"
proof -
  have "List.find (\<lambda>i. b_dev (bufs s i) = 1 \<and> b_blockno (bufs s i) = blk) [0..<NBUF] = None"
    using assms by (auto simp: find_None_ball holds_def)
  then show ?thesis by (simp add: view_def)
qed

lemma dirty_holds: "bio_inv s \<Longrightarrow> holds s i blk \<Longrightarrow> dirty s blk = b_dirty (bufs s i)"
  by (auto simp: dirty_def dest: bio_inv_unique)

lemma locked_holds: "bio_inv s \<Longrightarrow> holds s i blk \<Longrightarrow> locked s blk = is_locked (bufs s i)"
  by (auto simp: locked_def dest: bio_inv_unique)

lemma holds_set_buf:
  "holds (set_buf i b s) j blk \<longleftrightarrow>
     (if j = i then i < NBUF \<and> b_dev b = 1 \<and> b_blockno b = blk else holds s j blk)"
  by (auto simp: holds_def set_buf_def)

lemma set_buf_simps [simp]:
  "disk (set_buf i b s) = disk s" "disksize (set_buf i b s) = disksize s"
  "writes (set_buf i b s) = writes s" "bnext (set_buf i b s) = bnext s"
  "bprev (set_buf i b s) = bprev s" "bufs (set_buf i b s) = (bufs s)(i := b)"
  by (simp_all add: set_buf_def)

lemma buf_ok_set_buf [simp]: "buf_ok (set_buf i b s) = buf_ok s"
  by (rule ext) (simp add: buf_ok_def)

lemma ring_set_buf [simp]: "ring (set_buf i b s) = ring s"
  by (rule ext) (simp add: ring_def)

lemma bio_inv_set_buf:
  assumes "bio_inv s" and "i < NBUF" and "buf_ok s b"
    and "\<And>j. b_dev b = 1 \<Longrightarrow> j \<noteq> i \<Longrightarrow> \<not> holds s j (b_blockno b)"
  shows "bio_inv (set_buf i b s)"
  unfolding bio_inv_def
proof (intro conjI allI impI)
  show "\<exists>xs. ring (set_buf i b s) xs \<and> set xs = {..<NBUF}"
    using bio_inv_ring [OF assms(1)] by simp
  show "buf_ok (set_buf i b s) (bufs (set_buf i b s) j)" if "j < NBUF" for j
    using that assms(3) bio_inv_buf [OF assms(1)] by simp
  show "j = k" if "holds (set_buf i b s) j blk" "holds (set_buf i b s) k blk" for j k blk
    using that assms(4) bio_inv_unique [OF assms(1), of j blk k]
    by (auto simp: holds_set_buf split: if_splits)
  show "length (disk (set_buf i b s) c) = BSIZE" if "c < disksize (set_buf i b s)" for c
    using that bio_inv_disk [OF assms(1)] by simp
qed

lemma view_set_buf:
  assumes "bio_inv s" and "bio_inv (set_buf i b s)" and "i < NBUF" and "b_dev b = 1"
  shows "view (set_buf i b s) blk =
    (if blk = b_blockno b then b_data b else if holds s i blk then disk s blk else view s blk)"
proof -
  let ?s = "set_buf i b s"
  consider (new) "blk = b_blockno b" | (old) "blk \<noteq> b_blockno b" "holds s i blk"
    | (other) j where "blk \<noteq> b_blockno b" "\<not> holds s i blk" "holds s j blk"
    | (none) "blk \<noteq> b_blockno b" "\<forall>j. \<not> holds s j blk"
    by blast
  then show ?thesis
  proof cases
    case new
    then have "holds ?s i blk" using assms by (simp add: holds_set_buf)
    then show ?thesis using new view_holds [OF assms(2)] by simp
  next
    case old
    then have "\<not> holds ?s j blk" for j
      using bio_inv_unique [OF assms(1)] by (auto simp: holds_set_buf)
    then show ?thesis using old by (simp add: view_uncached)
  next
    case other
    then have "holds ?s j blk" by (auto simp: holds_set_buf)
    then show ?thesis
      using other view_holds [OF assms(2), of j blk] view_holds [OF assms(1), of j blk] by auto
  next
    case none
    then have "\<not> holds ?s j blk" for j by (simp add: holds_set_buf)
    then show ?thesis using none by (simp add: view_uncached)
  qed
qed

lemma dirty_set_buf:
  assumes "bio_inv s" and "i < NBUF" and "b_dev b = 1"
    and "\<And>j. j \<noteq> i \<Longrightarrow> \<not> holds s j (b_blockno b)"
  shows "dirty (set_buf i b s) blk =
    (if blk = b_blockno b then b_dirty b else if holds s i blk then False else dirty s blk)"
  using assms bio_inv_unique [OF assms(1), of i blk] by (auto simp: dirty_def holds_set_buf) metis

lemma locked_set_buf:
  assumes "bio_inv s" and "i < NBUF" and "b_dev b = 1"
    and "\<And>j. j \<noteq> i \<Longrightarrow> \<not> holds s j (b_blockno b)"
  shows "locked (set_buf i b s) blk =
    (if blk = b_blockno b then is_locked b else if holds s i blk then False else locked s blk)"
  using assms bio_inv_unique [OF assms(1), of i blk] by (auto simp: locked_def holds_set_buf) metis

lemma busy_set_buf:
  "i < NBUF \<Longrightarrow> busy (set_buf i b s) =
     (if is_locked b \<or> b_dirty b then insert i (busy s) else busy s - {i})"
  by (auto simp: busy_def)

lemma finite_busy [simp]: "finite (busy s)"
  by (simp add: busy_def)

subsection \<open>The routines meet the contract\<close>

definition bdata :: "bcache \<Rightarrow> nat \<Rightarrow> byte list" where
  "bdata s i = b_data (bufs s i)"

text \<open>The assignment \<open>b->flags |= B_DIRTY\<close> of \<open>log_write\<close>.\<close>

definition set_dirty :: "nat \<Rightarrow> bcache \<Rightarrow> bcache" where
  "set_dirty i s = set_buf i ((bufs s i)\<lparr>b_dirty := True\<rparr>) s"

definition babs :: "bcache \<Rightarrow> bstore" where
  "babs s = \<lparr>s_view = view s, s_dirty = dirty s, s_locked = locked s,
     s_disk = disk s, s_size = disksize s, s_writes = writes s\<rparr>"

lemma babs_sel [simp]:
  "s_view (babs s) = view s" "s_dirty (babs s) = dirty s" "s_locked (babs s) = locked s"
  "s_disk (babs s) = disk s" "s_size (babs s) = disksize s" "s_writes (babs s) = writes s"
  by (simp_all add: babs_def)

lemma held_holds: "held me s i blk \<Longrightarrow> holds s i blk"
  by (simp add: held_def)

lemma holds_range: "holds s i blk \<Longrightarrow> i < NBUF"
  by (simp add: holds_def)

text \<open>A change of buffer \<open>i\<close> that keeps its block.\<close>

lemma same_block_upd:
  assumes inv: "bio_inv s" and h: "holds s i blk" and ok: "buf_ok s b"
    and b: "b_dev b = 1" "b_blockno b = blk"
  shows "bio_inv (set_buf i b s)"
    and "view (set_buf i b s) = (view s)(blk := b_data b)"
    and "dirty (set_buf i b s) = (dirty s)(blk := b_dirty b)"
    and "locked (set_buf i b s) = (locked s)(blk := is_locked b)"
proof -
  have i: "i < NBUF" using h by (rule holds_range)
  have u: "\<not> holds s j (b_blockno b)" if "j \<noteq> i" for j
    using that b(2) h bio_inv_unique [OF inv] by blast
  show inv': "bio_inv (set_buf i b s)"
    using bio_inv_set_buf [OF inv i ok u] by blast
  have n: "\<not> holds s i c" if "c \<noteq> blk" for c
    using that h by (auto simp: holds_def)
  show "view (set_buf i b s) = (view s)(blk := b_data b)"
    using b n by (auto simp: view_set_buf [OF inv inv' i b(1)])
  show "dirty (set_buf i b s) = (dirty s)(blk := b_dirty b)"
    using b n by (auto simp: dirty_set_buf [OF inv i b(1) u])
  show "locked (set_buf i b s) = (locked s)(blk := is_locked b)"
    using b n by (auto simp: locked_set_buf [OF inv i b(1) u])
qed

lemma bget_cached:
  assumes "bio_inv s" and "holds s i blk" and "\<not> is_locked (bufs s i)"
  shows "bget me 1 blk s = Ret i (set_buf i ((bufs s i)\<lparr>b_refcnt := b_refcnt (bufs s i) + 1,
           b_lock := \<lparr>sl_locked = True, sl_pid = me\<rparr>\<rparr>) s)"
proof -
  obtain xs where xs: "ring s xs" "set xs = {..<NBUF}"
    using bio_inv_ring [OF assms(1)] by blast
  have "List.find (\<lambda>i. b_dev (bufs s i) = 1 \<and> b_blockno (bufs s i) = blk) xs = Some i"
  proof (rule find_unique)
    show "j = i" if "b_dev (bufs s j) = 1 \<and> b_blockno (bufs s j) = blk" "j \<in> set xs" for j
      using that xs bio_inv_unique [OF assms(1,2), of j] by (simp add: holds_def)
  qed (use assms(2) xs in \<open>auto simp: holds_def\<close>)
  then show ?thesis
    using assms(3) unfolding bget_def ring_find_fwd [OF xs]
    by (simp add: lock_buf_def acquiresleep_def set_buf_def)
qed

lemma bget_recycle:
  assumes "bio_inv s" and "\<And>i. \<not> holds s i blk" and "card (busy s) < NBUF"
  obtains i where "i < NBUF" and "i \<notin> busy s"
    and "bget me 1 blk s = Ret i (set_buf i ((bufs s i)\<lparr>b_dev := 1, b_blockno := blk,
           b_valid := False, b_dirty := False, b_refcnt := 1,
           b_lock := \<lparr>sl_locked = True, sl_pid = me\<rparr>\<rparr>) s)"
proof -
  obtain xs where xs: "ring s xs" "set xs = {..<NBUF}"
    using bio_inv_ring [OF assms(1)] by blast
  have f: "List.find (\<lambda>i. b_dev (bufs s i) = 1 \<and> b_blockno (bufs s i) = blk) xs = None"
    using xs assms(2) by (auto simp: find_None_ball holds_def)
  have "\<not> {..<NBUF} \<subseteq> busy s"
    using assms(3) card_mono [OF finite_busy, of "{..<NBUF}" s] by auto
  then obtain k where k: "k < NBUF" "k \<notin> busy s" by auto
  let ?P = "\<lambda>i. b_refcnt (bufs s i) = 0 \<and> \<not> b_dirty (bufs s i)"
  have P: "i < NBUF \<Longrightarrow> ?P i \<longleftrightarrow> i \<notin> busy s" for i
    using bio_inv_buf [OF assms(1), of i] by (auto simp: buf_ok_def busy_def)
  then have "List.find ?P (rev xs) \<noteq> None"
    using k xs by (auto simp: find_None_ball)
  then obtain i where i: "List.find ?P (rev xs) = Some i" by blast
  then have "i < NBUF" and "?P i"
    using find_Some_in [OF i] xs by auto
  moreover from this have "\<not> is_locked (bufs s i)" and "i \<notin> busy s"
    using P [of i] by (auto simp: busy_def)
  ultimately show ?thesis
    using f i that [of i] unfolding bget_def ring_find_fwd [OF xs] ring_find_bwd [OF xs]
    by (simp add: lock_buf_def acquiresleep_def set_buf_def)
qed

lemma bread_cached:
  assumes "bio_inv s" and "holds s i blk" and "\<not> locked s blk"
  shows "bread me 1 blk s = Ret i (set_buf i ((bufs s i)\<lparr>b_refcnt := b_refcnt (bufs s i) + 1,
           b_lock := \<lparr>sl_locked = True, sl_pid = me\<rparr>\<rparr>) s)"
proof -
  have "\<not> is_locked (bufs s i)" and "b_valid (bufs s i)"
    using assms locked_holds [OF assms(1,2)] bio_inv_buf [OF assms(1) holds_range [OF assms(2)]]
    by (auto simp: buf_ok_def holds_def)
  then show ?thesis
    using bget_cached [OF assms(1,2)] by (simp add: bread_def)
qed

lemma bread_recycle:
  assumes "bio_inv s" and "\<And>i. \<not> holds s i blk" and "card (busy s) < NBUF" and "blk < disksize s"
  obtains i where "i < NBUF" and "i \<notin> busy s"
    and "bread me 1 blk s = Ret i (set_buf i ((bufs s i)\<lparr>b_dev := 1, b_blockno := blk,
           b_dirty := False, b_refcnt := 1, b_lock := \<lparr>sl_locked = True, sl_pid = me\<rparr>,
           b_data := disk s blk, b_valid := True\<rparr>) s)"
proof -
  obtain i where i: "i < NBUF" "i \<notin> busy s"
    "bget me 1 blk s = Ret i (set_buf i ((bufs s i)\<lparr>b_dev := 1, b_blockno := blk,
           b_valid := False, b_dirty := False, b_refcnt := 1,
           b_lock := \<lparr>sl_locked = True, sl_pid = me\<rparr>\<rparr>) s)"
    using bget_recycle [OF assms(1-3)] by blast
  then show ?thesis
    using assms(4) that [of i]
    by (simp add: bread_def iderw_def holdingsleep_def set_buf_def)
qed

lemma held_set_buf_other:
  "held me s j b \<Longrightarrow> j \<noteq> i \<Longrightarrow> held me (set_buf i x s) j b"
  by (simp add: held_def holds_set_buf)

lemma bread_contract:
  assumes inv: "bio_inv s" and r: "blk < disksize s" and nl: "\<not> locked s blk"
    and room: "dirty s blk \<or> card (busy s) < NBUF"
  shows "\<exists>i s'. bread me 1 blk s = Ret i s' \<and> bio_inv s' \<and> held me s' i blk \<and>
    babs s' = (babs s)\<lparr>s_locked := (locked s)(blk := True)\<rparr> \<and>
    (\<forall>j b. held me s j b \<longrightarrow> held me s' j b)"
proof (cases "\<exists>i. holds s i blk")
  case True
  then obtain i where h: "holds s i blk" by blast
  let ?b = "(bufs s i)\<lparr>b_refcnt := b_refcnt (bufs s i) + 1,
    b_lock := \<lparr>sl_locked = True, sl_pid = me\<rparr>\<rparr>"
  have ok: "buf_ok s (bufs s i)" and i: "i < NBUF"
    using bio_inv_buf [OF inv] holds_range [OF h] by auto
  have u: "\<not> is_locked (bufs s i)" using nl locked_holds [OF inv h] by simp
  have ok': "buf_ok s ?b" using ok u h by (auto simp: buf_ok_def holds_def)
  have b: "b_dev (bufs s i) = 1" "b_blockno (bufs s i) = blk" using h by (auto simp: holds_def)
  then have "b_dev ?b = 1" "b_blockno ?b = blk" by simp_all
  note upd = same_block_upd [OF inv h ok' this]
  have "babs (set_buf i ?b s) = (babs s)\<lparr>s_locked := (locked s)(blk := True)\<rparr>"
    using upd b view_holds [OF inv h] dirty_holds [OF inv h]
    by (simp add: babs_def fun_upd_idem del: set_buf_simps(6))
  moreover have "held me (set_buf i ?b s) i blk"
    using b i by (simp add: held_def holds_set_buf holdingsleep_def)
  moreover have "held me (set_buf i ?b s) j c" if "held me s j c" for j c
    using that u by (cases "j = i") (auto simp: held_def holds_set_buf holdingsleep_def)
  ultimately show ?thesis
    using bread_cached [OF inv h nl] upd(1) by (intro exI conjI allI impI)
next
  case False
  then have nh: "\<not> holds s i blk" for i by blast
  then have "\<not> dirty s blk" by (auto simp: dirty_def)
  with room obtain i where i: "i < NBUF" "i \<notin> busy s" and
    e: "bread me 1 blk s = Ret i (set_buf i ((bufs s i)\<lparr>b_dev := 1, b_blockno := blk,
           b_dirty := False, b_refcnt := 1, b_lock := \<lparr>sl_locked = True, sl_pid = me\<rparr>,
           b_data := disk s blk, b_valid := True\<rparr>) s)" (is "_ = Ret i (set_buf i ?b s)")
    using bread_recycle [OF inv nh] r by blast
  have ok': "buf_ok s ?b"
    using r bio_inv_disk [OF inv r] by (simp add: buf_ok_def)
  have inv': "bio_inv (set_buf i ?b s)"
    using bio_inv_set_buf [OF inv i(1) ok'] nh by simp
  have old: "disk s c = view s c \<and> \<not> dirty s c \<and> \<not> locked s c" if "holds s i c" for c
    using i(2) bio_inv_buf [OF inv i(1)] view_holds [OF inv that] dirty_holds [OF inv that]
      locked_holds [OF inv that] that
    by (auto simp: busy_def buf_ok_def holds_def)
  have "view (set_buf i ?b s) c = view s c" for c
  proof (cases "c = blk")
    case True
    then show ?thesis using view_uncached [OF nh] by (simp add: view_set_buf [OF inv inv' i(1)])
  next
    case False
    then show ?thesis using old [of c] by (simp add: view_set_buf [OF inv inv' i(1)])
  qed
  then have "view (set_buf i ?b s) = view s" by (rule ext)
  moreover have "dirty (set_buf i ?b s) c = dirty s c" for c
    using old [of c] nh \<open>\<not> dirty s blk\<close> by (auto simp: dirty_set_buf [OF inv i(1)])
  then have "dirty (set_buf i ?b s) = dirty s" by (rule ext)
  moreover have "locked (set_buf i ?b s) c = ((locked s)(blk := True)) c" for c
    using old [of c] nh by (auto simp: locked_set_buf [OF inv i(1)])
  then have "locked (set_buf i ?b s) = (locked s)(blk := True)" by (rule ext)
  moreover have "held me (set_buf i ?b s) i blk"
    using i by (simp add: held_def holds_set_buf holdingsleep_def)
  moreover have "held me (set_buf i ?b s) j c" if "held me s j c" for j c
    using that i(2) i(1)
    by (cases "j = i") (auto simp: held_def holds_set_buf holdingsleep_def busy_def)
  moreover note e inv'
  ultimately show ?thesis
    by (intro exI [of _ i] exI [of _ "set_buf i ?b s"] conjI allI impI) (simp_all add: babs_def)
qed

lemma busy_holds:
  assumes "bio_inv s" and "i \<in> busy s"
  shows "holds s i (b_blockno (bufs s i))"
  using assms(2) bio_inv_buf [OF assms(1), of i] by (auto simp: busy_def buf_ok_def holds_def)

lemma s_busy_image:
  assumes "bio_inv s"
  shows "s_busy (babs s) = (\<lambda>i. b_blockno (bufs s i)) ` busy s"
proof (intro set_eqI iffI)
  fix blk
  assume "blk \<in> s_busy (babs s)"
  then obtain i where "holds s i blk" and "is_locked (bufs s i) \<or> b_dirty (bufs s i)"
    by (auto simp: s_busy_def dirty_def locked_def)
  then show "blk \<in> (\<lambda>i. b_blockno (bufs s i)) ` busy s"
    by (auto simp: busy_def holds_def)
next
  fix blk
  assume "blk \<in> (\<lambda>i. b_blockno (bufs s i)) ` busy s"
  then obtain i where i: "i \<in> busy s" "blk = b_blockno (bufs s i)" by blast
  then show "blk \<in> s_busy (babs s)"
    using busy_holds [OF assms i(1)] by (auto simp: s_busy_def dirty_def locked_def busy_def)
qed

lemma card_busy:
  assumes "bio_inv s"
  shows "card (s_busy (babs s)) = card (busy s)"
proof -
  have "inj_on (\<lambda>i. b_blockno (bufs s i)) (busy s)"
  proof (rule inj_onI)
    fix i j
    assume "i \<in> busy s" "j \<in> busy s" "b_blockno (bufs s i) = b_blockno (bufs s j)"
    then show "i = j"
      using busy_holds [OF assms, of i] busy_holds [OF assms, of j] bio_inv_unique [OF assms] by metis
  qed
  then show ?thesis using s_busy_image [OF assms] by (simp add: card_image)
qed

lemma held_upd_same:
  assumes "held me s j c" and "b_dev b = b_dev (bufs s i)" and "b_blockno b = b_blockno (bufs s i)"
    and "b_lock b = b_lock (bufs s i)"
  shows "held me (set_buf i b s) j c"
  using assms by (cases "j = i") (auto simp: held_def holds_def)

lemma held_facts:
  assumes "bio_inv s" and "held me s i blk"
  shows "holds s i blk" "buf_ok s (bufs s i)" "is_locked (bufs s i)"
    "b_dev (bufs s i) = 1" "b_blockno (bufs s i) = blk" "locked s blk" "blk < disksize s"
    "view s blk = b_data (bufs s i)" "dirty s blk = b_dirty (bufs s i)"
    "b_valid (bufs s i)" "b_refcnt (bufs s i) = 1"
proof -
  show h: "holds s i blk" using assms(2) by (rule held_holds)
  show ok: "buf_ok s (bufs s i)" using bio_inv_buf [OF assms(1) holds_range [OF h]] .
  show l: "is_locked (bufs s i)" using assms(2) by (simp add: held_def holdingsleep_def)
  show "b_dev (bufs s i) = 1" "b_blockno (bufs s i) = blk" using h by (simp_all add: holds_def)
  then show "blk < disksize s" "b_valid (bufs s i)" "b_refcnt (bufs s i) = 1"
    using ok l by (auto simp: buf_ok_def)
  show "locked s blk" using locked_holds [OF assms(1) h] l by simp
  show "view s blk = b_data (bufs s i)" using view_holds [OF assms(1) h] .
  show "dirty s blk = b_dirty (bufs s i)" using dirty_holds [OF assms(1) h] .
qed

lemma set_data_contract:
  assumes inv: "bio_inv s" and h: "held me s i blk" and l: "length d = BSIZE"
  shows "bio_inv (set_data i d s)"
    and "babs (set_data i d s) = (babs s)\<lparr>s_view := (view s)(blk := d)\<rparr>"
    and "held me s j c \<Longrightarrow> held me (set_data i d s) j c"
proof -
  note f = held_facts [OF inv h]
  let ?b = "(bufs s i)\<lparr>b_data := d\<rparr>"
  have "buf_ok s ?b" using f l by (simp add: buf_ok_def)
  note upd = same_block_upd [OF inv f(1) this, simplified, OF f(4,5)]
  show "bio_inv (set_data i d s)" using upd(1) by (simp add: set_data_def)
  show "babs (set_data i d s) = (babs s)\<lparr>s_view := (view s)(blk := d)\<rparr>"
    using upd f by (simp add: babs_def set_data_def fun_upd_idem)
  show "held me s j c \<Longrightarrow> held me (set_data i d s) j c"
    unfolding set_data_def by (rule held_upd_same) auto
qed

lemma set_dirty_contract:
  assumes inv: "bio_inv s" and h: "held me s i blk"
  shows "bio_inv (set_dirty i s)"
    and "babs (set_dirty i s) = (babs s)\<lparr>s_dirty := (dirty s)(blk := True)\<rparr>"
    and "held me s j c \<Longrightarrow> held me (set_dirty i s) j c"
proof -
  note f = held_facts [OF inv h]
  let ?b = "(bufs s i)\<lparr>b_dirty := True\<rparr>"
  have "buf_ok s ?b" using f by (simp add: buf_ok_def)
  note upd = same_block_upd [OF inv f(1) this, simplified, OF f(4,5)]
  show "bio_inv (set_dirty i s)" using upd(1) by (simp add: set_dirty_def)
  show "babs (set_dirty i s) = (babs s)\<lparr>s_dirty := (dirty s)(blk := True)\<rparr>"
    using upd f by (simp add: babs_def set_dirty_def fun_upd_idem)
  show "held me s j c \<Longrightarrow> held me (set_dirty i s) j c"
    unfolding set_dirty_def by (rule held_upd_same) auto
qed

text \<open>A sector write of a block that is locked in the cache.\<close>

lemma disk_upd_contract:
  assumes inv: "bio_inv s" and h: "held me s i blk"
    and s': "s' = s\<lparr>disk := (disk s)(blk := view s blk), writes := w\<rparr>"
  shows "bio_inv s'" and "view s' = view s" and "dirty s' = dirty s" and "locked s' = locked s"
    and "held me s' = held me s"
proof -
  note f = held_facts [OF inv h]
  have hs: "holds s' = holds s" by (intro ext) (simp add: s' holds_def)
  have "buf_ok s' (bufs s' j)" if "j < NBUF" for j
  proof (cases "j = i")
    case True
    then show ?thesis using f by (simp add: s' buf_ok_def)
  next
    case False
    then have "\<not> holds s j blk" using bio_inv_unique [OF inv f(1)] by blast
    then show ?thesis
      using bio_inv_buf [OF inv that] that by (auto simp: s' buf_ok_def holds_def)
  qed
  moreover have "\<exists>xs. ring s' xs \<and> set xs = {..<NBUF}"
    using bio_inv_ring [OF inv] by (simp add: s' ring_def)
  moreover have "length (disk s' b) = BSIZE" if "b < disksize s'" for b
    using that bio_inv_disk [OF inv, of b] f by (auto simp: s' buf_ok_def)
  ultimately show inv': "bio_inv s'"
    using bio_inv_unique [OF inv] unfolding bio_inv_def hs by blast
  show "view s' = view s"
  proof (rule ext)
    fix c
    show "view s' c = view s c"
      by (cases "c = blk") (auto simp: view_holds [OF inv' f(1) [folded hs]] f(8) s' view_def split: option.splits)
  qed
  show "dirty s' = dirty s" by (intro ext) (simp add: dirty_def hs, simp add: s')
  show "locked s' = locked s" by (intro ext) (simp add: locked_def hs, simp add: s')
  show "held me s' = held me s"
    by (intro ext) (simp add: held_def hs, simp add: s')
qed

lemma bwrite_contract:
  assumes inv: "bio_inv s" and h: "held me s i blk"
  shows "\<exists>s'. bwrite me i s = Ret () s' \<and> bio_inv s' \<and>
    babs s' = (babs s)\<lparr>s_dirty := (dirty s)(blk := False),
      s_disk := (disk s)(blk := view s blk), s_writes := writes s @ [(blk, view s blk)]\<rparr> \<and>
    (\<forall>j c. held me s j c \<longrightarrow> held me s' j c)"
proof -
  note f = held_facts [OF inv h]
  let ?w = "writes s @ [(blk, view s blk)]"
  let ?s = "s\<lparr>disk := (disk s)(blk := view s blk), writes := ?w\<rparr>"
  let ?b = "(bufs s i)\<lparr>b_dirty := False, b_valid := True\<rparr>"
  note d = disk_upd_contract [OF inv h refl, of ?w]
  have h': "held me ?s i blk" using d(5) h by simp
  note f' = held_facts [OF d(1) h']
  have "buf_ok ?s ?b" using f f' by (simp add: buf_ok_def)
  note upd = same_block_upd [OF d(1) f'(1) this, simplified, OF f(4,5)]
  have "bwrite me i s = Ret () (set_buf i ?b ?s)"
    using h f by (simp add: bwrite_def iderw_def held_def set_buf_def)
  moreover have "babs (set_buf i ?b ?s) = (babs s)\<lparr>s_dirty := (dirty s)(blk := False),
      s_disk := (disk s)(blk := view s blk), s_writes := ?w\<rparr>"
    using upd f d by (simp add: babs_def fun_upd_idem)
  moreover have "held me (set_buf i ?b ?s) j c" if "held me s j c" for j c
    using that d(5) by (intro held_upd_same) auto
  ultimately show ?thesis
    using upd(1) by (intro exI [of _ "set_buf i ?b ?s"] conjI allI impI)
qed

lemma relink_frame [simp]:
  "bufs (link_front i s) = bufs s" "disk (link_front i s) = disk s"
  "disksize (link_front i s) = disksize s" "writes (link_front i s) = writes s"
  "bufs (unlink_buf i s) = bufs s" "disk (unlink_buf i s) = disk s"
  "disksize (unlink_buf i s) = disksize s" "writes (unlink_buf i s) = writes s"
  by (simp_all add: link_front_def unlink_buf_def Let_def)

lemma relink_contract:
  assumes inv: "bio_inv s" and i: "i < NBUF"
  defines "s' \<equiv> link_front i (unlink_buf i s)"
  shows "bio_inv s'" and "babs s' = babs s" and "held me s' = held me s"
proof -
  have hs: "holds s' = holds s" by (intro ext) (simp add: holds_def s'_def)
  obtain xs where xs: "ring s xs" "set xs = {..<NBUF}" using bio_inv_ring [OF inv] by blast
  then obtain as cs where e: "xs = as @ i # cs" using i by (metis lessThan_iff split_list)
  then have "ring (unlink_buf i s) (as @ cs)" and "i \<notin> set (as @ cs)" and "i \<noteq> HEAD"
    using xs ring_unlink by (auto simp: ring_def)
  then have "ring s' (i # as @ cs)" unfolding s'_def by (intro ring_link_front)
  moreover have "set (i # as @ cs) = {..<NBUF}" using xs e by auto
  moreover have "buf_ok s' (bufs s' j)" if "j < NBUF" for j
    using bio_inv_buf [OF inv that] by (auto simp: s'_def buf_ok_def)
  moreover have "length (disk s' b) = BSIZE" if "b < disksize s'" for b
    using bio_inv_disk [OF inv, of b] that by (simp add: s'_def)
  ultimately show "bio_inv s'"
    using bio_inv_unique [OF inv] unfolding bio_inv_def hs by blast
  have fr: "bufs s' = bufs s" "disk s' = disk s" "disksize s' = disksize s" "writes s' = writes s"
    by (simp_all add: s'_def)
  have "view s' = view s" by (rule ext) (simp add: view_def fr split: option.splits)
  moreover have "dirty s' = dirty s" by (rule ext) (simp add: dirty_def hs fr)
  moreover have "locked s' = locked s" by (rule ext) (simp add: locked_def hs fr)
  ultimately show "babs s' = babs s" by (simp add: babs_def fr)
  show "held me s' = held me s" by (intro ext) (simp add: held_def hs, simp add: s'_def)
qed

lemma brelse_contract:
  assumes inv: "bio_inv s" and h: "held me s i blk" and d: "dirty s blk \<or> view s blk = disk s blk"
  shows "\<exists>s'. brelse me i s = Ret () s' \<and> bio_inv s' \<and>
    babs s' = (babs s)\<lparr>s_locked := (locked s)(blk := False)\<rparr> \<and>
    (\<forall>j c. held me s j c \<longrightarrow> j \<noteq> i \<longrightarrow> held me s' j c)"
proof -
  note f = held_facts [OF inv h]
  let ?b = "(bufs s i)\<lparr>b_lock := releasesleep (b_lock (bufs s i)), b_refcnt := 0\<rparr>"
  let ?s = "set_buf i ?b s"
  have "buf_ok s ?b" using f d by (auto simp: buf_ok_def releasesleep_def)
  note upd = same_block_upd [OF inv f(1) this, simplified, OF f(4,5)]
  have i: "i < NBUF" using holds_range [OF f(1)] .
  note re = relink_contract [OF upd(1) i]
  have "brelse me i s = Ret () (link_front i (unlink_buf i ?s))"
    using h f by (simp add: brelse_def held_def set_buf_def Let_def)
  moreover have "babs ?s = (babs s)\<lparr>s_locked := (locked s)(blk := False)\<rparr>"
    using upd f by (simp add: babs_def fun_upd_idem releasesleep_def)
  moreover have "held me ?s j c" if "held me s j c" "j \<noteq> i" for j c
    using that by (rule held_set_buf_other)
  ultimately show ?thesis
    using re by (intro exI [of _ "link_front i (unlink_buf i ?s)"] conjI allI impI) simp_all
qed

subsection \<open>The cache after \<open>binit\<close>\<close>

lemma binit_loop:
  fixes s0
  assumes "ring s0 []" and "\<forall>i. bufs s0 i = zero_buf" and "m \<le> NBUF"
  defines "s \<equiv> fold (\<lambda>b s. link_front b (set_buf b ((bufs s b)\<lparr>b_lock := initsleeplock\<rparr>) s)) [0..<m] s0"
  shows "ring s (rev [0..<m])" and "\<forall>i. bufs s i = zero_buf" and "disk s = disk s0"
    and "disksize s = disksize s0" and "writes s = writes s0"
  using assms(3) unfolding s_def
proof (induction m)
  case 0
  { case 1 show ?case using assms(1) by simp }
  { case 2 show ?case using assms(2) by simp }
qed (auto intro: ring_link_front simp: zero_buf_def)

lemma binit_bss:
  "\<exists>xs. ring (binit (bss_bcache d n)) xs \<and> set xs = {..<NBUF}"
  "bufs (binit (bss_bcache d n)) i = zero_buf" "disk (binit (bss_bcache d n)) = d"
  "disksize (binit (bss_bcache d n)) = n" "writes (binit (bss_bcache d n)) = []"
proof -
  let ?s0 = "(bss_bcache d n)\<lparr>bprev := (bprev (bss_bcache d n))(HEAD := HEAD),
    bnext := (bnext (bss_bcache d n))(HEAD := HEAD)\<rparr>"
  have r: "ring ?s0 []" and z: "\<forall>i. bufs ?s0 i = zero_buf"
    by (simp_all add: ring_def bss_bcache_def)
  note L = binit_loop [OF r z order_refl]
  show "\<exists>xs. ring (binit (bss_bcache d n)) xs \<and> set xs = {..<NBUF}"
    using L(1) unfolding binit_def by (intro exI [of _ "rev [0..<NBUF]"] conjI) auto
  show "bufs (binit (bss_bcache d n)) i = zero_buf" "disk (binit (bss_bcache d n)) = d"
    "disksize (binit (bss_bcache d n)) = n" "writes (binit (bss_bcache d n)) = []"
    using L(2-5) unfolding binit_def by (simp_all add: bss_bcache_def)
qed

lemma binit_holds: "\<not> holds (binit (bss_bcache d n)) i blk"
  by (simp add: holds_def binit_bss zero_buf_def)

lemma binit_ok:
  assumes "\<forall>b<n. length (d b) = BSIZE"
  shows "bio_inv (binit (bss_bcache d n))"
  using assms binit_bss(1) [of d n]
  by (simp add: bio_inv_def binit_holds binit_bss buf_ok_def zero_buf_def sleeplock_defs)

lemma babs_binit:
  "babs (binit (bss_bcache d n)) = \<lparr>s_view = d, s_dirty = (\<lambda>_. False), s_locked = (\<lambda>_. False),
     s_disk = d, s_size = n, s_writes = []\<rparr>"
  by (simp add: babs_def fun_eq_iff dirty_def locked_def binit_holds view_uncached binit_bss)

interpretation bio: block_cache bread bwrite brelse bdata set_data set_dirty bio_inv held babs NBUF
proof unfold_locales
  show "\<exists>i s'. bread me 1 blk s = Ret i s' \<and> bio_inv s' \<and> held me s' i blk \<and>
      babs s' = (babs s)\<lparr>s_locked := (s_locked (babs s))(blk := True)\<rparr> \<and>
      (\<forall>j b. held me s j b \<longrightarrow> held me s' j b)"
    if "bio_inv s" "blk < s_size (babs s)" "\<not> s_locked (babs s) blk"
      "s_dirty (babs s) blk \<or> card (s_busy (babs s)) < NBUF" for s blk me
    using bread_contract [of s blk me] that card_busy [OF that(1)] by simp
  show "\<exists>s'. bwrite me i s = Ret () s' \<and> bio_inv s' \<and>
      babs s' = (babs s)\<lparr>s_dirty := (s_dirty (babs s))(blk := False),
        s_disk := (s_disk (babs s))(blk := s_view (babs s) blk),
        s_writes := s_writes (babs s) @ [(blk, s_view (babs s) blk)]\<rparr> \<and>
      (\<forall>j b. held me s j b \<longrightarrow> held me s' j b)"
    if "bio_inv s" "held me s i blk" for s me i blk
    using bwrite_contract [OF that] by simp
  show "\<exists>s'. brelse me i s = Ret () s' \<and> bio_inv s' \<and>
      babs s' = (babs s)\<lparr>s_locked := (s_locked (babs s))(blk := False)\<rparr> \<and>
      (\<forall>j b. held me s j b \<longrightarrow> j \<noteq> i \<longrightarrow> held me s' j b)"
    if "bio_inv s" "held me s i blk" "s_dirty (babs s) blk \<or> s_view (babs s) blk = s_disk (babs s) blk"
    for s me i blk
    using brelse_contract [OF that(1,2)] that(3) by simp
  show "bdata s i = s_view (babs s) blk" if "bio_inv s" "held me s i blk" for s me i blk
    using held_facts(8) [OF that] by (simp add: bdata_def)
  show "length (s_view (babs s) blk) = BSIZE" if "bio_inv s" "blk < s_size (babs s)" for s blk
  proof (cases "\<exists>i. holds s i blk")
    case True
    then obtain i where "holds s i blk" by blast
    then show ?thesis
      using view_holds [OF that(1), of i] bio_inv_buf [OF that(1), of i] holds_range [of s i]
      by (simp add: buf_ok_def)
  next
    case False
    then show ?thesis using bio_inv_disk [OF that(1)] that(2) by (simp add: view_uncached)
  qed
  show "s_view (babs s) blk = s_disk (babs s) blk"
    if "bio_inv s" "\<not> s_dirty (babs s) blk" "\<not> s_locked (babs s) blk" for s blk
  proof (cases "\<exists>i. holds s i blk")
    case True
    then obtain i where h: "holds s i blk" by blast
    then show ?thesis
      using that view_holds [OF that(1) h] dirty_holds [OF that(1) h] locked_holds [OF that(1) h]
        bio_inv_buf [OF that(1) holds_range [OF h]]
      by (auto simp: buf_ok_def holds_def)
  qed (simp add: view_uncached)
  show "finite (s_busy (babs s))" if "bio_inv s" for s
    using s_busy_image [OF that] by simp
  show "bio_inv (set_data i d s) \<and>
      babs (set_data i d s) = (babs s)\<lparr>s_view := (s_view (babs s))(blk := d)\<rparr> \<and>
      (\<forall>j b. held me s j b \<longrightarrow> held me (set_data i d s) j b)"
    if "bio_inv s" "held me s i blk" "length d = BSIZE" for s me i blk d
    using set_data_contract [OF that] by simp
  show "bio_inv (set_dirty i s) \<and>
      babs (set_dirty i s) = (babs s)\<lparr>s_dirty := (s_dirty (babs s))(blk := True)\<rparr> \<and>
      (\<forall>j b. held me s j b \<longrightarrow> held me (set_dirty i s) j b)"
    if "bio_inv s" "held me s i blk" for s me i blk
    using set_dirty_contract [OF that] by simp
  show "s_locked (babs s) blk \<and> blk < s_size (babs s)"
    if "bio_inv s" "held me s i blk" for s me i blk
    using held_facts(6,7) [OF that] by simp
  show "blk = blk'" if "held me s i blk" "held me s i blk'" for s me i blk blk'
    using that by (simp add: held_def holds_def)
qed

subsection \<open>Properties\<close>

text \<open>
  C14: reading a block of the disk that nobody holds, while a buffer can be recycled or the block is
  pinned, returns a buffer the caller holds, with the current contents of the block; the invariant
  of the cache holds after it (its list is a ring of all buffers, and no two buffers have the same
  block), no block changes its contents, and the disk is not written.
\<close>

theorem bread_returns_block:
  assumes "bio_inv s" and "blk < disksize s" and "\<not> locked s blk"
    and "dirty s blk \<or> card (s_busy (babs s)) < NBUF"
  shows "\<exists>i s'. bread me 1 blk s = Ret i s' \<and> bio_inv s' \<and> i < NBUF \<and>
    holdingsleep me (b_lock (bufs s' i)) \<and> b_blockno (bufs s' i) = blk \<and> b_data (bufs s' i) = view s blk \<and>
    view s' = view s \<and> disk s' = disk s \<and> writes s' = writes s"
proof -
  obtain i s' where 1: "bread me 1 blk s = Ret i s'" "bio_inv s'" "held me s' i blk"
    "babs s' = (babs s)\<lparr>s_locked := (s_locked (babs s))(blk := True)\<rparr>"
    using bio.bread_ok [OF assms(1), of blk me] assms(2-4) by auto
  have v: "view s' = view s" "disk s' = disk s" "writes s' = writes s"
    using 1(4) by (simp_all add: babs_def)
  have "b_data (bufs s' i) = view s blk" using bio.held_data [OF 1(2,3)] by (simp add: bdata_def v)
  then show ?thesis using 1 v by (auto simp: held_def holds_def)
qed

theorem bread_returns_block_witness:
  "\<exists>i s'. bread 1 1 5 (binit (bss_bcache (\<lambda>_. replicate BSIZE 3) 10)) = Ret i s' \<and> i < NBUF \<and>
    b_blockno (bufs s' i) = 5 \<and> b_data (bufs s' i) = replicate BSIZE 3"
proof -
  let ?s = "binit (bss_bcache (\<lambda>_. replicate BSIZE 3) 10)"
  have a: "view ?s = (\<lambda>_. replicate BSIZE 3)" "dirty ?s = (\<lambda>_. False)" "locked ?s = (\<lambda>_. False)"
    using babs_binit [of "\<lambda>_. replicate BSIZE 3" 10] by (simp_all add: babs_def)
  have "bio_inv ?s" by (rule binit_ok) simp
  moreover have "5 < disksize ?s" by (simp add: binit_bss)
  moreover have "card (s_busy (babs ?s)) < NBUF" by (simp add: s_busy_def a NBUF_def)
  ultimately show ?thesis using bread_returns_block [of ?s 5 1] a by auto
qed

end
