(* ===== verification/Logged_Store.thy ===== *)
theory Logged_Store
  imports Block_Cache
begin

text \<open>
  The contract of the log, as the file system relies on it inside a transaction: buffers are read
  and released as in the buffer cache, but updates go through \<open>log_write\<close>. The abstract state
  \<open>tstore\<close> gives the contents callers see, the contents on disk, the blocks of the running
  transaction and the locked ones, the blocks a transaction may contain (\<open>t_home\<close>), the
  number of blocks it may have (\<open>t_slots\<close>), and whether an operation is open.
\<close>

record tstore =
  t_view :: "nat \<Rightarrow> byte list"
  t_disk :: "nat \<Rightarrow> byte list"
  t_log :: "nat set"
  t_locked :: "nat \<Rightarrow> bool"
  t_size :: nat
  t_home :: "nat \<Rightarrow> bool"
  t_slots :: nat
  t_open :: bool

definition t_busy :: "tstore \<Rightarrow> nat set" where
  "t_busy a = t_log a \<union> {b. t_locked a b}"

text \<open>A block changed in the transaction.\<close>

definition t_put :: "nat \<Rightarrow> byte list \<Rightarrow> tstore \<Rightarrow> tstore" where
  "t_put x d a = a\<lparr>t_view := (t_view a)(x := d), t_log := insert x (t_log a)\<rparr>"

lemma t_put_sel [simp]:
  "t_view (t_put x d a) = (t_view a)(x := d)" "t_disk (t_put x d a) = t_disk a"
  "t_log (t_put x d a) = insert x (t_log a)" "t_locked (t_put x d a) = t_locked a"
  "t_size (t_put x d a) = t_size a" "t_home (t_put x d a) = t_home a"
  "t_slots (t_put x d a) = t_slots a" "t_open (t_put x d a) = t_open a"
  by (simp_all add: t_put_def)

locale logged_store =
  fixes bread :: "int \<Rightarrow> nat \<Rightarrow> nat \<Rightarrow> 's \<Rightarrow> (nat, 's) outcome"
    and log_write :: "nat \<Rightarrow> 's \<Rightarrow> (unit, 's) outcome"
    and brelse :: "int \<Rightarrow> nat \<Rightarrow> 's \<Rightarrow> (unit, 's) outcome"
    and bdata :: "'s \<Rightarrow> nat \<Rightarrow> byte list"
    and set_data :: "nat \<Rightarrow> byte list \<Rightarrow> 's \<Rightarrow> 's"
    and inv :: "'s \<Rightarrow> bool"
    and held :: "int \<Rightarrow> 's \<Rightarrow> nat \<Rightarrow> nat \<Rightarrow> bool"
    and abs :: "'s \<Rightarrow> tstore"
    and cap :: nat
  assumes bread_ok:
      "\<lbrakk>inv s; blk < t_size (abs s); \<not> t_locked (abs s) blk;
        blk \<in> t_log (abs s) \<or> card (t_busy (abs s)) < cap\<rbrakk> \<Longrightarrow>
       \<exists>i s'. bread me 1 blk s = Ret i s' \<and> inv s' \<and> held me s' i blk \<and>
         abs s' = (abs s)\<lparr>t_locked := (t_locked (abs s))(blk := True)\<rparr> \<and>
         (\<forall>j b. held me s j b \<longrightarrow> held me s' j b)"
    and set_data_ok:
      "\<lbrakk>inv s; held me s i blk; length d = BSIZE\<rbrakk> \<Longrightarrow>
       inv (set_data i d s) \<and>
       abs (set_data i d s) = (abs s)\<lparr>t_view := (t_view (abs s))(blk := d)\<rparr> \<and>
       (\<forall>j b. held me s j b \<longrightarrow> held me (set_data i d s) j b)"
    and log_write_ok:
      "\<lbrakk>inv s; held me s i blk; t_home (abs s) blk; t_open (abs s);
        card (t_log (abs s)) < t_slots (abs s)\<rbrakk> \<Longrightarrow>
       \<exists>s'. log_write i s = Ret () s' \<and> inv s' \<and>
         abs s' = (abs s)\<lparr>t_log := insert blk (t_log (abs s))\<rparr> \<and>
         (\<forall>j b. held me s j b \<longrightarrow> held me s' j b)"
    and brelse_ok:
      "\<lbrakk>inv s; held me s i blk; blk \<in> t_log (abs s) \<or> t_view (abs s) blk = t_disk (abs s) blk\<rbrakk> \<Longrightarrow>
       \<exists>s'. brelse me i s = Ret () s' \<and> inv s' \<and>
         abs s' = (abs s)\<lparr>t_locked := (t_locked (abs s))(blk := False)\<rparr> \<and>
         (\<forall>j b. held me s j b \<longrightarrow> j \<noteq> i \<longrightarrow> held me s' j b)"
    and held_data: "\<lbrakk>inv s; held me s i blk\<rbrakk> \<Longrightarrow> bdata s i = t_view (abs s) blk"
    and held_locked: "\<lbrakk>inv s; held me s i blk\<rbrakk> \<Longrightarrow> t_locked (abs s) blk \<and> blk < t_size (abs s)"
    and held_inj: "\<lbrakk>inv s; held me s i blk; held me s i blk'\<rbrakk> \<Longrightarrow> blk = blk'"
    and view_length: "\<lbrakk>inv s; blk < t_size (abs s)\<rbrakk> \<Longrightarrow> length (t_view (abs s) blk) = BSIZE"
    and clean_view:
      "\<lbrakk>inv s; blk \<notin> t_log (abs s); \<not> t_locked (abs s) blk\<rbrakk> \<Longrightarrow>
       t_view (abs s) blk = t_disk (abs s) blk"
    and busy_finite: "inv s \<Longrightarrow> finite (t_busy (abs s))"
    and home_size: "inv s \<Longrightarrow> t_home (abs s) blk \<Longrightarrow> blk < t_size (abs s)"
begin

text \<open>Read a block and release it.\<close>

lemma read_block:
  assumes "inv s" and "blk < t_size (abs s)" and "\<not> t_locked (abs s) blk"
    and "blk \<in> t_log (abs s) \<or> card (t_busy (abs s)) < cap"
  obtains i s1 s2 where "bread me 1 blk s = Ret i s1" and "bdata s1 i = t_view (abs s) blk"
    and "brelse me i s1 = Ret () s2" and "inv s2" and "abs s2 = abs s"
    and "\<forall>j b. held me s j b \<longrightarrow> held me s2 j b"
proof -
  obtain i s1 where 1: "bread me 1 blk s = Ret i s1" "inv s1" "held me s1 i blk"
    "abs s1 = (abs s)\<lparr>t_locked := (t_locked (abs s))(blk := True)\<rparr>"
    and h1: "\<forall>j b. held me s j b \<longrightarrow> held me s1 j b"
    using bread_ok [OF assms] by blast
  have c: "blk \<in> t_log (abs s1) \<or> t_view (abs s1) blk = t_disk (abs s1) blk"
    using clean_view [OF assms(1) _ assms(3)] by (auto simp: 1(4))
  obtain s2 where 2: "brelse me i s1 = Ret () s2" "inv s2"
    "abs s2 = (abs s1)\<lparr>t_locked := (t_locked (abs s1))(blk := False)\<rparr>"
    and h2: "\<forall>j b. held me s1 j b \<longrightarrow> j \<noteq> i \<longrightarrow> held me s2 j b"
    using brelse_ok [OF 1(2,3) c] by blast
  have e: "abs s2 = abs s" using assms(3) by (simp add: 1(4) 2(3) fun_upd_idem)
  have d: "bdata s1 i = t_view (abs s) blk" using held_data [OF 1(2,3)] by (simp add: 1(4))
  have h: "held me s2 j b" if "held me s j b" for j b
  proof -
    have k: "held me s1 j b" using h1 that by blast
    have "b \<noteq> blk" using held_locked [OF assms(1) that] assms(3) by auto
    then have "j \<noteq> i" using held_inj [OF 1(2) k] 1(3) by blast
    then show ?thesis using h2 k by blast
  qed
  show ?thesis using that [OF 1(1) d 2(1,2) e] h by blast
qed

text \<open>Change a held block and release it.\<close>

lemma finish_update:
  assumes "inv s" and "held me s i blk" and "t_home (abs s) blk" and "t_open (abs s)"
    and "card (t_log (abs s)) < t_slots (abs s)" and "length d = BSIZE"
  obtains s1 s2 where "log_write i (set_data i d s) = Ret () s1" and "brelse me i s1 = Ret () s2"
    and "inv s2" and "abs s2 = t_put blk d ((abs s)\<lparr>t_locked := (t_locked (abs s))(blk := False)\<rparr>)"
    and "\<forall>j b. held me s j b \<longrightarrow> j \<noteq> i \<longrightarrow> held me s2 j b"
proof -
  note 1 = set_data_ok [OF assms(1,2,6)]
  then have i1: "inv (set_data i d s)" and h1: "held me (set_data i d s) i blk" using assms(2) by blast+
  obtain s2 where 2: "log_write i (set_data i d s) = Ret () s2" "inv s2"
    "abs s2 = (abs (set_data i d s))\<lparr>t_log := insert blk (t_log (abs (set_data i d s)))\<rparr>"
    "\<forall>j b. held me (set_data i d s) j b \<longrightarrow> held me s2 j b"
    using log_write_ok [OF i1 h1] assms(3-5) 1 by auto
  have "held me s2 i blk" using 2(4) h1 by blast
  moreover have "blk \<in> t_log (abs s2)" by (simp add: 2(3))
  ultimately obtain s3 where 3: "brelse me i s2 = Ret () s3" "inv s3"
    "abs s3 = (abs s2)\<lparr>t_locked := (t_locked (abs s2))(blk := False)\<rparr>"
    "\<forall>j b. held me s2 j b \<longrightarrow> j \<noteq> i \<longrightarrow> held me s3 j b"
    using brelse_ok [OF 2(2)] by blast
  have "abs s3 = t_put blk d ((abs s)\<lparr>t_locked := (t_locked (abs s))(blk := False)\<rparr>)"
    using 1 by (simp add: 2(3) 3(3) t_put_def)
  then show ?thesis using that [OF 2(1) 3(1,2)] 1 2(4) 3(4) by blast
qed

text \<open>Read a block, change it and release it.\<close>

lemma update_block:
  assumes "inv s" and "\<not> t_locked (abs s) blk" and "t_home (abs s) blk" and "t_open (abs s)"
    and "blk \<in> t_log (abs s) \<or> card (t_busy (abs s)) < cap"
    and "card (t_log (abs s)) < t_slots (abs s)" and "length d = BSIZE"
  obtains i s1 s2 s3 where "bread me 1 blk s = Ret i s1" and "bdata s1 i = t_view (abs s) blk"
    and "log_write i (set_data i d s1) = Ret () s2" and "brelse me i s2 = Ret () s3"
    and "inv s3" and "abs s3 = t_put blk d (abs s)"
    and "\<forall>j b. held me s j b \<longrightarrow> held me s3 j b"
proof -
  obtain i s1 where 1: "bread me 1 blk s = Ret i s1" "inv s1" "held me s1 i blk"
    "abs s1 = (abs s)\<lparr>t_locked := (t_locked (abs s))(blk := True)\<rparr>"
    and h1: "\<forall>j b. held me s j b \<longrightarrow> held me s1 j b"
    using bread_ok [OF assms(1) home_size [OF assms(1,3)] assms(2,5)] by blast
  have pre: "t_home (abs s1) blk" "t_open (abs s1)" "card (t_log (abs s1)) < t_slots (abs s1)"
    using assms by (simp_all add: 1(4))
  obtain s2 s3 where 2: "log_write i (set_data i d s1) = Ret () s2" "brelse me i s2 = Ret () s3" "inv s3"
    "abs s3 = t_put blk d ((abs s1)\<lparr>t_locked := (t_locked (abs s1))(blk := False)\<rparr>)"
    and h2: "\<forall>j b. held me s1 j b \<longrightarrow> j \<noteq> i \<longrightarrow> held me s3 j b"
    by (rule finish_update [OF 1(2,3) pre assms(7)])
  have e: "abs s3 = t_put blk d (abs s)" using assms(2) by (simp add: 1(4) 2(4) fun_upd_idem)
  have d: "bdata s1 i = t_view (abs s) blk" using held_data [OF 1(2,3)] by (simp add: 1(4))
  have h: "held me s3 j b" if "held me s j b" for j b
  proof -
    have k: "held me s1 j b" using h1 that by blast
    have "b \<noteq> blk" using held_locked [OF assms(1) that] assms(2) by auto
    then have "j \<noteq> i" using held_inj [OF 1(2) k] 1(3) by blast
    then show ?thesis using h2 k by blast
  qed
  show ?thesis using that [OF 1(1) d 2(1,2,3) e] h by blast
qed

end

end
