(* ===== verification/Log.thy ===== *)
theory Log
  imports Bio Logged_Store
begin

text \<open>
  The write-ahead log (\<open>src/xv6/log.c\<close>) over the buffer cache, and the reading of the
  super block (\<open>readsb\<close> of \<open>src/xv6/fs.c\<close>) that its initialisation calls. The record
  \<open>log\<close> is \<open>struct log\<close> with the in-memory header \<open>lh\<close> as two fields;
  \<open>log.lock\<close> makes the updates of the counters atomic. The header block on disk is bytes:
  the count at offset 0, the block numbers from offset 4.
\<close>

definition MAXOPBLOCKS :: int where "MAXOPBLOCKS = 10"
definition LOGSIZE :: int where "LOGSIZE = MAXOPBLOCKS * 3"

record superblock =
  sb_size :: nat
  sb_nblocks :: nat
  sb_ninodes :: nat
  sb_nlog :: nat
  sb_logstart :: nat
  sb_inodestart :: nat
  sb_bmapstart :: nat

definition decode_sb :: "byte list \<Rightarrow> superblock" where
  "decode_sb d = \<lparr>sb_size = unat (get32 d 0), sb_nblocks = unat (get32 d 4),
     sb_ninodes = unat (get32 d 8), sb_nlog = unat (get32 d 12), sb_logstart = unat (get32 d 16),
     sb_inodestart = unat (get32 d 20), sb_bmapstart = unat (get32 d 24)\<rparr>"

definition readsb :: "int \<Rightarrow> nat \<Rightarrow> bcache \<Rightarrow> (superblock, bcache) outcome" where
  "readsb me dev b =
     obind (bread me dev 1 b) (\<lambda>bp b.
     obind (brelse me bp b) (\<lambda>_ b'. Ret (decode_sb (bdata b bp)) b'))"

record log =
  l_start :: nat
  l_size :: nat
  l_outstanding :: int
  l_committing :: bool
  l_dev :: nat
  lh_n :: int
  lh_block :: "nat \<Rightarrow> nat"

record lstate =
  lg :: log
  bc :: bcache

text \<open>Calling a routine of the buffer cache.\<close>

definition on_bc :: "(bcache \<Rightarrow> ('a, bcache) outcome) \<Rightarrow> lstate \<Rightarrow> ('a, lstate) outcome" where
  "on_bc f s = olift (\<lambda>b. s\<lparr>bc := b\<rparr>) (f (bc s))"

subsection \<open>Copying to and from the log\<close>

text \<open>The bodies of the two copying loops.\<close>

definition install_block :: "int \<Rightarrow> nat \<Rightarrow> nat \<Rightarrow> (nat \<Rightarrow> nat) \<Rightarrow> nat \<Rightarrow> bcache \<Rightarrow> (unit, bcache) outcome" where
  "install_block me dev start block tail b =
     obind (bread me dev (start + tail + 1) b) (\<lambda>lbuf b.
     obind (bread me dev (block tail) b) (\<lambda>dbuf b.
     obind (bwrite me dbuf (set_data dbuf (bdata b lbuf) b)) (\<lambda>_ b.
     obind (brelse me lbuf b) (\<lambda>_ b. brelse me dbuf b))))"

definition install_trans :: "int \<Rightarrow> lstate \<Rightarrow> (unit, lstate) outcome" where
  "install_trans me s =
     on_bc (ofor [0..<nat (lh_n (lg s))]
       (install_block me (l_dev (lg s)) (l_start (lg s)) (lh_block (lg s)))) s"

definition write_log_block :: "int \<Rightarrow> nat \<Rightarrow> nat \<Rightarrow> (nat \<Rightarrow> nat) \<Rightarrow> nat \<Rightarrow> bcache \<Rightarrow> (unit, bcache) outcome" where
  "write_log_block me dev start block tail b =
     obind (bread me dev (start + tail + 1) b) (\<lambda>to b.
     obind (bread me dev (block tail) b) (\<lambda>from b.
     obind (bwrite me to (set_data to (bdata b from) b)) (\<lambda>_ b.
     obind (brelse me from b) (\<lambda>_ b. brelse me to b))))"

definition write_log :: "int \<Rightarrow> lstate \<Rightarrow> (unit, lstate) outcome" where
  "write_log me s =
     on_bc (ofor [0..<nat (lh_n (lg s))]
       (write_log_block me (l_dev (lg s)) (l_start (lg s)) (lh_block (lg s)))) s"

subsection \<open>The header block\<close>

definition read_head :: "int \<Rightarrow> lstate \<Rightarrow> (unit, lstate) outcome" where
  "read_head me s =
     obind (on_bc (bread me (l_dev (lg s)) (l_start (lg s))) s) (\<lambda>buf s.
       let d = bdata (bc s) buf;
           n = sint (get32 d 0);
           l = (lg s)\<lparr>lh_n := n,
                 lh_block := (\<lambda>i. if int i < n then unat (get32 d (4 + 4 * i)) else lh_block (lg s) i)\<rparr>
       in on_bc (brelse me buf) (s\<lparr>lg := l\<rparr>))"

definition put_head :: "int \<Rightarrow> (nat \<Rightarrow> nat) \<Rightarrow> byte list \<Rightarrow> byte list" where
  "put_head n block d =
     fold (\<lambda>i d. put32 d (4 + 4 * i) (of_nat (block i))) [0..<nat n] (put32 d 0 (word_of_int n))"

definition write_head :: "int \<Rightarrow> lstate \<Rightarrow> (unit, lstate) outcome" where
  "write_head me s =
     on_bc (\<lambda>b. obind (bread me (l_dev (lg s)) (l_start (lg s)) b) (\<lambda>buf b.
       obind (bwrite me buf (set_data buf (put_head (lh_n (lg s)) (lh_block (lg s)) (bdata b buf)) b))
         (\<lambda>_ b. brelse me buf b))) s"

definition recover_from_log :: "int \<Rightarrow> lstate \<Rightarrow> (unit, lstate) outcome" where
  "recover_from_log me s =
     obind (read_head me s) (\<lambda>_ s.
     obind (install_trans me s) (\<lambda>_ s.
     write_head me (s\<lparr>lg := (lg s)\<lparr>lh_n := 0\<rparr>\<rparr>)))"

definition initlog :: "int \<Rightarrow> nat \<Rightarrow> lstate \<Rightarrow> (unit, lstate) outcome" where
  "initlog me dev s =
     (if int BSIZE \<le> 4 + 4 * LOGSIZE then Panic ''initlog: too big logheader''
      else obind (on_bc (readsb me dev) s) (\<lambda>sb s.
        recover_from_log me (s\<lparr>lg := (lg s)\<lparr>l_start := sb_logstart sb, l_size := sb_nlog sb,
          l_dev := dev\<rparr>\<rparr>)))"

subsection \<open>Transactions\<close>

text \<open>One pass of the loop of \<open>begin_op\<close>; after a wake-up it starts again.\<close>

definition begin_op :: "lstate \<Rightarrow> (unit, lstate) outcome" where
  "begin_op s =
     (if l_committing (lg s) then Sleep LogChan s
      else if LOGSIZE < lh_n (lg s) + (l_outstanding (lg s) + 1) * MAXOPBLOCKS then Sleep LogChan s
      else Ret () (s\<lparr>lg := (lg s)\<lparr>l_outstanding := l_outstanding (lg s) + 1\<rparr>\<rparr>))"

definition commit :: "int \<Rightarrow> lstate \<Rightarrow> (unit, lstate) outcome" where
  "commit me s =
     (if 0 < lh_n (lg s) then
        obind (write_log me s) (\<lambda>_ s.
        obind (write_head me s) (\<lambda>_ s.
        obind (install_trans me s) (\<lambda>_ s.
        write_head me (s\<lparr>lg := (lg s)\<lparr>lh_n := 0\<rparr>\<rparr>))))
      else Ret () s)"

text \<open>\<open>wakeup(&log)\<close> makes the sleepers runnable and does not touch this state.\<close>

definition end_op :: "int \<Rightarrow> lstate \<Rightarrow> (unit, lstate) outcome" where
  "end_op me s =
     (let s = s\<lparr>lg := (lg s)\<lparr>l_outstanding := l_outstanding (lg s) - 1\<rparr>\<rparr> in
      if l_committing (lg s) then Panic ''log.committing''
      else if l_outstanding (lg s) = 0 then
        obind (commit me (s\<lparr>lg := (lg s)\<lparr>l_committing := True\<rparr>\<rparr>)) (\<lambda>_ s.
          Ret () (s\<lparr>lg := (lg s)\<lparr>l_committing := False\<rparr>\<rparr>))
      else Ret () s)"

text \<open>The index at which the search loop of \<open>log_write\<close> stops.\<close>

definition log_slot :: "log \<Rightarrow> nat \<Rightarrow> nat" where
  "log_slot l blockno = length (takeWhile (\<lambda>i. lh_block l i \<noteq> blockno) [0..<nat (lh_n l)])"

definition log_write :: "nat \<Rightarrow> lstate \<Rightarrow> (unit, lstate) outcome" where
  "log_write b s =
     (let l = lg s in
      if LOGSIZE \<le> lh_n l \<or> int (l_size l) - 1 \<le> lh_n l then Panic ''too big a transaction''
      else if l_outstanding l < 1 then Panic ''log_write outside of trans''
      else
        let blockno = b_blockno (bufs (bc s) b);
            i = log_slot l blockno;
            l = l\<lparr>lh_block := (lh_block l)(i := blockno)\<rparr>;
            l = (if int i = lh_n l then l\<lparr>lh_n := lh_n l + 1\<rparr> else l)
        in Ret () (s\<lparr>lg := l, bc := set_dirty b (bc s)\<rparr>))"

subsection \<open>Several blocks written through\<close>

definition put_blocks :: "(nat \<times> byte list) list \<Rightarrow> bstore \<Rightarrow> bstore" where
  "put_blocks ws a = fold (\<lambda>(x, d). put_block x d) ws a"

lemma put_blocks_Nil [simp]: "put_blocks [] a = a"
  by (simp add: put_blocks_def)

lemma put_blocks_Cons: "put_blocks ((x, d) # ws) a = put_blocks ws (put_block x d a)"
  by (simp add: put_blocks_def)

lemma put_blocks_append: "put_blocks (ws @ vs) a = put_blocks vs (put_blocks ws a)"
  by (simp add: put_blocks_def)

lemma put_blocks_sel [simp]:
  "s_view (put_blocks ws a) = replay (s_view a) ws" "s_disk (put_blocks ws a) = replay (s_disk a) ws"
  "s_locked (put_blocks ws a) = s_locked a"
  "s_size (put_blocks ws a) = s_size a" "s_writes (put_blocks ws a) = s_writes a @ ws"
  by (induction ws arbitrary: a) (auto simp: put_blocks_Cons)

lemma put_blocks_dirty [simp]:
  "s_dirty (put_blocks ws a) b \<longleftrightarrow> s_dirty a b \<and> b \<notin> fst ` set ws"
  by (induction ws arbitrary: a) (simp_all add: put_blocks_def split: prod.splits)

text \<open>
  The two loops of the log. Nothing is locked, and every pinned block is a source (\<open>write_log\<close>)
  or a target (\<open>install_trans\<close>) or neither, but at least one buffer can be recycled.
\<close>

lemma write_log_loop:
  assumes "bio_inv s" and "\<forall>b. \<not> s_locked (babs s) b" and "card (s_busy (babs s)) < NBUF"
    and "\<forall>t\<in>set ts. start + t + 1 < s_size (babs s) \<and> block t < s_size (babs s) \<and>
      s_dirty (babs s) (block t) \<and> \<not> s_dirty (babs s) (start + t + 1)"
  shows "\<exists>s'. ofor ts (write_log_block me 1 start block) s = Ret () s' \<and> bio_inv s' \<and>
    babs s' = put_blocks (map (\<lambda>t. (start + t + 1, s_view (babs s) (block t))) ts) (babs s)"
  using assms
proof (induction ts arbitrary: s)
  case (Cons t ts)
  let ?x = "start + t + 1" and ?y = "block t"
  have ne: "?x \<noteq> ?y" using Cons.prems(4) by (auto dest: bspec [of _ _ t])
  obtain s1 where 1: "write_log_block me 1 start block t s = Ret () s1" "bio_inv s1"
    "babs s1 = put_block ?x (s_view (babs s) ?y) (babs s)"
    using bio.copy_into_first [OF Cons.prems(1) _ _ ne, of me] Cons.prems(2-4)
    unfolding write_log_block_def by fastforce
  have "card (s_busy (babs s1)) \<le> card (s_busy (babs s))"
    unfolding 1(3) by (intro card_mono s_busy_put_block bio.busy_finite Cons.prems(1))
  then have "card (s_busy (babs s1)) < NBUF" using Cons.prems(3) by simp
  moreover have "\<forall>t'\<in>set ts. start + t' + 1 < s_size (babs s1) \<and> block t' < s_size (babs s1) \<and>
      s_dirty (babs s1) (block t') \<and> \<not> s_dirty (babs s1) (start + t' + 1)"
    using Cons.prems(4) unfolding 1(3) by (auto simp del: babs_sel)
  moreover have "\<forall>b. \<not> s_locked (babs s1) b" using Cons.prems(2) by (simp add: 1(3))
  ultimately obtain s2 where 2: "ofor ts (write_log_block me 1 start block) s1 = Ret () s2" "bio_inv s2"
    "babs s2 = put_blocks (map (\<lambda>t. (start + t + 1, s_view (babs s1) (block t))) ts) (babs s1)"
    using Cons.IH [OF 1(2)] by blast
  have "map (\<lambda>t. (start + t + 1, s_view (babs s1) (block t))) ts =
      map (\<lambda>t. (start + t + 1, s_view (babs s) (block t))) ts"
    using Cons.prems(4) by (auto simp: 1(3))
  then have "babs s2 = put_blocks (map (\<lambda>t. (start + t + 1, s_view (babs s) (block t))) (t # ts)) (babs s)"
    unfolding 2(3) by (simp only: list.map put_blocks_Cons 1(3))
  then show ?case using 1(1) 2(1,2) by simp
qed simp

lemma install_loop:
  assumes "bio_inv s" and "\<forall>b. \<not> s_locked (babs s) b" and "card (s_busy (babs s)) < NBUF"
    and "\<forall>t\<in>set ts. start + t + 1 < s_size (babs s) \<and> block t < s_size (babs s) \<and>
      (s_dirty (babs s) (block t) \<or> card (s_busy (babs s)) + 1 < NBUF)"
    and "\<forall>t\<in>set ts. \<forall>t'\<in>set ts. block t \<noteq> start + t' + 1" and "inj_on block (set ts)" and "distinct ts"
  shows "\<exists>s'. ofor ts (install_block me 1 start block) s = Ret () s' \<and> bio_inv s' \<and>
    babs s' = put_blocks (map (\<lambda>t. (block t, s_view (babs s) (start + t + 1))) ts) (babs s)"
  using assms
proof (induction ts arbitrary: s)
  case (Cons t ts)
  let ?x = "start + t + 1" and ?y = "block t"
  have ne: "?x \<noteq> ?y" using Cons.prems(5) by fastforce
  obtain s1 where 1: "install_block me 1 start block t s = Ret () s1" "bio_inv s1"
    "babs s1 = put_block ?y (s_view (babs s) ?x) (babs s)"
    using bio.copy_into_second [OF Cons.prems(1) _ _ ne, of me] Cons.prems(2-4)
    unfolding install_block_def by fastforce
  have c: "card (s_busy (babs s1)) \<le> card (s_busy (babs s))"
    unfolding 1(3) by (intro card_mono s_busy_put_block bio.busy_finite Cons.prems(1))
  then have "card (s_busy (babs s1)) < NBUF" using Cons.prems(3) by simp
  moreover have "\<forall>t'\<in>set ts. start + t' + 1 < s_size (babs s1) \<and> block t' < s_size (babs s1) \<and>
      (s_dirty (babs s1) (block t') \<or> card (s_busy (babs s1)) + 1 < NBUF)"
  proof
    fix t' assume t': "t' \<in> set ts"
    then have "block t' \<noteq> block t" using Cons.prems(6,7) by (auto simp: image_iff)
    then show "start + t' + 1 < s_size (babs s1) \<and> block t' < s_size (babs s1) \<and>
      (s_dirty (babs s1) (block t') \<or> card (s_busy (babs s1)) + 1 < NBUF)"
      using Cons.prems(4) t' c unfolding 1(3) by fastforce
  qed
  moreover have "\<forall>b. \<not> s_locked (babs s1) b" using Cons.prems(2) by (simp add: 1(3))
  ultimately obtain s2 where 2: "ofor ts (install_block me 1 start block) s1 = Ret () s2" "bio_inv s2"
    "babs s2 = put_blocks (map (\<lambda>t. (block t, s_view (babs s1) (start + t + 1))) ts) (babs s1)"
    using Cons.IH [OF 1(2)] Cons.prems(5-7) by auto
  have "map (\<lambda>t. (block t, s_view (babs s1) (start + t + 1))) ts =
      map (\<lambda>t. (block t, s_view (babs s) (start + t + 1))) ts"
    using Cons.prems(5) unfolding 1(3) by fastforce
  then have "babs s2 = put_blocks (map (\<lambda>t. (block t, s_view (babs s) (start + t + 1))) (t # ts)) (babs s)"
    unfolding 2(3) by (simp only: list.map put_blocks_Cons 1(3))
  then show ?case using 1(1) 2(1,2) by simp
qed simp

subsection \<open>The bytes of the header\<close>

definition head_n :: "byte list \<Rightarrow> int" where
  "head_n d = sint (get32 d 0)"

definition head_block :: "byte list \<Rightarrow> nat \<Rightarrow> nat" where
  "head_block d i = unat (get32 d (4 + 4 * i))"

lemma put_head_loop:
  fixes f :: "nat \<Rightarrow> u32"
  assumes "4 + 4 * m \<le> length d"
  defines "e \<equiv> fold (\<lambda>i d. put32 d (4 + 4 * i) (f i)) [0..<m] d"
  shows "length e = length d" and "get32 e 0 = get32 d 0" and "\<forall>i<m. get32 e (4 + 4 * i) = f i"
  using assms(1) unfolding e_def
proof (induction m)
  case (Suc m)
  { case 2 then show ?case using Suc by (simp add: get32_put32_other) }
  { case 3
    show ?case
    proof (intro allI impI)
      fix i assume "i < Suc m"
      with 3 Suc show "get32 (fold (\<lambda>i d. put32 d (4 + 4 * i) (f i)) [0..<Suc m] d) (4 + 4 * i) = f i"
        by (cases "i = m") (simp_all add: get32_put32_other)
    qed }
qed simp_all

lemma LOGSIZE_BSIZE: "n \<le> LOGSIZE \<Longrightarrow> 4 + 4 * nat n \<le> BSIZE"
  by (simp add: LOGSIZE_def MAXOPBLOCKS_def BSIZE_def)

lemma put_head_ok:
  assumes "length d = BSIZE" and "0 \<le> n" and "n \<le> LOGSIZE"
  shows "length (put_head n block d) = BSIZE" and "head_n (put_head n block d) = n"
    and "i < nat n \<Longrightarrow> block i < 2 ^ 32 \<Longrightarrow> head_block (put_head n block d) i = block i"
proof -
  let ?d0 = "put32 d 0 (word_of_int n)"
  have l0: "length ?d0 = BSIZE" using assms(1) by (simp add: BSIZE_def)
  note L = put_head_loop [of "nat n" ?d0 "\<lambda>i. of_nat (block i)"]
  have b: "4 + 4 * nat n \<le> length ?d0" using LOGSIZE_BSIZE [OF assms(3)] l0 by simp
  show "length (put_head n block d) = BSIZE" using L(1) [OF b] l0 by (simp add: put_head_def)
  have "get32 ?d0 0 = word_of_int n" using assms(1) by (simp add: BSIZE_def)
  moreover have "sint (word_of_int n :: u32) = n"
    using assms(2,3) by (simp add: int_word_sint LOGSIZE_def MAXOPBLOCKS_def
        mod_pos_pos_trivial)
  ultimately show "head_n (put_head n block d) = n"
    using L(2) [OF b] by (simp add: put_head_def head_n_def)
  show "head_block (put_head n block d) i = block i" if "i < nat n" "block i < 2 ^ 32"
    using L(3) [OF b] that by (simp add: put_head_def head_block_def unat_of_nat take_bit_nat_eq_self)
qed

lemma put_head_0: "put_head 0 block d = put_head 0 block' d"
  by (simp add: put_head_def)

subsection \<open>What recovery does to a disk\<close>

text \<open>
  The blocks a transaction may contain: on the disk, not the super block, not of the log region
  \<open>[st, st + sz)\<close>. A disk of \<open>N\<close> blocks is \<open>log_ok\<close> when its super block describes that
  region and the header in block \<open>st\<close> lists distinct such blocks.
\<close>

definition home :: "nat \<Rightarrow> nat \<Rightarrow> nat \<Rightarrow> nat \<Rightarrow> bool" where
  "home N st sz b \<longleftrightarrow> b < N \<and> b \<noteq> 1 \<and> (b < st \<or> st + sz \<le> b)"

definition geometry :: "nat \<Rightarrow> nat \<Rightarrow> nat \<Rightarrow> bool" where
  "geometry N st sz \<longleftrightarrow> 1 < st \<and> 0 < sz \<and> sz \<le> NBUF \<and> st + sz \<le> N \<and> N \<le> 2 ^ 31"

definition sb_ok :: "(nat \<Rightarrow> byte list) \<Rightarrow> nat \<Rightarrow> nat \<Rightarrow> nat \<Rightarrow> bool" where
  "sb_ok d N st sz \<longleftrightarrow> (\<forall>b<N. length (d b) = BSIZE) \<and> geometry N st sz \<and>
     sb_logstart (decode_sb (d 1)) = st \<and> sb_nlog (decode_sb (d 1)) = sz"

definition log_ok :: "(nat \<Rightarrow> byte list) \<Rightarrow> nat \<Rightarrow> nat \<Rightarrow> nat \<Rightarrow> bool" where
  "log_ok d N st sz \<longleftrightarrow> sb_ok d N st sz \<and> 0 \<le> head_n (d st) \<and> head_n (d st) < int sz \<and>
     inj_on (head_block (d st)) {..<nat (head_n (d st))} \<and>
     (\<forall>t<nat (head_n (d st)). home N st sz (head_block (d st) t))"

definition install_writes :: "(nat \<Rightarrow> byte list) \<Rightarrow> nat \<Rightarrow> (nat \<times> byte list) list" where
  "install_writes d st = map (\<lambda>t. (head_block (d st) t, d (st + t + 1))) [0..<nat (head_n (d st))]"

definition recovery_writes :: "(nat \<Rightarrow> byte list) \<Rightarrow> nat \<Rightarrow> (nat \<times> byte list) list" where
  "recovery_writes d st = install_writes d st @ [(st, put_head 0 (\<lambda>_. 0) (d st))]"

text \<open>The machine after a reset: the disk survives, the memory does not.\<close>

definition zero_log :: log where
  "zero_log = \<lparr>l_start = 0, l_size = 0, l_outstanding = 0, l_committing = False, l_dev = 0,
     lh_n = 0, lh_block = (\<lambda>_. 0)\<rparr>"

definition reset :: "(nat \<Rightarrow> byte list) \<Rightarrow> nat \<Rightarrow> lstate" where
  "reset d N = \<lparr>lg = zero_log, bc = binit (bss_bcache d N)\<rparr>"

lemma on_bc_Ret [simp]: "f (bc s) = Ret r b \<Longrightarrow> on_bc f s = Ret r (s\<lparr>bc := b\<rparr>)"
  by (simp add: on_bc_def)

lemma write_head_ok:
  assumes "bio_inv (bc s)" and "\<not> locked (bc s) (l_start (lg s))" and "card (s_busy (babs (bc s))) < NBUF"
    and "l_dev (lg s) = 1" and "l_start (lg s) < disksize (bc s)"
    and "0 \<le> lh_n (lg s)" and "lh_n (lg s) \<le> LOGSIZE"
  shows "\<exists>b. write_head me s = Ret () (s\<lparr>bc := b\<rparr>) \<and> bio_inv b \<and>
    babs b = put_block (l_start (lg s))
      (put_head (lh_n (lg s)) (lh_block (lg s)) (view (bc s) (l_start (lg s)))) (babs (bc s))"
proof -
  let ?st = "l_start (lg s)" and ?g = "put_head (lh_n (lg s)) (lh_block (lg s))"
  have l: "length (?g (s_view (babs (bc s)) ?st)) = BSIZE"
    using put_head_ok(1) [OF _ assms(6,7)] bio.view_length [OF assms(1)] assms(5) by simp
  have "\<exists>b. obind (bread me 1 ?st (bc s)) (\<lambda>i b. obind (bwrite me i (set_data i (?g (bdata b i)) b))
      (\<lambda>_ b. brelse me i b)) = Ret () b \<and> bio_inv b \<and>
      babs b = put_block ?st (?g (s_view (babs (bc s)) ?st)) (babs (bc s))"
    using assms by (intro bio.write_block l) simp_all
  then show ?thesis
    unfolding write_head_def assms(4) by (auto simp: on_bc_def)
qed

lemma read_head_ok:
  assumes "bio_inv (bc s)" and "\<not> locked (bc s) (l_start (lg s))" and "card (s_busy (babs (bc s))) < NBUF"
    and "l_dev (lg s) = 1" and "l_start (lg s) < disksize (bc s)"
  defines "d \<equiv> view (bc s) (l_start (lg s))"
  shows "\<exists>b blk. read_head me s = Ret () (s\<lparr>lg := (lg s)\<lparr>lh_n := head_n d, lh_block := blk\<rparr>, bc := b\<rparr>) \<and>
    bio_inv b \<and> babs b = babs (bc s) \<and> (\<forall>i<nat (head_n d). blk i = head_block d i)"
proof -
  let ?st = "l_start (lg s)"
  obtain i b1 where 1: "bread me 1 ?st (bc s) = Ret i b1" "bio_inv b1" "held me b1 i ?st"
    "babs b1 = (babs (bc s))\<lparr>s_locked := (s_locked (babs (bc s)))(?st := True)\<rparr>"
    using bio.bread_ok [OF assms(1), of ?st me] assms(2,3,5) by auto
  have d: "bdata b1 i = d" using bio.held_data [OF 1(2,3)] unfolding 1(4) d_def by simp
  have "s_dirty (babs b1) ?st \<or> s_view (babs b1) ?st = s_disk (babs b1) ?st"
    using bio.clean_view [OF assms(1), of ?st] assms(2) unfolding 1(4) by auto
  then obtain b2 where 2: "brelse me i b1 = Ret () b2" "bio_inv b2"
    "babs b2 = (babs b1)\<lparr>s_locked := (s_locked (babs b1))(?st := False)\<rparr>"
    using bio.brelse_ok [OF 1(2,3)] by blast
  have "babs b2 = babs (bc s)" using assms(2) unfolding 2(3) 1(4) by (simp add: fun_upd_idem)
  then show ?thesis
    using 1(1) 2(1,2) assms(4) d unfolding read_head_def
    by (intro exI [of _ b2] exI [of _ "\<lambda>k. if int k < head_n d then head_block d k else lh_block (lg s) k"])
      (auto simp: Let_def head_n_def head_block_def fun_eq_iff)
qed

lemma install_trans_ok:
  assumes "bio_inv (bc s)" and "\<forall>b. \<not> locked (bc s) b" and "card (s_busy (babs (bc s))) < NBUF"
    and "l_dev (lg s) = 1" and "st = l_start (lg s)" and "lh_n (lg s) < int sz"
    and "st + sz \<le> disksize (bc s)" and "m = nat (lh_n (lg s))"
    and "\<forall>t<m. home (disksize (bc s)) st sz (lh_block (lg s) t) \<and>
      (dirty (bc s) (lh_block (lg s) t) \<or> card (s_busy (babs (bc s))) + 1 < NBUF)"
    and "inj_on (lh_block (lg s)) {..<m}"
  shows "\<exists>b. install_trans me s = Ret () (s\<lparr>bc := b\<rparr>) \<and> bio_inv b \<and>
    babs b = put_blocks (map (\<lambda>t. (lh_block (lg s) t, view (bc s) (st + t + 1))) [0..<m]) (babs (bc s))"
proof -
  have "\<exists>b. ofor [0..<m] (install_block me 1 st (lh_block (lg s))) (bc s) = Ret () b \<and> bio_inv b \<and>
    babs b = put_blocks (map (\<lambda>t. (lh_block (lg s) t, s_view (babs (bc s)) (st + t + 1))) [0..<m]) (babs (bc s))"
    using assms by (intro install_loop) (auto simp: home_def atLeast0LessThan)
  then show ?thesis
    using assms(4,5,8) unfolding install_trans_def by (auto simp: on_bc_def)
qed

lemma recover_from_log_ok:
  assumes "bio_inv (bc s)" and "\<forall>b. \<not> locked (bc s) b \<and> \<not> dirty (bc s) b"
    and "l_dev (lg s) = 1" and "l_start (lg s) = st"
    and "log_ok (disk (bc s)) (disksize (bc s)) st sz"
  shows "\<exists>b blk. recover_from_log me s = Ret () (s\<lparr>lg := (lg s)\<lparr>lh_block := blk, lh_n := 0\<rparr>, bc := b\<rparr>) \<and>
    bio_inv b \<and> babs b = put_blocks (recovery_writes (disk (bc s)) st) (babs (bc s))"
proof -
  let ?d = "disk (bc s)" and ?N = "disksize (bc s)"
  have clean: "view (bc s) b = ?d b" for b using bio.clean_view [OF assms(1)] assms(2) by auto
  have nb: "s_busy (babs (bc s)) = {}" using assms(2) by (auto simp: s_busy_def)
  have NB: "1 < NBUF" by (simp add: NBUF_def)
  have g: "st < ?N" "head_n (?d st) < int sz" "0 \<le> head_n (?d st)" "st + sz \<le> ?N"
    using assms(5) by (auto simp: log_ok_def sb_ok_def geometry_def)
  obtain b1 blk where 1: "read_head me s = Ret () (s\<lparr>lg := (lg s)\<lparr>lh_n := head_n (?d st), lh_block := blk\<rparr>, bc := b1\<rparr>)"
    "bio_inv b1" "babs b1 = babs (bc s)" "\<forall>i<nat (head_n (?d st)). blk i = head_block (?d st) i"
    using read_head_ok [OF assms(1), of me] assms(2-4) nb NB g(1) by (auto simp: clean)
  let ?s1 = "s\<lparr>lg := (lg s)\<lparr>lh_n := head_n (?d st), lh_block := blk\<rparr>, bc := b1\<rparr>"
  have v1: "view b1 = view (bc s)" "disksize b1 = ?N" "locked b1 = locked (bc s)" "dirty b1 = dirty (bc s)"
    using 1(3) by (metis babs_sel)+
  have "inj_on blk {..<nat (head_n (?d st))}"
    using assms(5) 1(4) inj_on_cong [of "{..<nat (head_n (?d st))}" blk "head_block (?d st)"]
    by (simp add: log_ok_def)
  moreover have "\<forall>t<nat (head_n (?d st)). home ?N st sz (blk t)"
    using assms(5) 1(4) by (simp add: log_ok_def)
  ultimately have "\<exists>b2. install_trans me ?s1 = Ret () (?s1\<lparr>bc := b2\<rparr>) \<and> bio_inv b2 \<and>
    babs b2 = put_blocks (map (\<lambda>t. (lh_block (lg ?s1) t, view (bc ?s1) (st + t + 1))) [0..<nat (head_n (?d st))]) (babs (bc ?s1))"
    using 1 v1 assms(2-4) g nb NB by (intro install_trans_ok [where sz = sz]) auto
  moreover have "map (\<lambda>t. (lh_block (lg ?s1) t, view (bc ?s1) (st + t + 1))) [0..<nat (head_n (?d st))] = install_writes ?d st"
    using 1(4) by (simp add: install_writes_def v1 clean)
  ultimately obtain b2 where 2: "install_trans me ?s1 = Ret () (?s1\<lparr>bc := b2\<rparr>)" "bio_inv b2"
    "babs b2 = put_blocks (install_writes ?d st) (babs (bc s))"
    by (auto simp: 1(3))
  let ?s2 = "?s1\<lparr>bc := b2, lg := (lg ?s1)\<lparr>lh_n := 0\<rparr>\<rparr>"
  have b2: "locked b2 b = locked (bc s) b" "disksize b2 = ?N" "s_busy (babs b2) = {}" for b
    using 2(3) nb assms(2) by (auto simp: s_busy_def dest: arg_cong [of _ _ s_locked] arg_cong [of _ _ s_size])
  have vst: "view b2 st = ?d st"
  proof -
    have "st \<notin> fst ` set (install_writes ?d st)"
      using assms(5) by (auto simp: install_writes_def log_ok_def home_def)
    then show ?thesis using arg_cong [OF 2(3), of s_view] by (simp add: replay_other clean)
  qed
  obtain b3 where 3: "write_head me ?s2 = Ret () (?s2\<lparr>bc := b3\<rparr>)" "bio_inv b3"
    "babs b3 = put_block st (put_head 0 blk (?d st)) (babs b2)"
    using write_head_ok [of ?s2 me] 2(2) b2 assms(2-4) g(1) NB vst by (auto simp: LOGSIZE_def MAXOPBLOCKS_def)
  have "babs b3 = put_blocks (recovery_writes ?d st) (babs (bc s))"
    using put_head_0 [of blk "?d st" "\<lambda>_. 0"]
    by (simp add: 3(3) 2(3) recovery_writes_def put_blocks_append put_blocks_Cons)
  then show ?thesis
    using 1(1) 2(1) 3(1,2) unfolding recover_from_log_def
    by (intro exI [of _ b3] exI [of _ blk]) simp
qed

lemma readsb_ok:
  assumes "bio_inv b" and "1 < disksize b" and "\<not> locked b 1"
    and "dirty b 1 \<or> card (s_busy (babs b)) < NBUF"
  shows "\<exists>b'. readsb me 1 b = Ret (decode_sb (view b 1)) b' \<and> bio_inv b' \<and> babs b' = babs b"
  using bio.read_block [of b 1 me decode_sb] assms by (auto simp: readsb_def)

theorem initlog_ok:
  assumes "log_ok d N st sz"
  shows "\<exists>r. initlog me 1 (reset d N) = Ret () r \<and> bio_inv (bc r) \<and>
    babs (bc r) = put_blocks (recovery_writes d st) (babs (binit (bss_bcache d N))) \<and>
    l_start (lg r) = st \<and> l_size (lg r) = sz \<and> l_dev (lg r) = 1 \<and> lh_n (lg r) = 0 \<and>
    l_outstanding (lg r) = 0 \<and> \<not> l_committing (lg r)"
proof -
  let ?b = "binit (bss_bcache d N)"
  have inv: "bio_inv ?b" using assms by (intro binit_ok) (simp add: log_ok_def sb_ok_def)
  have v: "view ?b = d" "disk ?b = d" "disksize ?b = N" "locked ?b b = False" "dirty ?b b = False" for b
    using babs_binit [of d N] by (simp_all add: babs_def)
  have nb: "s_busy (babs ?b) = {}" by (simp add: s_busy_def v)
  have NB: "0 < NBUF" by (simp add: NBUF_def)
  have sb: "1 < N" "sb_logstart (decode_sb (d 1)) = st" "sb_nlog (decode_sb (d 1)) = sz"
    using assms by (auto simp: log_ok_def sb_ok_def geometry_def)
  have "\<exists>b'. readsb me 1 ?b = Ret (decode_sb (view ?b 1)) b' \<and> bio_inv b' \<and> babs b' = babs ?b"
    using sb(1) by (intro readsb_ok inv) (simp_all add: v nb NB)
  then obtain b1 where 1: "readsb me 1 ?b = Ret (decode_sb (d 1)) b1" "bio_inv b1" "babs b1 = babs ?b"
    by (auto simp: v)
  have v1: "disk b1 = d" "disksize b1 = N" "locked b1 b = False" "dirty b1 b = False" for b
    using 1(3) unfolding babs_binit by (simp_all add: babs_def)
  let ?s = "reset d N\<lparr>bc := b1, lg := zero_log\<lparr>l_start := st, l_size := sz, l_dev := 1\<rparr>\<rparr>"
  obtain b2 blk where 2: "recover_from_log me ?s = Ret () (?s\<lparr>lg := (lg ?s)\<lparr>lh_block := blk, lh_n := 0\<rparr>, bc := b2\<rparr>)"
    "bio_inv b2" "babs b2 = put_blocks (recovery_writes d st) (babs ?b)"
    using recover_from_log_ok [of ?s st sz me] 1(2) assms by (auto simp: v1 1(3))
  have "initlog me 1 (reset d N) = recover_from_log me ?s"
    using 1(1) sb by (simp add: initlog_def LOGSIZE_def MAXOPBLOCKS_def BSIZE_def reset_def zero_log_def)
  then show ?thesis
    using 2 by (simp add: zero_log_def)
qed

subsection \<open>Crashes during recovery\<close>

lemma log_ok_cong:
  assumes "log_ok d N st sz" and "\<forall>b<N. length (e b) = BSIZE" and "e 1 = d 1" and "e st = d st"
  shows "log_ok e N st sz"
  using assms by (simp add: log_ok_def sb_ok_def)

lemma log_ok_head_0:
  assumes "log_ok d N st sz" and "\<forall>b<N. length (e b) = BSIZE" and "e 1 = d 1" and "head_n (e st) = 0"
  shows "log_ok e N st sz"
  using assms by (simp add: log_ok_def sb_ok_def geometry_def)

lemma head_clear: "length d = BSIZE \<Longrightarrow> head_n (put_head 0 blk d) = 0"
  by (rule put_head_ok) (simp_all add: LOGSIZE_def MAXOPBLOCKS_def)

lemma length_head_clear: "length d = BSIZE \<Longrightarrow> length (put_head 0 blk d) = BSIZE"
  by (rule put_head_ok) (simp_all add: LOGSIZE_def MAXOPBLOCKS_def)

lemma replay_length:
  assumes "\<forall>b<N. length (d b) = L" and "\<forall>w\<in>set ws. length (snd w) = L"
  shows "b < N \<Longrightarrow> length (replay d ws b) = L"
  using assms by (induction ws arbitrary: d) auto

lemma install_writes_facts:
  assumes "log_ok d N st sz"
  shows "distinct (map fst (install_writes d st))" and "\<forall>w\<in>set (install_writes d st). home N st sz (fst w)"
    and "\<forall>w\<in>set (install_writes d st). length (snd w) = BSIZE"
  using assms
  by (auto simp: install_writes_def log_ok_def sb_ok_def geometry_def distinct_map comp_def
      atLeast0LessThan)

text \<open>Replaying a part of a list of writes, then the whole list, is replaying the list.\<close>

lemma replay_take_replay:
  assumes "distinct (map fst ws)"
  shows "replay (replay d (take k ws)) ws = replay d ws"
proof
  fix b
  show "replay (replay d (take k ws)) ws b = replay d ws b"
  proof (cases "b \<in> fst ` set ws")
    case True
    then obtain x where "(b, x) \<in> set ws" by force
    then show ?thesis using assms by (simp add: replay_distinct)
  next
    case False
    then have "b \<notin> fst ` set (take k ws)" using in_set_takeD by fastforce
    then show ?thesis using False by (simp add: replay_other)
  qed
qed

lemma recovery_crash:
  fixes k :: nat
  assumes ok: "log_ok d N st sz"
  defines "e \<equiv> replay d (take k (recovery_writes d st))"
  shows "log_ok e N st sz"
    and "b \<noteq> st \<Longrightarrow> replay e (recovery_writes e st) b = replay d (recovery_writes d st) b"
proof -
  let ?W = "install_writes d st"
  note W = install_writes_facts [OF ok]
  have len: "\<forall>b<N. length (d b) = BSIZE" and st: "1 < st" "st < N"
    using ok by (auto simp: log_ok_def sb_ok_def geometry_def)
  have untouched: "replay d (take j ?W) b = d b" if "\<not> home N st sz b" for b j
    using W(2) that by (intro replay_other) (auto dest: in_set_takeD)
  have lenW: "b < N \<Longrightarrow> length (replay d (take j ?W) b) = BSIZE" for b j
    using W(3) by (intro replay_length [OF len]) (auto dest: in_set_takeD)
  have inlog: "\<not> home N st sz b" if "b = 1 \<or> (st \<le> b \<and> b < st + sz)" for b
    using that by (auto simp: home_def)
  have sz: "0 < sz" using ok by (simp add: log_ok_def sb_ok_def geometry_def)
  have "log_ok e N st sz \<and> (b \<noteq> st \<longrightarrow> replay e (recovery_writes e st) b = replay d (recovery_writes d st) b)"
  proof (cases "k \<le> length ?W")
    case True
    then have e: "e = replay d (take k ?W)" by (simp add: e_def recovery_writes_def)
    have "e 1 = d 1" "e st = d st" using untouched inlog sz by (simp_all add: e)
    moreover from this have "log_ok e N st sz" using lenW by (intro log_ok_cong [OF ok]) (simp_all add: e)
    moreover have "install_writes e st = ?W"
    proof -
      have "e (st + t + 1) = d (st + t + 1)" if "t < nat (head_n (d st))" for t
        using that ok unfolding e by (intro untouched inlog) (auto simp: log_ok_def)
      then show ?thesis using \<open>e st = d st\<close> by (simp add: install_writes_def)
    qed
    moreover have "replay e ?W = replay d ?W" using W(1) by (simp add: e replay_take_replay)
    ultimately show ?thesis by (simp add: recovery_writes_def)
  next
    case False
    then have e: "e = (replay d ?W)(st := put_head 0 (\<lambda>_. 0) (d st))"
      by (simp add: e_def recovery_writes_def)
    have h: "head_n (e st) = 0" using len st by (simp add: e head_clear)
    moreover have "e 1 = d 1"
      using untouched [of 1 "length ?W"] inlog [of 1] st by (simp add: e)
    moreover have "\<forall>b<N. length (e b) = BSIZE"
      using lenW [of _ "length ?W"] len st by (simp add: e length_head_clear)
    ultimately have "log_ok e N st sz" by (intro log_ok_head_0 [OF ok])
    moreover have "install_writes e st = []" by (simp add: install_writes_def h)
    ultimately show ?thesis by (simp add: recovery_writes_def e)
  qed
  then show "log_ok e N st sz" "b \<noteq> st \<Longrightarrow> replay e (recovery_writes e st) b = replay d (recovery_writes d st) b"
    by blast+
qed

subsection \<open>The invariant of the log, and commit\<close>

text \<open>
  Between the steps of file system calls: the blocks of the in-memory header are distinct home
  blocks and exactly the pinned ones, and the header on disk is empty.
\<close>

definition log_inv :: "lstate \<Rightarrow> bool" where
  "log_inv s \<longleftrightarrow>
     (let l = lg s; N = disksize (bc s); d = disk (bc s); n = nat (lh_n l) in
      bio_inv (bc s) \<and> sb_ok d N (l_start l) (l_size l) \<and> head_n (d (l_start l)) = 0 \<and> l_dev l = 1 \<and>
      0 \<le> lh_n l \<and> lh_n l < int (l_size l) \<and> inj_on (lh_block l) {..<n} \<and>
      (\<forall>t<n. home N (l_start l) (l_size l) (lh_block l t)) \<and>
      (\<forall>b. dirty (bc s) b \<longleftrightarrow> b \<in> lh_block l ` {..<n}))"

abbreviation unlocked :: "lstate \<Rightarrow> bool" where
  "unlocked s \<equiv> \<forall>b. \<not> locked (bc s) b"

definition log_writes :: "lstate \<Rightarrow> (nat \<times> byte list) list" where
  "log_writes s = map (\<lambda>t. (l_start (lg s) + t + 1, view (bc s) (lh_block (lg s) t))) [0..<nat (lh_n (lg s))]"

definition home_writes :: "lstate \<Rightarrow> (nat \<times> byte list) list" where
  "home_writes s = map (\<lambda>t. (lh_block (lg s) t, view (bc s) (lh_block (lg s) t))) [0..<nat (lh_n (lg s))]"

definition commit_head :: "lstate \<Rightarrow> byte list" where
  "commit_head s = put_head (lh_n (lg s)) (lh_block (lg s)) (disk (bc s) (l_start (lg s)))"

definition commit_writes :: "lstate \<Rightarrow> (nat \<times> byte list) list" where
  "commit_writes s =
     (if 0 < lh_n (lg s)
      then log_writes s @ [(l_start (lg s), commit_head s)] @ home_writes s @
        [(l_start (lg s), put_head 0 (\<lambda>_. 0) (commit_head s))]
      else [])"

lemma log_invD:
  assumes "log_inv s"
  shows "bio_inv (bc s)" and "sb_ok (disk (bc s)) (disksize (bc s)) (l_start (lg s)) (l_size (lg s))"
    and "head_n (disk (bc s) (l_start (lg s))) = 0" and "l_dev (lg s) = 1" and "0 \<le> lh_n (lg s)"
    and "lh_n (lg s) < int (l_size (lg s))" and "inj_on (lh_block (lg s)) {..<nat (lh_n (lg s))}"
    and "\<forall>t<nat (lh_n (lg s)). home (disksize (bc s)) (l_start (lg s)) (l_size (lg s)) (lh_block (lg s) t)"
    and "\<forall>b. dirty (bc s) b \<longleftrightarrow> b \<in> lh_block (lg s) ` {..<nat (lh_n (lg s))}"
  using assms by (simp_all add: log_inv_def Let_def)

lemma log_inv_log_ok:
  assumes "log_inv s" shows "log_ok (disk (bc s)) (disksize (bc s)) (l_start (lg s)) (l_size (lg s))"
  using log_invD(2,3) [OF assms] by (simp add: log_ok_def sb_ok_def geometry_def)

lemma log_inv_card:
  assumes "log_inv s" and "unlocked s"
  shows "card (s_busy (babs (bc s))) < NBUF"
proof -
  have "s_busy (babs (bc s)) = lh_block (lg s) ` {..<nat (lh_n (lg s))}"
    using log_invD(9) [OF assms(1)] assms(2) by (auto simp: s_busy_def)
  then have "card (s_busy (babs (bc s))) \<le> nat (lh_n (lg s))"
    using card_image_le [of "{..<nat (lh_n (lg s))}" "lh_block (lg s)"] by simp
  then show ?thesis
    using log_invD(2,5,6) [OF assms(1)] by (auto simp: sb_ok_def geometry_def)
qed

lemma log_inv_LOGSIZE: "log_inv s \<Longrightarrow> lh_n (lg s) \<le> LOGSIZE"
  using log_invD(2,6) [of s] by (auto simp: sb_ok_def geometry_def LOGSIZE_def MAXOPBLOCKS_def NBUF_def)

lemma log_inv_region:
  assumes "log_inv s" and "unlocked s" and "l_start (lg s) \<le> b" and "b < l_start (lg s) + l_size (lg s)"
  shows "\<not> dirty (bc s) b" and "view (bc s) b = disk (bc s) b"
proof -
  show "\<not> dirty (bc s) b"
    using log_invD(8,9) [OF assms(1)] assms(3,4) by (auto simp: home_def)
  then show "view (bc s) b = disk (bc s) b"
    using bio.clean_view [OF log_invD(1) [OF assms(1)]] assms(2) by simp
qed

text \<open>The pure effect of the writes of a commit.\<close>

lemma commit_disk:
  assumes "log_inv s" and "unlocked s"
  defines "d \<equiv> replay (disk (bc s)) (log_writes s @ [(l_start (lg s), commit_head s)])"
  shows "log_ok d (disksize (bc s)) (l_start (lg s)) (l_size (lg s))"
    and "recovery_writes d (l_start (lg s)) =
      home_writes s @ [(l_start (lg s), put_head 0 (\<lambda>_. 0) (commit_head s))]"
    and "b < l_start (lg s) \<or> l_start (lg s) + l_size (lg s) \<le> b \<Longrightarrow> d b = disk (bc s) b"
    and "head_n (d (l_start (lg s))) = lh_n (lg s)"
proof -
  let ?st = "l_start (lg s)" and ?n = "nat (lh_n (lg s))" and ?N = "disksize (bc s)"
  note inv = log_invD [OF assms(1)]
  have len: "\<forall>b<?N. length (disk (bc s) b) = BSIZE" and st: "1 < ?st" "?st < ?N" "?N \<le> 2 ^ 31"
    using inv(2) by (auto simp: sb_ok_def geometry_def)
  have hst: "d ?st = commit_head s" by (simp add: d_def)
  have H: "head_n (d ?st) = lh_n (lg s)" "length (d ?st) = BSIZE"
    "t < ?n \<Longrightarrow> head_block (d ?st) t = lh_block (lg s) t" for t
    using put_head_ok [OF _ inv(5) log_inv_LOGSIZE [OF assms(1)]] len st inv(8)
    by (auto simp: hst commit_head_def home_def)
  show "head_n (d ?st) = lh_n (lg s)" by (rule H(1))
  have dl: "distinct (map fst (log_writes s))"
    by (simp add: log_writes_def distinct_map inj_on_def comp_def)
  have dt: "d (?st + t + 1) = view (bc s) (lh_block (lg s) t)" if "t < ?n" for t
  proof -
    have "(?st + t + 1, view (bc s) (lh_block (lg s) t)) \<in> set (log_writes s)"
      using that by (auto simp: log_writes_def)
    then show ?thesis using replay_distinct [OF dl] by (simp add: d_def)
  qed
  have out: "d b = disk (bc s) b" if "b < ?st \<or> ?st + l_size (lg s) \<le> b" for b
  proof -
    have "b \<notin> fst ` set (log_writes s)" "b \<noteq> ?st"
      using that inv(5,6) by (auto simp: log_writes_def)
    then show ?thesis by (simp add: d_def replay_other)
  qed
  then show "b < ?st \<or> ?st + l_size (lg s) \<le> b \<Longrightarrow> d b = disk (bc s) b" .
  have "length (d b) = BSIZE" if "b < ?N" for b
  proof -
    have "\<forall>w\<in>set (log_writes s). length (snd w) = BSIZE"
      using bio.view_length [OF inv(1)] inv(8) by (auto simp: log_writes_def home_def)
    then show ?thesis
      using replay_length [OF len _ that, of "log_writes s"] H(2) hst by (simp add: d_def)
  qed
  moreover have "d 1 = disk (bc s) 1" using out st by simp
  ultimately have sb: "sb_ok d ?N ?st (l_size (lg s))" using inv(2) by (simp add: sb_ok_def)
  have "inj_on (head_block (d ?st)) {..<?n}"
    using inv(7) H(3) inj_on_cong [of "{..<?n}" "head_block (d ?st)" "lh_block (lg s)"] by simp
  then show "log_ok d ?N ?st (l_size (lg s))"
    using sb H(1,3) inv(5,6,8) by (simp add: log_ok_def)
  have "install_writes d ?st = home_writes s"
    using H(1,3) dt by (simp add: install_writes_def home_writes_def)
  then show "recovery_writes d ?st = home_writes s @ [(?st, put_head 0 (\<lambda>_. 0) (commit_head s))]"
    by (simp add: recovery_writes_def hst)
qed

lemma write_log_ok:
  assumes "log_inv s" and "unlocked s"
  shows "\<exists>b. write_log me s = Ret () (s\<lparr>bc := b\<rparr>) \<and> bio_inv b \<and>
    babs b = put_blocks (log_writes s) (babs (bc s))"
proof -
  let ?st = "l_start (lg s)" and ?n = "nat (lh_n (lg s))"
  note inv = log_invD [OF assms(1)]
  have g: "?st + l_size (lg s) \<le> disksize (bc s)" using inv(2) by (simp add: sb_ok_def geometry_def)
  have "\<forall>t\<in>set [0..<?n]. ?st + t + 1 < s_size (babs (bc s)) \<and> lh_block (lg s) t < s_size (babs (bc s)) \<and>
      s_dirty (babs (bc s)) (lh_block (lg s) t) \<and> \<not> s_dirty (babs (bc s)) (?st + t + 1)"
  proof
    fix t assume t: "t \<in> set [0..<?n]"
    then have "?st + t + 1 < ?st + l_size (lg s)" using inv(5,6) by auto
    moreover from this have "\<not> dirty (bc s) (?st + t + 1)" using log_inv_region(1) [OF assms] by simp
    ultimately show "?st + t + 1 < s_size (babs (bc s)) \<and> lh_block (lg s) t < s_size (babs (bc s)) \<and>
      s_dirty (babs (bc s)) (lh_block (lg s) t) \<and> \<not> s_dirty (babs (bc s)) (?st + t + 1)"
      using t g inv(8,9) by (auto simp: home_def)
  qed
  then have "\<exists>b. ofor [0..<?n] (write_log_block me 1 ?st (lh_block (lg s))) (bc s) = Ret () b \<and> bio_inv b \<and>
    babs b = put_blocks (map (\<lambda>t. (?st + t + 1, s_view (babs (bc s)) (lh_block (lg s) t))) [0..<?n]) (babs (bc s))"
    using inv(1) assms(2) log_inv_card [OF assms] by (intro write_log_loop) simp_all
  then show ?thesis
    using inv(4) unfolding write_log_def log_writes_def by (auto simp: on_bc_def)
qed

lemma babs_view: "babs b = a \<Longrightarrow> view b = s_view a" by auto
lemma babs_dirty: "babs b = a \<Longrightarrow> dirty b = s_dirty a" by auto
lemma babs_locked: "babs b = a \<Longrightarrow> locked b = s_locked a" by auto
lemma babs_disk: "babs b = a \<Longrightarrow> disk b = s_disk a" by auto
lemma babs_disksize: "babs b = a \<Longrightarrow> disksize b = s_size a" by auto
lemma babs_writes: "babs b = a \<Longrightarrow> writes b = s_writes a" by auto

lemmas babs_proj = babs_view babs_dirty babs_locked babs_disk babs_disksize babs_writes

lemma card_busy_put_blocks:
  assumes "bio_inv b" and "card (s_busy (babs b)) < n"
  shows "card (s_busy (put_blocks ws (babs b))) < n"
proof -
  have "s_busy (put_blocks ws (babs b)) \<subseteq> s_busy (babs b)" by (auto simp: s_busy_def)
  then show ?thesis using card_mono [OF bio.busy_finite [OF assms(1)]] assms(2) by (meson le_less_trans)
qed

lemma log_writes_region:
  assumes "log_inv s" and "b \<in> fst ` set (log_writes s)"
  shows "l_start (lg s) < b \<and> b < l_start (lg s) + l_size (lg s)"
  using assms(2) log_invD(5,6) [OF assms(1)] by (auto simp: log_writes_def)

lemma log_writes_not_home:
  assumes "log_inv s" and "t < nat (lh_n (lg s))"
  shows "lh_block (lg s) t \<notin> fst ` set (log_writes s)" and "lh_block (lg s) t \<noteq> l_start (lg s)"
proof -
  have "\<not> (l_start (lg s) \<le> lh_block (lg s) t \<and> lh_block (lg s) t < l_start (lg s) + l_size (lg s))"
    using log_invD(8) [OF assms(1)] assms(2) by (auto simp: home_def)
  then show "lh_block (lg s) t \<notin> fst ` set (log_writes s)" "lh_block (lg s) t \<noteq> l_start (lg s)"
    using log_writes_region [OF assms(1)] log_invD(5,6) [OF assms(1)] by force+
qed

lemma commit_ok:
  assumes "log_inv s" and "unlocked s"
  shows "\<exists>b. commit me s = Ret () (s\<lparr>bc := b, lg := (lg s)\<lparr>lh_n := 0\<rparr>\<rparr>) \<and> bio_inv b \<and>
    babs b = put_blocks (commit_writes s) (babs (bc s))"
proof (cases "0 < lh_n (lg s)")
  case False
  then have "lg s = (lg s)\<lparr>lh_n := 0\<rparr>" using log_invD(5) [OF assms(1)] by simp
  then show ?thesis
    using False log_invD(1) [OF assms(1)]
    by (intro exI [of _ "bc s"]) (simp add: commit_def commit_writes_def)
next
  case True
  let ?st = "l_start (lg s)" and ?n = "nat (lh_n (lg s))" and ?a = "babs (bc s)"
  note inv = log_invD [OF assms(1)]
  have g: "?st + l_size (lg s) \<le> disksize (bc s)" "?st < disksize (bc s)"
    using inv(2) by (auto simp: sb_ok_def geometry_def)
  have st0: "?st \<notin> fst ` set (log_writes s)" using log_writes_region [OF assms(1)] by blast
  have vst: "view (bc s) ?st = disk (bc s) ?st"
    using log_inv_region(2) [OF assms] inv(5,6) by simp
  obtain b1 where 1: "write_log me s = Ret () (s\<lparr>bc := b1\<rparr>)" "bio_inv b1"
    "babs b1 = put_blocks (log_writes s) ?a"
    using write_log_ok [OF assms] by blast
  note p1 = babs_proj [OF 1(3)]
  have c1: "card (s_busy (babs b1)) < NBUF"
    unfolding 1(3) by (rule card_busy_put_blocks [OF inv(1) log_inv_card [OF assms]])
  obtain b2 where 2: "write_head me (s\<lparr>bc := b1\<rparr>) = Ret () (s\<lparr>bc := b2\<rparr>)" "bio_inv b2"
    "babs b2 = put_blocks (log_writes s @ [(?st, commit_head s)]) ?a"
    using write_head_ok [of "s\<lparr>bc := b1\<rparr>" me] 1(2) c1 assms(2) inv(4,5) g log_inv_LOGSIZE [OF assms(1)]
      replay_other [OF st0, of "view (bc s)"]
    by (auto simp: p1 vst commit_head_def put_blocks_append put_blocks_Cons 1(3))
  note p2 = babs_proj [OF 2(3)]
  have c2: "card (s_busy (babs b2)) < NBUF"
    unfolding 2(3) by (rule card_busy_put_blocks [OF inv(1) log_inv_card [OF assms]])
  have d2: "dirty b2 (lh_block (lg s) t)" if "t < ?n" for t
    using that log_writes_not_home [OF assms(1) that] inv(9) by (simp add: p2)
  have v2: "view b2 (?st + t + 1) = view (bc s) (lh_block (lg s) t)" if "t < ?n" for t
  proof -
    have "distinct (map fst (log_writes s))" by (simp add: log_writes_def distinct_map inj_on_def comp_def)
    moreover have "(?st + t + 1, view (bc s) (lh_block (lg s) t)) \<in> set (log_writes s)"
      using that by (auto simp: log_writes_def)
    ultimately show ?thesis by (simp add: p2 replay_distinct)
  qed
  have "\<exists>b3. install_trans me (s\<lparr>bc := b2\<rparr>) = Ret () (s\<lparr>bc := b2\<rparr>\<lparr>bc := b3\<rparr>) \<and> bio_inv b3 \<and>
    babs b3 = put_blocks (map (\<lambda>t. (lh_block (lg (s\<lparr>bc := b2\<rparr>)) t, view (bc (s\<lparr>bc := b2\<rparr>)) (?st + t + 1))) [0..<?n])
      (babs (bc (s\<lparr>bc := b2\<rparr>)))"
    using 2(2) c2 inv(4,6,7,8) g assms(2) d2
    by (intro install_trans_ok [where sz = "l_size (lg s)"]) (simp_all add: p2)
  moreover have "map (\<lambda>t. (lh_block (lg (s\<lparr>bc := b2\<rparr>)) t, view (bc (s\<lparr>bc := b2\<rparr>)) (?st + t + 1))) [0..<?n] = home_writes s"
    using v2 by (simp add: home_writes_def)
  ultimately obtain b3 where 3: "install_trans me (s\<lparr>bc := b2\<rparr>) = Ret () (s\<lparr>bc := b3\<rparr>)" "bio_inv b3"
    "babs b3 = put_blocks (log_writes s @ [(?st, commit_head s)] @ home_writes s) ?a"
    by (auto simp: 2(3) put_blocks_append put_blocks_Cons)
  note p3 = babs_proj [OF 3(3)]
  have c3: "card (s_busy (babs b3)) < NBUF"
    unfolding 3(3) by (rule card_busy_put_blocks [OF inv(1) log_inv_card [OF assms]])
  have "?st \<notin> fst ` set (home_writes s)"
    using log_writes_not_home(2) [OF assms(1)] by (force simp: home_writes_def)
  then have v3: "view b3 ?st = commit_head s" by (simp add: p3 replay_other)
  let ?s3 = "s\<lparr>bc := b3, lg := (lg s)\<lparr>lh_n := 0\<rparr>\<rparr>"
  obtain b4 where 4: "write_head me ?s3 = Ret () (?s3\<lparr>bc := b4\<rparr>)" "bio_inv b4"
    "babs b4 = put_block ?st (put_head 0 (lh_block (lg s)) (commit_head s)) (babs b3)"
    using write_head_ok [of ?s3 me] 3(2) c3 assms(2) inv(4) g v3
    by (auto simp: p3(3,5) LOGSIZE_def MAXOPBLOCKS_def)
  have "babs b4 = put_blocks (commit_writes s) ?a"
    using True put_head_0 [of "lh_block (lg s)" "commit_head s" "\<lambda>_. 0"]
    by (simp add: 4(3) 3(3) commit_writes_def put_blocks_append put_blocks_Cons)
  then show ?thesis
    using True 1(1) 2(1) 3(1) 4(1,2) unfolding commit_def by (intro exI [of _ b4]) simp
qed

subsection \<open>Atomicity of a commit\<close>

text \<open>
  \<open>recovered d N st e\<close>: started on the disk \<open>d\<close>, recovery returns and leaves \<open>e\<close>
  outside the log region. \<open>crash_star\<close>: recovery may itself be cut short, any number of times.
\<close>

definition outside :: "lstate \<Rightarrow> nat \<Rightarrow> bool" where
  "outside s b \<longleftrightarrow> b < l_start (lg s) \<or> l_start (lg s) + l_size (lg s) \<le> b"

inductive crash_star :: "nat \<Rightarrow> (nat \<Rightarrow> byte list) \<Rightarrow> (nat \<Rightarrow> byte list) \<Rightarrow> bool" for N where
  crash_refl: "crash_star N d d"
| crash_step: "crash_star N d e \<Longrightarrow> initlog me 1 (reset e N) = Ret () r \<Longrightarrow>
    crash_star N d (replay e (take k (writes (bc r))))"

lemma initlog_writes:
  assumes "log_ok d N st sz" and "initlog me 1 (reset d N) = Ret () r"
  shows "writes (bc r) = recovery_writes d st" and "disk (bc r) = replay d (recovery_writes d st)"
proof -
  have a: "babs (bc r) = put_blocks (recovery_writes d st) (babs (binit (bss_bcache d N)))"
    using initlog_ok [OF assms(1), of me] assms(2) by auto
  show "writes (bc r) = recovery_writes d st" "disk (bc r) = replay d (recovery_writes d st)"
    using babs_proj [OF a] by (simp_all add: binit_bss)
qed

lemma crash_star_ok:
  assumes "crash_star N d e" and "log_ok d N st sz"
  shows "log_ok e N st sz \<and> (\<forall>b. b \<noteq> st \<longrightarrow> replay e (recovery_writes e st) b = replay d (recovery_writes d st) b)"
  using assms
proof (induction rule: crash_star.induct)
  case (crash_step d e me r k)
  then have ok: "log_ok e N st sz" by blast
  then have "writes (bc r) = recovery_writes e st" using initlog_writes(1) crash_step.hyps(2) by blast
  then show ?case using recovery_crash [OF ok, where k = k] crash_step.IH [OF crash_step.prems] by simp
qed simp

lemma home_replay:
  assumes "log_inv s" and "unlocked s" and "outside s b"
  shows "replay (disk (bc s)) (home_writes s) b = view (bc s) b"
proof (cases "b \<in> fst ` set (home_writes s)")
  case True
  then have "(b, view (bc s) b) \<in> set (home_writes s)" by (auto simp: home_writes_def)
  moreover have "distinct (map fst (home_writes s))"
    using log_invD(7) [OF assms(1)] by (simp add: home_writes_def distinct_map comp_def atLeast0LessThan)
  ultimately show ?thesis by (simp add: replay_distinct)
next
  case False
  then have "\<not> dirty (bc s) b" using log_invD(9) [OF assms(1)] by (auto simp: home_writes_def image_iff)
  then show ?thesis
    using False bio.clean_view [OF log_invD(1) [OF assms(1)], of b] assms(2) by (simp add: replay_other)
qed

text \<open>A crash after \<open>k\<close> of the writes of a commit, before and after the header is written.\<close>

lemma crash_empty:
  assumes "log_ok d N st sz" and "head_n (d st) = 0" and "b \<noteq> st"
  shows "replay d (recovery_writes d st) b = d b"
  using assms by (simp add: recovery_writes_def install_writes_def)

lemma outside_start: "log_inv s \<Longrightarrow> outside s b \<Longrightarrow> b \<noteq> l_start (lg s)"
  using log_invD(5,6) [of s] by (auto simp: outside_def)

lemma commit_crash_before:
  fixes k :: nat
  assumes "log_inv s" and "unlocked s"
  defines "d \<equiv> replay (disk (bc s)) (take k (log_writes s))"
  shows "log_ok d (disksize (bc s)) (l_start (lg s)) (l_size (lg s))"
    and "outside s b \<Longrightarrow> replay d (recovery_writes d (l_start (lg s))) b = disk (bc s) b"
proof -
  let ?st = "l_start (lg s)" and ?N = "disksize (bc s)"
  note inv = log_invD [OF assms(1)] and ok = log_inv_log_ok [OF assms(1)]
  have len: "\<forall>b<?N. length (disk (bc s) b) = BSIZE" and st: "1 < ?st"
    using ok by (auto simp: log_ok_def sb_ok_def geometry_def)
  have keep: "d b = disk (bc s) b" if "\<not> (?st < b \<and> b < ?st + l_size (lg s))" for b
  proof -
    have "b \<notin> fst ` set (log_writes s)" using that log_writes_region [OF assms(1)] by blast
    then have "b \<notin> fst ` set (take k (log_writes s))" using set_take_subset [of k "log_writes s"] by blast
    then show ?thesis by (simp add: d_def replay_other)
  qed
  have "\<forall>w\<in>set (log_writes s). length (snd w) = BSIZE"
    using bio.view_length [OF inv(1)] inv(8) by (auto simp: log_writes_def home_def)
  then have "\<forall>w\<in>set (take k (log_writes s)). length (snd w) = BSIZE"
    using set_take_subset [of k "log_writes s"] by blast
  then have "\<forall>b<?N. length (d b) = BSIZE" using replay_length [OF len] by (simp add: d_def)
  moreover have "d 1 = disk (bc s) 1" "d ?st = disk (bc s) ?st" using keep st by simp_all
  ultimately show ok': "log_ok d ?N ?st (l_size (lg s))" by (intro log_ok_cong [OF ok])
  show "replay d (recovery_writes d ?st) b = disk (bc s) b" if b: "outside s b"
  proof -
    have "d b = disk (bc s) b" using b by (intro keep) (auto simp: outside_def)
    then show ?thesis
      using crash_empty [OF ok' _ outside_start [OF assms(1) b]] \<open>d ?st = disk (bc s) ?st\<close> inv(3) by simp
  qed
qed

lemma commit_crash_after:
  fixes j :: nat
  assumes "log_inv s" and "unlocked s"
  defines "d1 \<equiv> replay (disk (bc s)) (log_writes s @ [(l_start (lg s), commit_head s)])"
  defines "d \<equiv> replay d1 (take j (recovery_writes d1 (l_start (lg s))))"
  shows "log_ok d (disksize (bc s)) (l_start (lg s)) (l_size (lg s))"
    and "outside s b \<Longrightarrow> replay d (recovery_writes d (l_start (lg s))) b = view (bc s) b"
proof -
  let ?st = "l_start (lg s)" and ?N = "disksize (bc s)"
  note D = commit_disk [OF assms(1,2), folded d1_def]
  show "log_ok d ?N ?st (l_size (lg s))" unfolding d_def by (rule recovery_crash(1) [OF D(1)])
  show "replay d (recovery_writes d ?st) b = view (bc s) b" if b: "outside s b"
  proof -
    have "replay d (recovery_writes d ?st) b = replay d1 (recovery_writes d1 ?st) b"
      unfolding d_def by (rule recovery_crash(2) [OF D(1) outside_start [OF assms(1) b]])
    also have "\<dots> = replay d1 (home_writes s) b"
      using outside_start [OF assms(1) b] by (simp add: D(2))
    also have "\<dots> = replay (disk (bc s)) (home_writes s) b"
    proof (cases "b \<in> fst ` set (home_writes s)")
      case True
      then obtain x where "(b, x) \<in> set (home_writes s)" by force
      moreover have "distinct (map fst (home_writes s))"
        using log_invD(7) [OF assms(1)] by (simp add: home_writes_def distinct_map comp_def atLeast0LessThan)
      ultimately show ?thesis by (simp add: replay_distinct)
    next
      case False
      then show ?thesis using D(3) [of b] b by (simp add: replay_other outside_def)
    qed
    finally show ?thesis using home_replay [OF assms(1,2) b] by simp
  qed
qed

lemma commit_crash:
  fixes k :: nat
  assumes "log_inv s" and "unlocked s"
  defines "d \<equiv> replay (disk (bc s)) (take k (commit_writes s))"
  shows "log_ok d (disksize (bc s)) (l_start (lg s)) (l_size (lg s))"
    and "outside s b \<Longrightarrow> replay d (recovery_writes d (l_start (lg s))) b =
      (if k \<le> nat (lh_n (lg s)) then disk (bc s) b else view (bc s) b)"
proof -
  let ?st = "l_start (lg s)" and ?n = "nat (lh_n (lg s))"
  note inv = log_invD [OF assms(1)]
  have n: "length (log_writes s) = ?n" by (simp add: log_writes_def)
  let ?d1 = "replay (disk (bc s)) (log_writes s @ [(?st, commit_head s)])"
  consider "lh_n (lg s) = 0" | "0 < lh_n (lg s)" "k \<le> ?n" | "0 < lh_n (lg s)" "?n < k"
    using inv(5) by linarith
  then have "log_ok d (disksize (bc s)) ?st (l_size (lg s)) \<and>
    (outside s b \<longrightarrow> replay d (recovery_writes d ?st) b =
      (if k \<le> ?n then disk (bc s) b else view (bc s) b))"
  proof cases
    case 1
    then have d: "d = disk (bc s)" and v: "view (bc s) b = disk (bc s) b"
      using bio.clean_view [OF inv(1)] inv(9) assms(2) by (simp_all add: d_def commit_writes_def)
    show ?thesis
      using crash_empty [OF log_inv_log_ok [OF assms(1)] inv(3)] outside_start [OF assms(1)]
        log_inv_log_ok [OF assms(1)] by (simp add: d v)
  next
    case 2
    then have "d = replay (disk (bc s)) (take k (log_writes s))" by (simp add: d_def commit_writes_def n)
    then show ?thesis using 2 commit_crash_before [OF assms(1,2)] by simp
  next
    case 3
    have "commit_writes s = (log_writes s @ [(?st, commit_head s)]) @ recovery_writes ?d1 ?st"
      using 3(1) commit_disk(2) [OF assms(1,2)] by (simp add: commit_writes_def)
    then have "d = replay ?d1 (take (k - ?n - 1) (recovery_writes ?d1 ?st))"
      using 3(2) by (simp add: d_def n take_Cons')
    then show ?thesis using 3 commit_crash_after [OF assms(1,2)] by simp
  qed
  then show "log_ok d (disksize (bc s)) ?st (l_size (lg s))"
    "outside s b \<Longrightarrow> replay d (recovery_writes d ?st) b =
      (if k \<le> ?n then disk (bc s) b else view (bc s) b)" by blast+
qed

subsection \<open>The invariant under the operations\<close>

lemma log_inv_initlog:
  assumes "log_ok d N st sz" and "initlog me 1 (reset d N) = Ret () r"
  shows "log_inv r" and "unlocked r" and "outside r b \<Longrightarrow> view (bc r) b = replay d (recovery_writes d st) b"
    and "l_start (lg r) = st" and "l_size (lg r) = sz" and "disksize (bc r) = N"
    and "lh_n (lg r) = 0" and "l_outstanding (lg r) = 0" and "\<not> l_committing (lg r)"
proof -
  have r: "bio_inv (bc r)" "babs (bc r) = put_blocks (recovery_writes d st) (babs (binit (bss_bcache d N)))"
    "l_start (lg r) = st" "l_size (lg r) = sz" "l_dev (lg r) = 1" "lh_n (lg r) = 0"
    "l_outstanding (lg r) = 0" "\<not> l_committing (lg r)"
    using initlog_ok [OF assms(1), of me] assms(2) by auto
  note p = babs_proj [OF r(2), unfolded babs_binit, simplified]
  let ?e = "replay d (recovery_writes d st)"
  have e: "?e = replay d (take (length (recovery_writes d st)) (recovery_writes d st))" by simp
  have ok: "log_ok ?e N st sz" by (subst e) (rule recovery_crash(1) [OF assms(1)])
  have "length (d st) = BSIZE" using assms(1) by (auto simp: log_ok_def sb_ok_def geometry_def)
  then have "head_n (?e st) = 0" by (simp add: recovery_writes_def head_clear)
  then show "log_inv r" using ok r p by (auto simp: log_inv_def Let_def log_ok_def sb_ok_def geometry_def)
  show "unlocked r" by (simp add: p)
  show "view (bc r) b = ?e b" if "outside r b" by (simp add: p)
  show "l_start (lg r) = st" "l_size (lg r) = sz" "lh_n (lg r) = 0" "disksize (bc r) = N"
    "l_outstanding (lg r) = 0" "\<not> l_committing (lg r)"
    using r p by simp_all
qed

lemma commit_inv:
  assumes "log_inv s" and "unlocked s" and "commit me s = Ret () s'"
  shows "log_inv s'" and "unlocked s'" and "lg s' = (lg s)\<lparr>lh_n := 0\<rparr>"
    and "writes (bc s') = writes (bc s) @ commit_writes s" and "disksize (bc s') = disksize (bc s)"
    and "outside s b \<Longrightarrow> disk (bc s') b = view (bc s) b \<and> view (bc s') b = view (bc s) b"
proof -
  obtain b' where s': "s' = s\<lparr>bc := b', lg := (lg s)\<lparr>lh_n := 0\<rparr>\<rparr>" and bi: "bio_inv b'"
    and ab: "babs b' = put_blocks (commit_writes s) (babs (bc s))"
    using commit_ok [OF assms(1,2), of me] assms(3) by auto
  let ?st = "l_start (lg s)"
  note p = babs_proj [OF ab, simplified] and inv = log_invD [OF assms(1)]
  have nd: "\<not> dirty b' b" for b
  proof (cases "dirty (bc s) b")
    case True
    then obtain t where t: "t < nat (lh_n (lg s))" "b = lh_block (lg s) t" using inv(9) by auto
    then have "b \<in> fst ` set (home_writes s)" by (force simp: home_writes_def)
    then show ?thesis using t(1) by (auto simp: p(2) commit_writes_def)
  qed (simp add: p(2))
  have full: "replay (disk (bc s)) (commit_writes s) = replay (disk (bc s)) (take (length (commit_writes s)) (commit_writes s))"
    by simp
  have ok: "log_ok (disk b') (disksize (bc s)) ?st (l_size (lg s))"
    unfolding p(4) by (subst full) (rule commit_crash(1) [OF assms(1,2)])
  have hd: "head_n (disk b' ?st) = 0"
  proof (cases "0 < lh_n (lg s)")
    case True
    have "length (commit_head s) = BSIZE"
      unfolding commit_head_def
      using inv(2,5) log_inv_LOGSIZE [OF assms(1)] by (intro put_head_ok) (auto simp: sb_ok_def geometry_def)
    then show ?thesis using True by (simp add: p(4) commit_writes_def head_clear)
  qed (use inv(3) in \<open>simp add: p(4) commit_writes_def\<close>)
  show "log_inv s'" using ok hd bi nd inv(2,4)
    by (auto simp: s' log_inv_def Let_def log_ok_def sb_ok_def geometry_def p(5))
  show "unlocked s'" using assms(2) by (simp add: s' p(3))
  show "lg s' = (lg s)\<lparr>lh_n := 0\<rparr>" "writes (bc s') = writes (bc s) @ commit_writes s"
    "disksize (bc s') = disksize (bc s)" by (simp_all add: s' p(5,6))
  show "disk (bc s') b = view (bc s) b \<and> view (bc s') b = view (bc s) b" if b: "outside s b"
  proof -
    have "replay (disk b') (recovery_writes (disk b') ?st) b = disk b' b"
      using crash_empty [OF ok hd outside_start [OF assms(1) b]] .
    moreover have "replay (disk b') (recovery_writes (disk b') ?st) b = view (bc s) b"
    proof (cases "length (commit_writes s) \<le> nat (lh_n (lg s))")
      case True
      then have "lh_n (lg s) = 0" using inv(5) by (auto simp: commit_writes_def log_writes_def split: if_splits)
      then show ?thesis
        using commit_crash(2) [OF assms(1,2) b, of 0] bio.clean_view [OF inv(1), of b] inv(9) assms(2)
        by (simp add: p(4) commit_writes_def)
    next
      case False
      then show ?thesis using commit_crash(2) [OF assms(1,2) b, of "length (commit_writes s)"] by (simp add: p(4))
    qed
    ultimately show ?thesis
      using bio.clean_view [OF bi, of b] nd assms(2) by (simp add: s' p(3))
  qed
qed

lemma log_slot_bound: "log_slot l x \<le> nat (lh_n l)"
  using length_takeWhile_le [of _ "[0..<nat (lh_n l)]"] by (simp add: log_slot_def)

lemma log_slot_found: "log_slot l x < nat (lh_n l) \<Longrightarrow> lh_block l (log_slot l x) = x"
  using nth_length_takeWhile [of "\<lambda>i. lh_block l i \<noteq> x" "[0..<nat (lh_n l)]"] by (simp add: log_slot_def)

lemma log_slot_new: "log_slot l x = nat (lh_n l) \<Longrightarrow> i < nat (lh_n l) \<Longrightarrow> lh_block l i \<noteq> x"
  using takeWhile_eq_all_conv [of "\<lambda>i. lh_block l i \<noteq> x" "[0..<nat (lh_n l)]"]
    takeWhile_eq_take [of "\<lambda>i. lh_block l i \<noteq> x" "[0..<nat (lh_n l)]"]
  by (simp add: log_slot_def)

definition log_set :: "log \<Rightarrow> nat set" where
  "log_set l = lh_block l ` {..<nat (lh_n l)}"

text \<open>The header update of \<open>log_write\<close>.\<close>

definition log_add :: "nat \<Rightarrow> log \<Rightarrow> log" where
  "log_add x l =
     (let i = log_slot l x; l' = l\<lparr>lh_block := (lh_block l)(i := x)\<rparr>
      in if int i = lh_n l' then l'\<lparr>lh_n := lh_n l' + 1\<rparr> else l')"

lemma log_add_facts:
  assumes "0 \<le> lh_n l" and "inj_on (lh_block l) {..<nat (lh_n l)}"
  shows "log_set (log_add x l) = insert x (log_set l)"
    and "inj_on (lh_block (log_add x l)) {..<nat (lh_n (log_add x l))}"
    and "lh_n (log_add x l) = lh_n l + (if x \<in> log_set l then 0 else 1)"
    and "l_start (log_add x l) = l_start l" and "l_size (log_add x l) = l_size l"
    and "l_dev (log_add x l) = l_dev l" and "l_outstanding (log_add x l) = l_outstanding l"
    and "l_committing (log_add x l) = l_committing l"
proof -
  let ?i = "log_slot l x" and ?n = "nat (lh_n l)"
  have "log_set (log_add x l) = insert x (log_set l) \<and>
    inj_on (lh_block (log_add x l)) {..<nat (lh_n (log_add x l))} \<and>
    lh_n (log_add x l) = lh_n l + (if x \<in> log_set l then 0 else 1)"
  proof (cases "?i = ?n")
    case True
    then have add: "log_add x l = l\<lparr>lh_block := (lh_block l)(?n := x), lh_n := lh_n l + 1\<rparr>"
      using assms(1) by (simp add: log_add_def)
    have "nat (lh_n l + 1) = Suc ?n" using assms(1) by simp
    moreover have "x \<notin> log_set l" using log_slot_new [OF True] by (auto simp: log_set_def)
    ultimately show ?thesis
      using assms(2) by (auto simp: add log_set_def lessThan_Suc inj_on_def)
  next
    case False
    then have lt: "?i < ?n" using log_slot_bound [of l x] by simp
    then have "lh_block l ?i = x" by (rule log_slot_found)
    then have "log_add x l = l" using lt by (simp add: log_add_def fun_upd_idem)
    moreover have "x \<in> log_set l"
      unfolding log_set_def using lt \<open>lh_block l ?i = x\<close> by (intro image_eqI [of _ _ ?i]) simp_all
    ultimately show ?thesis using assms(2) by auto
  qed
  then show "log_set (log_add x l) = insert x (log_set l)"
    "inj_on (lh_block (log_add x l)) {..<nat (lh_n (log_add x l))}"
    "lh_n (log_add x l) = lh_n l + (if x \<in> log_set l then 0 else 1)" by blast+
qed (simp_all add: log_add_def Let_def)

lemma log_inv_set:
  "log_inv s \<Longrightarrow> dirty (bc s) b \<longleftrightarrow> b \<in> log_set (lg s)"
  using log_invD(9) by (simp add: log_set_def)

lemma log_inv_card_set: "log_inv s \<Longrightarrow> card (log_set (lg s)) = nat (lh_n (lg s))"
  using log_invD(7) [of s] by (simp add: log_set_def card_image)

lemma log_write_ok:
  assumes "log_inv s" and "held me (bc s) i blk"
    and "home (disksize (bc s)) (l_start (lg s)) (l_size (lg s)) blk"
    and "1 \<le> l_outstanding (lg s)" and "lh_n (lg s) + 1 < int (l_size (lg s))"
  shows "log_write i s = Ret () (s\<lparr>lg := log_add blk (lg s), bc := set_dirty i (bc s)\<rparr>)"
    and "log_inv (s\<lparr>lg := log_add blk (lg s), bc := set_dirty i (bc s)\<rparr>)"
    and "babs (set_dirty i (bc s)) = (babs (bc s))\<lparr>s_dirty := (dirty (bc s))(blk := True)\<rparr>"
proof -
  note inv = log_invD [OF assms(1)]
  note sd = bio.set_dirty_ok [OF inv(1) assms(2)]
  note p = babs_proj [of "set_dirty i (bc s)", OF conjunct1 [OF conjunct2 [OF sd]], simplified]
  note add = log_add_facts [OF inv(5,7), of blk]
  have sz: "int (l_size (lg s)) \<le> LOGSIZE"
    using inv(2) by (auto simp: sb_ok_def geometry_def LOGSIZE_def MAXOPBLOCKS_def NBUF_def)
  have "b_blockno (bufs (bc s) i) = blk" using assms(2) by (simp add: held_def holds_def)
  then show "log_write i s = Ret () (s\<lparr>lg := log_add blk (lg s), bc := set_dirty i (bc s)\<rparr>)"
    using assms(4,5) sz by (simp add: log_write_def log_add_def Let_def)
  show "babs (set_dirty i (bc s)) = (babs (bc s))\<lparr>s_dirty := (dirty (bc s))(blk := True)\<rparr>"
    using sd by simp
  have "\<forall>t<nat (lh_n (log_add blk (lg s))). home (disksize (bc s)) (l_start (lg s)) (l_size (lg s)) (lh_block (log_add blk (lg s)) t)"
  proof (intro allI impI)
    fix t assume "t < nat (lh_n (log_add blk (lg s)))"
    then have "lh_block (log_add blk (lg s)) t \<in> insert blk (log_set (lg s))"
      unfolding add(1) [symmetric] by (auto simp: log_set_def)
    then show "home (disksize (bc s)) (l_start (lg s)) (l_size (lg s)) (lh_block (log_add blk (lg s)) t)"
      using assms(3) inv(8) by (auto simp: log_set_def)
  qed
  moreover have "\<forall>b. ((dirty (bc s))(blk := True)) b \<longleftrightarrow> b \<in> log_set (log_add blk (lg s))"
    using log_inv_set [OF assms(1)] by (simp add: add(1))
  ultimately show "log_inv (s\<lparr>lg := log_add blk (lg s), bc := set_dirty i (bc s)\<rparr>)"
    using inv sd add assms(5) by (simp add: log_inv_def Let_def p log_set_def)
qed

subsection \<open>The log meets its contract\<close>

definition lbread :: "int \<Rightarrow> nat \<Rightarrow> nat \<Rightarrow> lstate \<Rightarrow> (nat, lstate) outcome" where
  "lbread me dev blk = on_bc (bread me dev blk)"

definition lbrelse :: "int \<Rightarrow> nat \<Rightarrow> lstate \<Rightarrow> (unit, lstate) outcome" where
  "lbrelse me i = on_bc (brelse me i)"

definition ldata :: "lstate \<Rightarrow> nat \<Rightarrow> byte list" where
  "ldata s i = bdata (bc s) i"

definition lset_data :: "nat \<Rightarrow> byte list \<Rightarrow> lstate \<Rightarrow> lstate" where
  "lset_data i d s = s\<lparr>bc := set_data i d (bc s)\<rparr>"

definition lheld :: "int \<Rightarrow> lstate \<Rightarrow> nat \<Rightarrow> nat \<Rightarrow> bool" where
  "lheld me s = held me (bc s)"

definition tabs :: "lstate \<Rightarrow> tstore" where
  "tabs s = \<lparr>t_view = view (bc s), t_disk = disk (bc s), t_log = log_set (lg s),
     t_locked = locked (bc s), t_size = disksize (bc s),
     t_home = home (disksize (bc s)) (l_start (lg s)) (l_size (lg s)),
     t_slots = l_size (lg s) - 1, t_open = (1 \<le> l_outstanding (lg s))\<rparr>"

lemma tabs_sel [simp]:
  "t_view (tabs s) = view (bc s)" "t_disk (tabs s) = disk (bc s)" "t_log (tabs s) = log_set (lg s)"
  "t_locked (tabs s) = locked (bc s)" "t_size (tabs s) = disksize (bc s)"
  "t_home (tabs s) = home (disksize (bc s)) (l_start (lg s)) (l_size (lg s))"
  "t_slots (tabs s) = l_size (lg s) - 1" "t_open (tabs s) = (1 \<le> l_outstanding (lg s))"
  by (simp_all add: tabs_def)

lemma t_busy_tabs: "log_inv s \<Longrightarrow> t_busy (tabs s) = s_busy (babs (bc s))"
  using log_inv_set [of s] by (auto simp: t_busy_def s_busy_def)

text \<open>A change of the cache that keeps the disk and the pinned blocks keeps the invariant.\<close>

lemma log_inv_bc:
  assumes "log_inv s" and "bio_inv b" and "disk b = disk (bc s)" and "disksize b = disksize (bc s)"
    and "dirty b = dirty (bc s)"
  shows "log_inv (s\<lparr>bc := b\<rparr>)"
  using log_invD [OF assms(1)] assms(2-5) by (simp add: log_inv_def Let_def)

interpretation lst: logged_store lbread log_write lbrelse ldata lset_data log_inv lheld tabs NBUF
proof unfold_locales
  fix s blk me
  assume inv: "log_inv s"
  note b = log_invD(1) [OF inv]
  show "\<exists>i s'. lbread me 1 blk s = Ret i s' \<and> log_inv s' \<and> lheld me s' i blk \<and>
      tabs s' = (tabs s)\<lparr>t_locked := (t_locked (tabs s))(blk := True)\<rparr> \<and>
      (\<forall>j b. lheld me s j b \<longrightarrow> lheld me s' j b)"
    if pre: "blk < t_size (tabs s)" "\<not> t_locked (tabs s) blk"
      "blk \<in> t_log (tabs s) \<or> card (t_busy (tabs s)) < NBUF"
  proof -
    obtain i b' where 1: "bread me 1 blk (bc s) = Ret i b'" "bio_inv b'" "held me b' i blk"
      "babs b' = (babs (bc s))\<lparr>s_locked := (s_locked (babs (bc s)))(blk := True)\<rparr>"
      "\<forall>j b. held me (bc s) j b \<longrightarrow> held me b' j b"
      using bio.bread_ok [OF b, of blk me] pre log_inv_set [OF inv] t_busy_tabs [OF inv] by auto
    note p = babs_proj [OF 1(4), simplified]
    have "log_inv (s\<lparr>bc := b'\<rparr>)" using p by (intro log_inv_bc [OF inv 1(2)]) simp_all
    then show ?thesis
      using 1 p by (intro exI [of _ i] exI [of _ "s\<lparr>bc := b'\<rparr>"]) (simp add: lbread_def lheld_def tabs_def)
  qed
  show "log_inv (lset_data i d s) \<and>
      tabs (lset_data i d s) = (tabs s)\<lparr>t_view := (t_view (tabs s))(blk := d)\<rparr> \<and>
      (\<forall>j b. lheld me s j b \<longrightarrow> lheld me (lset_data i d s) j b)"
    if pre: "lheld me s i blk" "length d = BSIZE" for i d
  proof -
    have 1: "bio_inv (set_data i d (bc s))"
      "babs (set_data i d (bc s)) = (babs (bc s))\<lparr>s_view := (s_view (babs (bc s)))(blk := d)\<rparr>"
      "\<forall>j b. held me (bc s) j b \<longrightarrow> held me (set_data i d (bc s)) j b"
      using bio.set_data_ok [OF b] pre by (simp_all add: lheld_def)
    note p = babs_proj [OF 1(2), simplified]
    have "log_inv (lset_data i d s)"
      unfolding lset_data_def using p by (intro log_inv_bc [OF inv 1(1)]) simp_all
    then show ?thesis using 1 p by (simp add: lset_data_def lheld_def tabs_def)
  qed
  show "\<exists>s'. log_write i s = Ret () s' \<and> log_inv s' \<and>
      tabs s' = (tabs s)\<lparr>t_log := insert blk (t_log (tabs s))\<rparr> \<and>
      (\<forall>j b. lheld me s j b \<longrightarrow> lheld me s' j b)"
    if pre: "lheld me s i blk" "t_home (tabs s) blk" "t_open (tabs s)"
      "card (t_log (tabs s)) < t_slots (tabs s)" for i
  proof -
    have n: "lh_n (lg s) + 1 < int (l_size (lg s))" and o: "1 \<le> l_outstanding (lg s)"
      and h: "held me (bc s) i blk" and hm: "home (disksize (bc s)) (l_start (lg s)) (l_size (lg s)) blk"
      using pre log_inv_card_set [OF inv] log_invD(5) [OF inv] by (auto simp: lheld_def)
    note L = log_write_ok [OF inv h hm o n] and add = log_add_facts [OF log_invD(5,7) [OF inv], of blk]
    note p = babs_proj [OF L(3), simplified]
    have "\<forall>j b. held me (bc s) j b \<longrightarrow> held me (set_dirty i (bc s)) j b"
      using bio.set_dirty_ok [OF b h] by blast
    then show ?thesis
      using L(1,2) add p
      by (intro exI [of _ "s\<lparr>lg := log_add blk (lg s), bc := set_dirty i (bc s)\<rparr>"])
        (simp add: lheld_def tabs_def)
  qed
  show "\<exists>s'. lbrelse me i s = Ret () s' \<and> log_inv s' \<and>
      tabs s' = (tabs s)\<lparr>t_locked := (t_locked (tabs s))(blk := False)\<rparr> \<and>
      (\<forall>j b. lheld me s j b \<longrightarrow> j \<noteq> i \<longrightarrow> lheld me s' j b)"
    if pre: "lheld me s i blk" "blk \<in> t_log (tabs s) \<or> t_view (tabs s) blk = t_disk (tabs s) blk" for i
  proof -
    have h: "held me (bc s) i blk" using pre(1) by (simp add: lheld_def)
    obtain b' where 1: "brelse me i (bc s) = Ret () b'" "bio_inv b'"
      "babs b' = (babs (bc s))\<lparr>s_locked := (s_locked (babs (bc s)))(blk := False)\<rparr>"
      "\<forall>j b. held me (bc s) j b \<longrightarrow> j \<noteq> i \<longrightarrow> held me b' j b"
      using bio.brelse_ok [OF b h] pre(2) log_inv_set [OF inv] by auto
    note p = babs_proj [OF 1(3), simplified]
    have "log_inv (s\<lparr>bc := b'\<rparr>)" using p by (intro log_inv_bc [OF inv 1(2)]) simp_all
    then show ?thesis
      using 1 p by (intro exI [of _ "s\<lparr>bc := b'\<rparr>"]) (simp add: lbrelse_def lheld_def tabs_def)
  qed
  show "ldata s i = t_view (tabs s) blk" if "lheld me s i blk" for i
    using bio.held_data [OF b] that by (simp add: ldata_def lheld_def)
  show "t_locked (tabs s) blk \<and> blk < t_size (tabs s)" if "lheld me s i blk" for i
    using bio.held_locked [OF b] that by (simp add: lheld_def)
  show "blk = blk'" if "lheld me s i blk" "lheld me s i blk'" for i blk'
    using bio.held_inj [OF b] that by (simp add: lheld_def)
  show "length (t_view (tabs s) blk) = BSIZE" if "blk < t_size (tabs s)"
    using bio.view_length [OF b] that by simp
  show "t_view (tabs s) blk = t_disk (tabs s) blk" if "blk \<notin> t_log (tabs s)" "\<not> t_locked (tabs s) blk"
    using bio.clean_view [OF b] that log_inv_set [OF inv] by simp
  show "finite (t_busy (tabs s))" using bio.busy_finite [OF b] t_busy_tabs [OF inv] by simp
  show "blk < t_size (tabs s)" if "t_home (tabs s) blk" using that by (simp add: home_def)
qed

subsection \<open>A concrete log\<close>

text \<open>
  A disk of 100 blocks whose super block puts 30 log blocks at block 2, and the state after one
  operation changed block 50 and before it ends.
\<close>

definition ex_disk :: "nat \<Rightarrow> byte list" where
  "ex_disk b = (if b = 1 then put32 (put32 (replicate BSIZE 0) 12 30) 16 2 else replicate BSIZE 0)"

definition ex_run :: "(unit, lstate) outcome" where
  "ex_run =
     obind (initlog 1 1 (reset ex_disk 100)) (\<lambda>_ s.
     obind (begin_op s) (\<lambda>_ s.
     obind (lbread 1 1 50 s) (\<lambda>i s.
     obind (log_write i (lset_data i (replicate BSIZE 7) s)) (\<lambda>_ s. lbrelse 1 i s))))"

lemma get32_zero [simp]: "off + 4 \<le> n \<Longrightarrow> get32 (replicate n 0) off = 0"
  by (simp add: get32_def slice_def min_def un_le32_def numeral_eq_Suc)

lemma ex_disk_ok: "log_ok ex_disk 100 2 30" and "install_writes ex_disk 2 = []"
proof -
  have "head_n (ex_disk 2) = 0" by (simp add: head_n_def ex_disk_def BSIZE_def)
  moreover have "sb_logstart (decode_sb (ex_disk 1)) = 2" "sb_nlog (decode_sb (ex_disk 1)) = 30"
    by (simp_all add: decode_sb_def ex_disk_def BSIZE_def get32_put32_other)
  moreover have "length (ex_disk b) = BSIZE" for b by (simp add: ex_disk_def BSIZE_def)
  ultimately show "log_ok ex_disk 100 2 30" "install_writes ex_disk 2 = []"
    by (simp_all add: log_ok_def sb_ok_def geometry_def NBUF_def install_writes_def)
qed

lemma ex_run_ok:
  "\<exists>s. ex_run = Ret () s \<and> log_inv s \<and> unlocked s \<and> lh_n (lg s) = 1 \<and> l_size (lg s) = 30 \<and>
     l_start (lg s) = 2 \<and> disksize (bc s) = 100 \<and>
     l_outstanding (lg s) = 1 \<and> \<not> l_committing (lg s) \<and> view (bc s) 50 = replicate BSIZE 7 \<and>
     log_set (lg s) = {50}"
proof -
  obtain r where r: "initlog 1 1 (reset ex_disk 100) = Ret () r" using initlog_ok [OF ex_disk_ok(1), of 1] by blast
  note R = log_inv_initlog [OF ex_disk_ok(1) r]
  let ?s = "r\<lparr>lg := (lg r)\<lparr>l_outstanding := 1\<rparr>\<rparr>"
  have b: "begin_op r = Ret () ?s" using R by (simp add: begin_op_def LOGSIZE_def MAXOPBLOCKS_def)
  have inv: "log_inv ?s" using R(1) by (simp add: log_inv_def Let_def)
  have e: "t_log (tabs ?s) = {}" "t_busy (tabs ?s) = {}"
    using R(2,7) by (simp_all add: log_set_def t_busy_def)
  have pre: "\<not> t_locked (tabs ?s) 50" "t_home (tabs ?s) 50" "t_open (tabs ?s)"
    "50 \<in> t_log (tabs ?s) \<or> card (t_busy (tabs ?s)) < NBUF"
    "card (t_log (tabs ?s)) < t_slots (tabs ?s)" "length (replicate BSIZE 7) = BSIZE"
    using R(2,4-6) by (simp_all only: e, simp_all add: home_def NBUF_def)
  obtain i s1 s2 s3 where 1: "lbread 1 1 50 ?s = Ret i s1"
    "log_write i (lset_data i (replicate BSIZE 7) s1) = Ret () s2" "lbrelse 1 i s2 = Ret () s3"
    "log_inv s3" "tabs s3 = t_put 50 (replicate BSIZE 7) (tabs ?s)"
    by (rule lst.update_block [OF inv pre])
  have p: "view (bc s3) 50 = replicate BSIZE 7" "log_set (lg s3) = {50}" "unlocked s3"
    "disksize (bc s3) = 100"
    using arg_cong [OF 1(5), of t_view] arg_cong [OF 1(5), of t_log] arg_cong [OF 1(5), of t_locked]
      arg_cong [OF 1(5), of t_size] R(2,6) e by (simp_all add: fun_eq_iff)
  then have "lh_n (lg s3) = 1" using log_inv_card_set [OF 1(4)] log_invD(5) [OF 1(4)] by simp
  moreover have "l_start (lg s3) = 2 \<and> l_size (lg s3) = 30 \<and> l_outstanding (lg s3) = 1 \<and> \<not> l_committing (lg s3)"
    using 1(1-3) R(4,5,8,9)
    by (auto simp: lbread_def lbrelse_def on_bc_def olift_Ret_iff log_write_def Let_def lset_data_def split: if_splits)
  moreover have "ex_run = Ret () s3" using r b 1(1-3) by (simp add: ex_run_def)
  ultimately show ?thesis using 1(4) p by blast
qed

subsection \<open>Properties\<close>

text \<open>
  C1: a commit is atomic with respect to crashes. From a state of the log between operations,
  \<open>commit\<close> returns; and if the machine stops after any number \<open>k\<close> of the sector writes
  it made, and then stops again any number of times during recovery, the next \<open>initlog\<close>
  returns with a consistent log, and the disk outside the log region holds all the old contents
  when the header had not been written (\<open>k\<close> at most the number of logged blocks), and all
  the new ones otherwise.
\<close>

theorem commit_atomic:
  assumes "log_inv s" and "unlocked s"
  shows "\<exists>s'. commit me s = Ret () s' \<and>
    (\<forall>k e. crash_star (disksize (bc s))
        (replay (disk (bc s)) (take k (drop (length (writes (bc s))) (writes (bc s'))))) e \<longrightarrow>
      (\<exists>r. initlog me' 1 (reset e (disksize (bc s))) = Ret () r \<and> log_inv r \<and>
        (\<forall>b. outside s b \<longrightarrow>
          disk (bc r) b = (if k \<le> nat (lh_n (lg s)) then disk (bc s) b else view (bc s) b))))"
proof -
  let ?N = "disksize (bc s)" and ?st = "l_start (lg s)" and ?sz = "l_size (lg s)"
  obtain s' where s': "commit me s = Ret () s'" using commit_ok [OF assms, of me] by blast
  have w: "drop (length (writes (bc s))) (writes (bc s')) = commit_writes s"
    using commit_inv(4) [OF assms s'] by simp
  have "\<exists>r. initlog me' 1 (reset e ?N) = Ret () r \<and> log_inv r \<and> (\<forall>b. outside s b \<longrightarrow>
      disk (bc r) b = (if k \<le> nat (lh_n (lg s)) then disk (bc s) b else view (bc s) b))"
    if "crash_star ?N (replay (disk (bc s)) (take k (commit_writes s))) e" for k e
  proof -
    note C = crash_star_ok [OF that commit_crash(1) [OF assms]]
    then have ok: "log_ok e ?N ?st ?sz" by blast
    obtain r where r: "initlog me' 1 (reset e ?N) = Ret () r" using initlog_ok [OF ok, of me'] by blast
    have "disk (bc r) b = (if k \<le> nat (lh_n (lg s)) then disk (bc s) b else view (bc s) b)"
      if b: "outside s b" for b
      using initlog_writes(2) [OF ok r] C commit_crash(2) [OF assms b, where k = k] outside_start [OF assms(1) b]
      by simp
    then show ?thesis using r log_inv_initlog(1) [OF ok r] by blast
  qed
  then show ?thesis using s' w by auto
qed

theorem commit_atomic_witness:
  "\<exists>s s'. ex_run = Ret () s \<and> lh_n (lg s) = 1 \<and> commit 1 s = Ret () s' \<and>
    (\<forall>k e. crash_star 100 (replay (disk (bc s)) (take k (drop (length (writes (bc s))) (writes (bc s'))))) e \<longrightarrow>
      (\<exists>r. initlog 1 1 (reset e 100) = Ret () r \<and> log_inv r \<and>
        (\<forall>b. outside s b \<longrightarrow>
          disk (bc r) b = (if k \<le> 1 then disk (bc s) b else view (bc s) b))))"
proof -
  obtain s where s: "ex_run = Ret () s" "log_inv s" "unlocked s" "lh_n (lg s) = 1" "disksize (bc s) = 100"
    using ex_run_ok by blast
  have n: "nat (lh_n (lg s)) = 1" using s(4) by simp
  show ?thesis using commit_atomic [OF s(2,3), of 1 1, unfolded n s(5)] s(1,4) by blast
qed

text \<open>
  C13: when no buffer is locked, as at the end of the last operation, a commit returns without waiting, keeps the invariant of the log and empties it; outside the
  log region every block of the disk then holds what callers saw before, and callers see no change.
\<close>

theorem commit_installs:
  assumes "log_inv s" and "unlocked s"
  shows "\<exists>s'. commit me s = Ret () s' \<and> log_inv s' \<and> unlocked s' \<and> lh_n (lg s') = 0 \<and>
    (\<forall>b. outside s b \<longrightarrow> disk (bc s') b = view (bc s) b \<and> view (bc s') b = view (bc s) b)"
proof -
  obtain s' where s': "commit me s = Ret () s'" using commit_ok [OF assms, of me] by blast
  show ?thesis using commit_inv [OF assms s'] s' by auto
qed

theorem commit_installs_witness:
  "\<exists>s s'. ex_run = Ret () s \<and> commit 1 s = Ret () s' \<and> lh_n (lg s') = 0 \<and>
    disk (bc s') 50 = replicate BSIZE 7"
proof -
  obtain s where s: "ex_run = Ret () s" "log_inv s" "unlocked s" "l_start (lg s) = 2" "l_size (lg s) = 30"
    "view (bc s) 50 = replicate BSIZE 7"
    using ex_run_ok by blast
  have "outside s 50" by (simp add: outside_def s)
  then show ?thesis using commit_installs [OF s(2,3), of 1] s by metis
qed

text \<open>
  C9: starting the log on any disk whose super block and log header are well formed returns and
  establishes the invariant with an empty log and no operation outstanding. The blocks the header
  lists hold the logged copies, every other block outside the log region is as before.
\<close>

theorem initlog_recovers:
  assumes "log_ok d N st sz"
  shows "\<exists>r. initlog me 1 (reset d N) = Ret () r \<and> log_inv r \<and> unlocked r \<and> lh_n (lg r) = 0 \<and>
    l_outstanding (lg r) = 0 \<and>
    (\<forall>t<nat (head_n (d st)). disk (bc r) (head_block (d st) t) = d (st + t + 1)) \<and>
    (\<forall>b. outside r b \<and> b \<notin> head_block (d st) ` {..<nat (head_n (d st))} \<longrightarrow> disk (bc r) b = d b)"
proof -
  obtain r where r: "initlog me 1 (reset d N) = Ret () r" using initlog_ok [OF assms, of me] by blast
  note R = log_inv_initlog [OF assms r] and W = initlog_writes(2) [OF assms r]
  note F = install_writes_facts [OF assms]
  have "disk (bc r) (head_block (d st) t) = d (st + t + 1)" if t: "t < nat (head_n (d st))" for t
  proof -
    have m: "(head_block (d st) t, d (st + t + 1)) \<in> set (install_writes d st)"
      using t by (auto simp: install_writes_def)
    then have "head_block (d st) t \<noteq> st" using F(2) R(1,4,5) log_invD(2) [OF R(1)]
      by (auto simp: home_def sb_ok_def geometry_def)
    then show ?thesis using replay_distinct [OF F(1) m] by (simp add: W recovery_writes_def)
  qed
  moreover have "disk (bc r) b = d b"
    if b: "outside r b" "b \<notin> head_block (d st) ` {..<nat (head_n (d st))}" for b
  proof -
    have "b \<notin> fst ` set (install_writes d st)" using b(2) by (auto simp: install_writes_def)
    then show ?thesis using outside_start [OF R(1) b(1)] by (simp add: W recovery_writes_def R(4) replay_other)
  qed
  ultimately show ?thesis using r R by blast
qed

theorem initlog_recovers_witness:
  "log_ok ex_disk 100 2 30 \<and> (\<exists>r. initlog 1 1 (reset ex_disk 100) = Ret () r \<and> lh_n (lg r) = 0)"
  using initlog_recovers [OF ex_disk_ok(1), of 1] ex_disk_ok(1) by blast

text \<open>
  C27: inside an operation and below the capacity of the log, \<open>log_write\<close> on a held buffer of
  a home block returns, adds the block to the transaction unless it is there already
  (absorption), pins the buffer and keeps the invariant; contents, disk and locks do not change.
\<close>

theorem log_write_absorbs:
  assumes "log_inv s" and "held me (bc s) i blk"
    and "home (disksize (bc s)) (l_start (lg s)) (l_size (lg s)) blk"
    and "1 \<le> l_outstanding (lg s)" and "lh_n (lg s) + 1 < int (l_size (lg s))"
  shows "\<exists>s'. log_write i s = Ret () s' \<and> log_inv s' \<and> log_set (lg s') = insert blk (log_set (lg s)) \<and>
    lh_n (lg s') = lh_n (lg s) + (if dirty (bc s) blk then 0 else 1) \<and>
    dirty (bc s') blk \<and> view (bc s') = view (bc s) \<and> disk (bc s') = disk (bc s) \<and>
    locked (bc s') = locked (bc s)"
proof -
  note L = log_write_ok [OF assms] and add = log_add_facts [OF log_invD(5,7) [OF assms(1)], of blk]
  note p = babs_proj [OF L(3), simplified]
  show ?thesis using L(1,2) add log_inv_set [OF assms(1)] by (auto simp: p)
qed

theorem log_write_absorbs_witness:
  "\<exists>s i s1 s'. ex_run = Ret () s \<and> lbread 1 1 50 s = Ret i s1 \<and> log_write i s1 = Ret () s' \<and>
    lh_n (lg s') = 1 \<and> log_inv s'"
proof -
  obtain s where s: "ex_run = Ret () s" "log_inv s" "unlocked s" "lh_n (lg s) = 1" "l_size (lg s) = 30"
    "l_start (lg s) = 2" "disksize (bc s) = 100" "l_outstanding (lg s) = 1" "log_set (lg s) = {50}"
    using ex_run_ok by blast
  have "s_busy (babs (bc s)) = log_set (lg s)"
    using s(3) log_inv_set [OF s(2)] by (auto simp: s_busy_def)
  then obtain i s1 where 1: "lbread 1 1 50 s = Ret i s1" "log_inv s1" "lheld 1 s1 i 50"
    "tabs s1 = (tabs s)\<lparr>t_locked := (t_locked (tabs s))(50 := True)\<rparr>"
    using lst.bread_ok [OF s(2), of 50 1] s(3,4,7) log_inv_card_set [OF s(2)] t_busy_tabs [OF s(2)]
    by (auto simp: NBUF_def)
  have lg1: "lg s1 = lg s" using 1(1) by (auto simp: lbread_def on_bc_def olift_Ret_iff)
  have N: "disksize (bc s1) = 100" using arg_cong [OF 1(4), of t_size] s(7) by simp
  have d: "dirty (bc s1) 50" using log_inv_set [OF 1(2)] by (simp add: lg1 s)
  obtain s' where "log_write i s1 = Ret () s'" "log_inv s'" "lh_n (lg s') = 1"
    using log_write_absorbs [OF 1(2), of 1 i 50] 1(3) d by (auto simp: lheld_def lg1 N s home_def)
  then show ?thesis using s(1) 1(1) by blast
qed

text \<open>
  C26: \<open>end_op\<close> of an operation that is not the last one only lowers the count. The
  last one commits: it returns with an empty log, no commit running, and every block outside the
  log region on disk as callers saw it.
\<close>

theorem end_op_commits:
  assumes "log_inv s" and "unlocked s" and "\<not> l_committing (lg s)" and "1 \<le> l_outstanding (lg s)"
  shows "\<exists>s'. end_op me s = Ret () s' \<and> log_inv s' \<and> \<not> l_committing (lg s') \<and>
    l_outstanding (lg s') = l_outstanding (lg s) - 1 \<and>
    (if l_outstanding (lg s) = 1
     then lh_n (lg s') = 0 \<and> (\<forall>b. outside s b \<longrightarrow> disk (bc s') b = view (bc s) b)
     else bc s' = bc s \<and> lh_n (lg s') = lh_n (lg s))"
proof (cases "l_outstanding (lg s) = 1")
  case True
  let ?s = "s\<lparr>lg := (lg s)\<lparr>l_outstanding := 0, l_committing := True\<rparr>\<rparr>"
  have inv: "log_inv ?s" "unlocked ?s" using assms(1,2) by (simp_all add: log_inv_def Let_def)
  obtain s1 where s1: "commit me ?s = Ret () s1" using commit_ok [OF inv, of me] by blast
  note C = commit_inv [OF inv s1]
  have "end_op me s = Ret () (s1\<lparr>lg := (lg s1)\<lparr>l_committing := False\<rparr>\<rparr>)"
    using True assms(3) s1 by (simp add: end_op_def Let_def)
  moreover have "log_inv (s1\<lparr>lg := (lg s1)\<lparr>l_committing := False\<rparr>\<rparr>)"
    using C(1) by (simp add: log_inv_def Let_def)
  moreover have "disk (bc s1) b = view (bc s) b" if "outside s b" for b
    using C(6) [of b] that by (simp add: outside_def)
  ultimately show ?thesis using True C(3) by simp
next
  case False
  then have "end_op me s = Ret () (s\<lparr>lg := (lg s)\<lparr>l_outstanding := l_outstanding (lg s) - 1\<rparr>\<rparr>)"
    using assms(3) by (simp add: end_op_def Let_def)
  then show ?thesis using False assms by (simp add: log_inv_def Let_def)
qed

theorem end_op_commits_witness:
  "\<exists>s s'. ex_run = Ret () s \<and> end_op 1 s = Ret () s' \<and> lh_n (lg s') = 0 \<and>
    disk (bc s') 50 = replicate BSIZE 7"
proof -
  obtain s where s: "ex_run = Ret () s" "log_inv s" "unlocked s" "l_start (lg s) = 2" "l_size (lg s) = 30"
    "view (bc s) 50 = replicate BSIZE 7" "\<not> l_committing (lg s)" "l_outstanding (lg s) = 1"
    using ex_run_ok by blast
  have "outside s 50" by (simp add: outside_def s)
  then show ?thesis using end_op_commits [OF s(2,3,7), of 1] s by auto
qed

end
