(* ===== verification/CString.thy ===== *)
theory CString
  imports Prelude
begin

text \<open>
  The memory and string routines of the kernel (\<open>src/xv6/string.c\<close>) and those of the user
  library (\<open>src/xv6/ulib.c\<close>). A memory is a function from addresses to bytes, a pointer an
  address, so that source and destination may overlap. Strings that no routine modifies in place
  are byte lists without their final NUL; reading at the end gives 0.
\<close>

type_synonym mem = "nat \<Rightarrow> byte"

subsection \<open>Blocks of memory\<close>

text \<open>\<open>stosb\<close> and \<open>stosl\<close> (\<open>x86.h\<close>) store a byte, or a 32-bit word, \<open>n\<close> times.\<close>

fun stosb :: "mem \<Rightarrow> nat \<Rightarrow> byte \<Rightarrow> nat \<Rightarrow> mem" where
  "stosb m d c 0 = m"
| "stosb m d c (Suc n) = stosb (m(d := c)) (d + 1) c n"

definition store32 :: "mem \<Rightarrow> nat \<Rightarrow> u32 \<Rightarrow> mem" where
  "store32 m d w = (\<lambda>a. if d \<le> a \<and> a < d + 4 then le32 w ! (a - d) else m a)"

fun stosl :: "mem \<Rightarrow> nat \<Rightarrow> u32 \<Rightarrow> nat \<Rightarrow> mem" where
  "stosl m d w 0 = m"
| "stosl m d w (Suc n) = stosl (store32 m d w) (d + 4) w n"

definition memset :: "mem \<Rightarrow> nat \<Rightarrow> u32 \<Rightarrow> nat \<Rightarrow> mem" where
  "memset m dst c n =
     (if dst mod 4 = 0 \<and> n mod 4 = 0 then
        (let c = c AND 0xFF
         in stosl m dst (push_bit 24 c OR push_bit 16 c OR push_bit 8 c OR c) (n div 4))
      else stosb m dst (ucast c) n)"

fun memcmp :: "mem \<Rightarrow> nat \<Rightarrow> nat \<Rightarrow> nat \<Rightarrow> int" where
  "memcmp m s1 s2 0 = 0"
| "memcmp m s1 s2 (Suc n) =
     (if m s1 \<noteq> m s2 then uint (m s1) - uint (m s2) else memcmp m (s1 + 1) (s2 + 1) n)"

fun copy_up :: "mem \<Rightarrow> nat \<Rightarrow> nat \<Rightarrow> nat \<Rightarrow> mem" where
  "copy_up m d s 0 = m"
| "copy_up m d s (Suc n) = copy_up (m(d := m s)) (d + 1) (s + 1) n"

text \<open>\<open>copy_down m d s n\<close>: the pointers stand \<open>n\<close> bytes after \<open>d\<close> and \<open>s\<close>.\<close>

fun copy_down :: "mem \<Rightarrow> nat \<Rightarrow> nat \<Rightarrow> nat \<Rightarrow> mem" where
  "copy_down m d s 0 = m"
| "copy_down m d s (Suc n) = copy_down (m(d + n := m (s + n))) d s n"

definition memmove :: "mem \<Rightarrow> nat \<Rightarrow> nat \<Rightarrow> nat \<Rightarrow> mem" where
  "memmove m dst src n =
     (if src < dst \<and> dst < src + n then copy_down m dst src n else copy_up m dst src n)"

definition memcpy :: "mem \<Rightarrow> nat \<Rightarrow> nat \<Rightarrow> nat \<Rightarrow> mem" where
  "memcpy m dst src n = memmove m dst src n"

text \<open>The user library copies upwards in every case.\<close>

definition ulib_memmove :: "mem \<Rightarrow> nat \<Rightarrow> nat \<Rightarrow> int \<Rightarrow> mem" where
  "ulib_memmove m vdst vsrc n = copy_up m vdst vsrc (nat n)"

definition ulib_memset :: "mem \<Rightarrow> nat \<Rightarrow> u32 \<Rightarrow> nat \<Rightarrow> mem" where
  "ulib_memset m dst c n = stosb m dst (ucast c) n"

subsection \<open>Strings in memory\<close>

fun strncpy :: "mem \<Rightarrow> nat \<Rightarrow> nat \<Rightarrow> nat \<Rightarrow> mem" where
  "strncpy m s t 0 = m"
| "strncpy m s t (Suc n) =
     (let m = m(s := m t)
      in if m s \<noteq> 0 then strncpy m (s + 1) (t + 1) n else stosb m (s + 1) 0 n)"

text \<open>The loop of \<open>safestrcpy\<close> has \<open>n - 1\<close> steps; it returns the memory and \<open>s\<close>.\<close>

fun safestrcpy_loop :: "mem \<Rightarrow> nat \<Rightarrow> nat \<Rightarrow> nat \<Rightarrow> mem \<times> nat" where
  "safestrcpy_loop m s t 0 = (m, s)"
| "safestrcpy_loop m s t (Suc n) =
     (let m = m(s := m t)
      in if m s \<noteq> 0 then safestrcpy_loop m (s + 1) (t + 1) n else (m, s + 1))"

definition safestrcpy :: "mem \<Rightarrow> nat \<Rightarrow> nat \<Rightarrow> int \<Rightarrow> mem" where
  "safestrcpy m s t n =
     (if n \<le> 0 then m
      else let (m, s) = safestrcpy_loop m s t (nat (n - 1)) in m(s := 0))"

text \<open>\<open>strlen\<close> does not end on a memory without a NUL.\<close>

partial_function (option) strlen_from :: "mem \<Rightarrow> nat \<Rightarrow> nat \<Rightarrow> nat option" where
  "strlen_from m s n = (if m (s + n) = 0 then Some n else strlen_from m s (n + 1))"

definition strlen :: "mem \<Rightarrow> nat \<Rightarrow> nat option" where
  "strlen m s = strlen_from m s 0"

partial_function (option) strcpy :: "mem \<Rightarrow> nat \<Rightarrow> nat \<Rightarrow> mem option" where
  "strcpy m s t =
     (let m' = m(s := m t) in if m' s \<noteq> 0 then strcpy m' (s + 1) (t + 1) else Some m')"

subsection \<open>Strings as byte lists\<close>

definition ch :: "byte list \<Rightarrow> byte" where
  "ch s = (case s of [] \<Rightarrow> 0 | c # _ \<Rightarrow> c)"

lemma ch_simps [simp]: "ch [] = 0" "ch (c # s) = c"
  by (simp_all add: ch_def)

fun strncmp :: "byte list \<Rightarrow> byte list \<Rightarrow> nat \<Rightarrow> int" where
  "strncmp p q 0 = 0"
| "strncmp p q (Suc n) =
     (if ch p \<noteq> 0 \<and> ch p = ch q then strncmp (tl p) (tl q) n else uint (ch p) - uint (ch q))"

fun strcmp :: "byte list \<Rightarrow> byte list \<Rightarrow> int" where
  "strcmp (c # p) q =
     (if c \<noteq> 0 \<and> c = ch q then strcmp p (tl q) else uint c - uint (ch q))"
| "strcmp [] q = 0 - uint (ch q)"

fun strchr :: "byte list \<Rightarrow> byte \<Rightarrow> byte list option" where
  "strchr [] c = None"
| "strchr (x # s) c = (if x = 0 then None else if x = c then Some (x # s) else strchr s c)"

text \<open>The value of \<open>atoi\<close> as a 32-bit \<open>int\<close>.\<close>

fun atoi_from :: "byte list \<Rightarrow> u32 \<Rightarrow> u32" where
  "atoi_from s n =
     (case s of [] \<Rightarrow> n
      | c # s \<Rightarrow> if 48 \<le> c \<and> c \<le> 57 then atoi_from s (n * 10 + ucast c - 48) else n)"

definition atoi :: "byte list \<Rightarrow> int" where
  "atoi s = sint (atoi_from s 0)"

text \<open>The \<open>n\<close> bytes that \<open>strncpy\<close> stores when source and destination do not overlap.\<close>

fun strncpy_bytes :: "byte list \<Rightarrow> nat \<Rightarrow> byte list" where
  "strncpy_bytes t 0 = []"
| "strncpy_bytes t (Suc n) = (if ch t \<noteq> 0 then ch t # strncpy_bytes (tl t) n else 0 # replicate n 0)"

subsection \<open>Blocks of memory: what the loops do\<close>

lemma stosb_eq: "stosb m d c n = (\<lambda>a. if d \<le> a \<and> a < d + n then c else m a)"
  by (induction n arbitrary: m d) (auto simp: fun_eq_iff)

lemma copy_up_eq:
  assumes "d \<le> s \<or> s + n \<le> d"
  shows "copy_up m d s n = (\<lambda>a. if d \<le> a \<and> a < d + n then m (s + (a - d)) else m a)"
  using assms
proof (induction n arbitrary: m d s)
  case (Suc n)
  have pre: "d + 1 \<le> s + 1 \<or> s + 1 + n \<le> d + 1" using Suc.prems by linarith
  show ?case
  proof
    fix a
    consider "a = d" | "a \<noteq> d" by blast
    then show "copy_up m d s (Suc n) a = (if d \<le> a \<and> a < d + Suc n then m (s + (a - d)) else m a)"
      using Suc.prems by cases (auto simp: Suc.IH [OF pre])
  qed
qed (auto simp: fun_eq_iff)

lemma copy_down_eq:
  assumes "s \<le> d"
  shows "copy_down m d s n = (\<lambda>a. if d \<le> a \<and> a < d + n then m (s + (a - d)) else m a)"
  using assms by (induction n arbitrary: m) (auto simp: fun_eq_iff less_Suc_eq)

lemma stosl_eq:
  "stosl m d w n = (\<lambda>a. if d \<le> a \<and> a < d + 4 * n then le32 w ! ((a - d) mod 4) else m a)"
proof (induction n arbitrary: m d)
  case (Suc n)
  show ?case
  proof
    fix a
    consider "a < d" | "d \<le> a" "a < d + 4" | "d + 4 \<le> a" by linarith
    then show "stosl m d w (Suc n) a = (if d \<le> a \<and> a < d + 4 * Suc n then le32 w ! ((a - d) mod 4) else m a)"
    proof cases
      case 3
      then have "(a - d) mod 4 = (a - (d + 4)) mod 4"
        by (metis diff_diff_left le_add_diff_inverse2 le_diff_conv2 mod_add_self2 add.commute add_leD1)
      then show ?thesis using 3 by (auto simp: Suc.IH store32_def)
    qed (auto simp: Suc.IH store32_def)
  qed
qed (auto simp: fun_eq_iff)

lemma le32_nth_repeat:
  fixes c :: u32
  assumes "i < 4"
  defines "x \<equiv> c AND 0xFF"
  shows "le32 (push_bit 24 x OR push_bit 16 x OR push_bit 8 x OR x) ! i = (ucast c :: byte)"
proof -
  have x: "bit x n \<longleftrightarrow> n < 8 \<and> bit c n" for n
  proof -
    have "x = take_bit 8 c" by (simp add: x_def take_bit_eq_mask mask_eq_exp_minus_1)
    then show ?thesis by (simp add: bit_take_bit_iff)
  qed
  consider "i = 0" | "i = 1" | "i = 2" | "i = 3" using assms(1) by linarith
  then show ?thesis
    by cases (auto intro!: bit_word_eqI simp: le32_def bit_ucast_iff bit_or_iff bit_push_bit_iff
        bit_drop_bit_eq x)
qed

lemma memmove_eq:
  "memmove m dst src n = (\<lambda>a. if dst \<le> a \<and> a < dst + n then m (src + (a - dst)) else m a)"
proof (cases "src < dst \<and> dst < src + n")
  case True
  then show ?thesis by (simp add: memmove_def copy_down_eq)
next
  case False
  then have "dst \<le> src \<or> src + n \<le> dst" by linarith
  then show ?thesis unfolding memmove_def if_not_P [OF False] by (rule copy_up_eq)
qed

lemma memset_eq: "memset m dst c n = (\<lambda>a. if dst \<le> a \<and> a < dst + n then ucast c else m a)"
proof (cases "dst mod 4 = 0 \<and> n mod 4 = 0")
  case True
  then have "4 * (n div 4) = n" by auto
  moreover have "le32 (push_bit 24 (c AND 0xFF) OR push_bit 16 (c AND 0xFF) OR push_bit 8 (c AND 0xFF) OR (c AND 0xFF)) !
      ((a - dst) mod 4) = ucast c" for a
    by (rule le32_nth_repeat) simp
  ultimately show ?thesis unfolding memset_def if_P [OF True] Let_def stosl_eq by (simp only:)
next
  case False
  then show ?thesis by (auto simp: memset_def stosb_eq fun_eq_iff)
qed

subsection \<open>Strings: the bytes stored\<close>

text \<open>The bytes of a string at an address, up to \<open>n\<close> of them and up to the NUL.\<close>

fun cstr :: "mem \<Rightarrow> nat \<Rightarrow> nat \<Rightarrow> byte list" where
  "cstr m t 0 = []"
| "cstr m t (Suc n) = (if m t = 0 then [] else m t # cstr m (t + 1) n)"

lemma length_strncpy_bytes [simp]: "length (strncpy_bytes t n) = n"
  by (induction t n rule: strncpy_bytes.induct) auto

lemma cstr_cong: "(\<And>i. i < n \<Longrightarrow> m (t + i) = m' (t + i)) \<Longrightarrow> cstr m t n = cstr m' t n"
proof (induction n arbitrary: t)
  case (Suc n)
  have "m t = m' t" using Suc.prems [of 0] by simp
  moreover have "cstr m (t + 1) n = cstr m' (t + 1) n"
  proof (rule Suc.IH)
    show "m (t + 1 + i) = m' (t + 1 + i)" if "i < n" for i using Suc.prems [of "i + 1"] that by (simp add: ac_simps)
  qed
  ultimately show ?case by simp
qed simp

lemma strncpy_refines:
  assumes "s + n \<le> t \<or> t + n \<le> s"
  shows "strncpy m s t n = (\<lambda>a. if s \<le> a \<and> a < s + n then strncpy_bytes (cstr m t n) n ! (a - s) else m a)"
  using assms
proof (induction n arbitrary: m s t)
  case (Suc n)
  let ?m = "m(s := m t)"
  have pre: "s + 1 + n \<le> t + 1 \<or> t + 1 + n \<le> s + 1" using Suc.prems by auto
  have c: "cstr ?m (t + 1) n = cstr m (t + 1) n" using Suc.prems by (intro cstr_cong) auto
  show ?case
  proof (cases "m t = 0")
    case True
    then show ?thesis by (auto simp: fun_eq_iff stosb_eq nth_Cons split: nat.split)
  next
    case False
    show ?thesis
    proof
      fix a
      show "strncpy m s t (Suc n) a =
        (if s \<le> a \<and> a < s + Suc n then strncpy_bytes (cstr m t (Suc n)) (Suc n) ! (a - s) else m a)"
        using False by (cases "a = s") (auto simp: Suc.IH [OF pre] c nth_Cons' Let_def)
    qed
  qed
qed (auto simp: fun_eq_iff)

lemma strlen_from_ok:
  assumes "m (s + k) = 0" and "n \<le> k" and "\<And>i. n \<le> i \<Longrightarrow> i < k \<Longrightarrow> m (s + i) \<noteq> 0"
  shows "strlen_from m s n = Some k"
  using assms(2,3)
proof (induction "k - n" arbitrary: n)
  case 0
  then show ?case using assms(1) by (subst strlen_from.simps) simp
next
  case (Suc j)
  then have "strlen_from m s (n + 1) = Some k" by (intro Suc.hyps(1)) auto
  moreover have "m (s + n) \<noteq> 0" using Suc by auto
  ultimately show ?case by (subst strlen_from.simps) simp
qed

lemma safestrcpy_loop_ok:
  assumes "safestrcpy_loop m s t n = (m', s')"
  shows "s \<le> s' \<and> s' \<le> s + n \<and> (\<forall>a. a < s \<or> s + n \<le> a \<longrightarrow> m' a = m a) \<and>
    (\<forall>a. s \<le> a \<and> a + 1 < s' \<longrightarrow> m' a \<noteq> 0)"
  using assms
proof (induction n arbitrary: m s t)
  case (Suc n)
  show ?case
  proof (cases "m t = 0")
    case True
    then show ?thesis using Suc.prems by (auto simp: Let_def)
  next
    case False
    then have "safestrcpy_loop (m(s := m t)) (s + 1) (t + 1) n = (m', s')"
      using Suc.prems by (simp add: Let_def)
    from Suc.IH [OF this] have I: "s + 1 \<le> s'" "s' \<le> s + 1 + n"
      "\<forall>a. a < s + 1 \<or> s + 1 + n \<le> a \<longrightarrow> m' a = (m(s := m t)) a"
      "\<forall>a. s + 1 \<le> a \<and> a + 1 < s' \<longrightarrow> m' a \<noteq> 0" by blast+
    have "m' s = m t" using I(3) by simp
    then show ?thesis using I False by (auto, metis Suc_eq_plus1 le_antisym not_less_eq_eq)
  qed
qed auto

subsection \<open>Properties\<close>

text \<open>
  C37: \<open>memmove\<close> of the kernel copies correctly for all source and destination ranges,
  overlapping or not: the destination gets the bytes the source had before the call, and no other
  byte changes.
\<close>

theorem memmove_copies:
  "memmove m dst src n = (\<lambda>a. if dst \<le> a \<and> a < dst + n then m (src + (a - dst)) else m a)"
  by (rule memmove_eq)

text \<open>
  Both paths of \<open>memset\<close>, by words and by bytes, fill the range with the low byte of
  the value and change nothing else; the user library's version does the same.
\<close>

theorem memset_fills:
  "memset m dst c n = (\<lambda>a. if dst \<le> a \<and> a < dst + n then ucast c else m a) \<and>
   ulib_memset m dst c n = memset m dst c n"
  by (simp add: memset_eq ulib_memset_def stosb_eq)

text \<open>
  \<open>safestrcpy\<close> with a positive size writes only inside the destination and leaves a
  NUL-terminated string there, whatever the source: \<open>strlen\<close> of the result ends and is
  less than the size.
\<close>

theorem safestrcpy_terminates:
  assumes "0 < n"
  shows "\<exists>k. strlen (safestrcpy m s t n) s = Some k \<and> k < nat n \<and>
    (\<forall>a. a < s \<or> s + nat n \<le> a \<longrightarrow> safestrcpy m s t n a = m a)"
proof -
  obtain m' s' where L: "safestrcpy_loop m s t (nat (n - 1)) = (m', s')" by fastforce
  have r: "safestrcpy m s t n = m'(s' := 0)" using assms L by (simp add: safestrcpy_def)
  note ok = safestrcpy_loop_ok [OF L]
  define k where "k = (LEAST j. (m'(s' := 0)) (s + j) = 0)"
  have "(m'(s' := 0)) (s + (s' - s)) = 0" using ok by simp
  then have k: "(m'(s' := 0)) (s + k) = 0" "k \<le> s' - s" "\<And>j. j < k \<Longrightarrow> (m'(s' := 0)) (s + j) \<noteq> 0"
    unfolding k_def by (rule LeastI, rule Least_le) (auto dest: not_less_Least)
  have "strlen (safestrcpy m s t n) s = Some k"
    unfolding r strlen_def using k(1,3) by (intro strlen_from_ok) auto
  moreover have "k < nat n" using k(2) ok assms by auto
  moreover have "\<forall>a. a < s \<or> s + nat n \<le> a \<longrightarrow> safestrcpy m s t n a = m a"
    using ok assms unfolding r by auto
  ultimately show ?thesis by blast
qed

theorem safestrcpy_terminates_witness:
  "\<exists>k. strlen (safestrcpy (\<lambda>a. 7) 100 200 4) 100 = Some k \<and> k < 4"
  using safestrcpy_terminates [of 4 "\<lambda>a. 7" 100 200] by auto

text \<open>
  The user library's \<open>memmove\<close> agrees with the kernel's when the destination does not
  start inside the source range, but not in general: moving three bytes up by one repeats the first.
\<close>

theorem ulib_memmove_overlap:
  "(dst \<le> src \<or> src + nat n \<le> dst \<longrightarrow> ulib_memmove m dst src n = memmove m dst src (nat n)) \<and>
   map (ulib_memmove (\<lambda>a. of_nat a) 1 0 3) [0, 1, 2, 3] = [0, 0, 0, 0] \<and>
   map (memmove (\<lambda>a. of_nat a) 1 0 3) [0, 1, 2, 3] = [0, 0, 1, 2]"
proof -
  have "\<not> (src < dst \<and> dst < src + nat n)" if "dst \<le> src \<or> src + nat n \<le> dst" using that by linarith
  then have "dst \<le> src \<or> src + nat n \<le> dst \<longrightarrow> ulib_memmove m dst src n = memmove m dst src (nat n)"
    by (auto simp: ulib_memmove_def memmove_def)
  then show ?thesis by (simp add: ulib_memmove_def memmove_def numeral_eq_Suc)
qed

theorem ulib_memmove_overlap_witness:
  "ulib_memmove (\<lambda>a. of_nat a) 0 1 3 = memmove (\<lambda>a. of_nat a) 0 1 3"
  using ulib_memmove_overlap [of 0 1 3 "\<lambda>a. of_nat a"] by simp

end
