(* ===== verification/Fs.thy ===== *)
theory Fs
  imports Log CString
begin

text \<open>
  The file system (\<open>src/xv6/fs.c\<close>): block allocation, the inode cache, the contents of
  inodes, directories and path names, over the log. An inode pointer is the index of the entry in
  \<open>icache.inode[NINODE]\<close>, a null pointer is \<open>None\<close>. On-disk integers are words;
  block numbers and offsets are natural numbers once they have passed the checks of the code. The
  device switch (\<open>devsw\<close>) is a table of function pointers and an argument of \<open>readi\<close>
  and \<open>writei\<close>. A caller's buffer is a byte list, returned by the routines that fill it.
\<close>

definition BPB :: nat where "BPB = BSIZE * 8"
definition IPB :: nat where "IPB = BSIZE div 64"
definition NDIRECT :: nat where "NDIRECT = 12"
definition NINDIRECT :: nat where "NINDIRECT = BSIZE div 4"
definition MAXFILE :: nat where "MAXFILE = NDIRECT + NINDIRECT"
definition NINODE :: nat where "NINODE = 50"
definition NDEV :: int where "NDEV = 10"
definition DIRSIZ :: nat where "DIRSIZ = 14"
definition ROOTDEV :: nat where "ROOTDEV = 1"
definition ROOTINO :: nat where "ROOTINO = 1"
definition T_DIR :: u16 where "T_DIR = 1"
definition T_FILE :: u16 where "T_FILE = 2"
definition T_DEV :: u16 where "T_DEV = 3"

text \<open>The on-disk inode: 64 bytes.\<close>

record dinode =
  d_type :: u16
  d_major :: u16
  d_minor :: u16
  d_nlink :: u16
  d_size :: u32
  d_addrs :: "u32 list"

definition enc_dinode :: "dinode \<Rightarrow> byte list" where
  "enc_dinode di = le16 (d_type di) @ le16 (d_major di) @ le16 (d_minor di) @ le16 (d_nlink di) @
     le32 (d_size di) @ concat (map le32 (d_addrs di))"

definition dec_dinode :: "byte list \<Rightarrow> dinode" where
  "dec_dinode d = \<lparr>d_type = get16 d 0, d_major = get16 d 2, d_minor = get16 d 4, d_nlink = get16 d 6,
     d_size = get32 d 8, d_addrs = map (\<lambda>i. get32 d (12 + 4 * i)) [0..<NDIRECT + 1]\<rparr>"

record inode =
  i_dev :: nat
  i_inum :: nat
  i_ref :: int
  i_lock :: sleeplock
  i_valid :: bool
  i_type :: u16
  i_major :: u16
  i_minor :: u16
  i_nlink :: u16
  i_size :: u32
  i_addrs :: "u32 list"

record fsstate =
  ls :: lstate
  fsb :: superblock
  icache :: "nat \<Rightarrow> inode"

definition BBLOCK :: "nat \<Rightarrow> superblock \<Rightarrow> nat" where
  "BBLOCK b sb = b div BPB + sb_bmapstart sb"

definition IBLOCK :: "nat \<Rightarrow> superblock \<Rightarrow> nat" where
  "IBLOCK i sb = i div IPB + sb_inodestart sb"

text \<open>Calls of the layers below.\<close>

definition on_ls :: "(lstate \<Rightarrow> ('a, lstate) outcome) \<Rightarrow> fsstate \<Rightarrow> ('a, fsstate) outcome" where
  "on_ls f s = olift (\<lambda>l. s\<lparr>ls := l\<rparr>) (f (ls s))"

definition fbread :: "int \<Rightarrow> nat \<Rightarrow> nat \<Rightarrow> fsstate \<Rightarrow> (nat, fsstate) outcome" where
  "fbread me dev blk = on_ls (lbread me dev blk)"

definition fbrelse :: "int \<Rightarrow> nat \<Rightarrow> fsstate \<Rightarrow> (unit, fsstate) outcome" where
  "fbrelse me bp = on_ls (lbrelse me bp)"

definition flog_write :: "nat \<Rightarrow> fsstate \<Rightarrow> (unit, fsstate) outcome" where
  "flog_write bp = on_ls (log_write bp)"

definition fdata :: "fsstate \<Rightarrow> nat \<Rightarrow> byte list" where
  "fdata s bp = ldata (ls s) bp"

definition fset_data :: "nat \<Rightarrow> byte list \<Rightarrow> fsstate \<Rightarrow> fsstate" where
  "fset_data bp d s = s\<lparr>ls := lset_data bp d (ls s)\<rparr>"

definition set_inode :: "nat \<Rightarrow> inode \<Rightarrow> fsstate \<Rightarrow> fsstate" where
  "set_inode ip i s = s\<lparr>icache := (icache s)(ip := i)\<rparr>"

subsection \<open>Blocks\<close>

definition bzero :: "int \<Rightarrow> nat \<Rightarrow> nat \<Rightarrow> fsstate \<Rightarrow> (unit, fsstate) outcome" where
  "bzero me dev bno s =
     obind (fbread me dev bno s) (\<lambda>bp s.
     obind (flog_write bp (fset_data bp (replicate BSIZE 0) s)) (\<lambda>_ s. fbrelse me bp s))"

text \<open>The bit of block \<open>bi\<close> in a bitmap block.\<close>

definition bmask :: "nat \<Rightarrow> byte" where
  "bmask bi = push_bit (bi mod 8) 1"

definition is_free :: "byte list \<Rightarrow> nat \<Rightarrow> bool" where
  "is_free d bi \<longleftrightarrow> (d ! (bi div 8)) AND bmask bi = 0"

definition mark_used :: "nat \<Rightarrow> byte list \<Rightarrow> byte list" where
  "mark_used bi d = d[bi div 8 := (d ! (bi div 8)) OR bmask bi]"

definition mark_free :: "nat \<Rightarrow> byte list \<Rightarrow> byte list" where
  "mark_free bi d = d[bi div 8 := (d ! (bi div 8)) AND NOT (bmask bi)]"

text \<open>\<open>sb\<close> is the global super block, which no routine changes after \<open>iinit\<close>.\<close>

function balloc_loop :: "int \<Rightarrow> nat \<Rightarrow> superblock \<Rightarrow> nat \<Rightarrow> fsstate \<Rightarrow> (nat, fsstate) outcome" where
  "balloc_loop me dev sb b s =
     (if b < sb_size sb then
        obind (fbread me dev (BBLOCK b sb) s) (\<lambda>bp s.
          case List.find (is_free (fdata s bp)) [0..<min BPB (sb_size sb - b)] of
            Some bi \<Rightarrow>
              obind (flog_write bp (fset_data bp (mark_used bi (fdata s bp)) s)) (\<lambda>_ s.
              obind (fbrelse me bp s) (\<lambda>_ s.
              obind (bzero me dev (b + bi) s) (\<lambda>_ s. Ret (b + bi) s)))
          | None \<Rightarrow> obind (fbrelse me bp s) (\<lambda>_ s. balloc_loop me dev sb (b + BPB) s))
      else Panic ''balloc: out of blocks'')"
  by auto
termination
  by (relation "measure (\<lambda>(me, dev, sb, b, s). sb_size sb - b)") (auto simp: BPB_def BSIZE_def)

declare balloc_loop.simps [simp del]

definition balloc :: "int \<Rightarrow> nat \<Rightarrow> fsstate \<Rightarrow> (nat, fsstate) outcome" where
  "balloc me dev s = balloc_loop me dev (fsb s) 0 s"

definition bfree :: "int \<Rightarrow> nat \<Rightarrow> nat \<Rightarrow> fsstate \<Rightarrow> (unit, fsstate) outcome" where
  "bfree me dev b s =
     obind (fbread me dev (BBLOCK b (fsb s)) s) (\<lambda>bp s.
       let bi = b mod BPB in
       if is_free (fdata s bp) bi then Panic ''freeing free block''
       else obind (flog_write bp (fset_data bp (mark_free bi (fdata s bp)) s)) (\<lambda>_ s. fbrelse me bp s))"

subsection \<open>Inodes\<close>

definition iinit :: "int \<Rightarrow> nat \<Rightarrow> fsstate \<Rightarrow> (unit, fsstate) outcome" where
  "iinit me dev s =
     (let s = s\<lparr>icache := (\<lambda>i. if i < NINODE then (icache s i)\<lparr>i_lock := initsleeplock\<rparr> else icache s i)\<rparr>
      in obind (on_ls (on_bc (readsb me dev)) s) (\<lambda>sb s. Ret () (s\<lparr>fsb := sb\<rparr>)))"

definition iget :: "nat \<Rightarrow> nat \<Rightarrow> fsstate \<Rightarrow> (nat, fsstate) outcome" where
  "iget dev inum s =
     (case List.find (\<lambda>i. 0 < i_ref (icache s i) \<and> i_dev (icache s i) = dev \<and> i_inum (icache s i) = inum)
             [0..<NINODE] of
        Some ip \<Rightarrow> Ret ip (set_inode ip ((icache s ip)\<lparr>i_ref := i_ref (icache s ip) + 1\<rparr>) s)
      | None \<Rightarrow>
         (case List.find (\<lambda>i. i_ref (icache s i) = 0) [0..<NINODE] of
            None \<Rightarrow> Panic ''iget: no inodes''
          | Some ip \<Rightarrow> Ret ip (set_inode ip ((icache s ip)\<lparr>i_dev := dev, i_inum := inum, i_ref := 1,
              i_valid := False\<rparr>) s)))"

text \<open>The 64 bytes of inode \<open>inum\<close> in its block.\<close>

definition dip_off :: "nat \<Rightarrow> nat" where
  "dip_off inum = 64 * (inum mod IPB)"

definition get_dinode :: "byte list \<Rightarrow> nat \<Rightarrow> dinode" where
  "get_dinode d inum = dec_dinode (slice d (dip_off inum) 64)"

definition put_dinode :: "nat \<Rightarrow> dinode \<Rightarrow> byte list \<Rightarrow> byte list" where
  "put_dinode inum di d = patch d (dip_off inum) (enc_dinode di)"

definition free_dinode :: "u16 \<Rightarrow> dinode" where
  "free_dinode type = \<lparr>d_type = type, d_major = 0, d_minor = 0, d_nlink = 0, d_size = 0,
     d_addrs = replicate (NDIRECT + 1) 0\<rparr>"

fun ialloc_loop :: "int \<Rightarrow> nat \<Rightarrow> u16 \<Rightarrow> nat list \<Rightarrow> fsstate \<Rightarrow> (nat, fsstate) outcome" where
  "ialloc_loop me dev type [] s = Panic ''ialloc: no inodes''"
| "ialloc_loop me dev type (inum # inums) s =
     obind (fbread me dev (IBLOCK inum (fsb s)) s) (\<lambda>bp s.
       if d_type (get_dinode (fdata s bp) inum) = 0 then
         obind (flog_write bp (fset_data bp (put_dinode inum (free_dinode type) (fdata s bp)) s)) (\<lambda>_ s.
         obind (fbrelse me bp s) (\<lambda>_ s. iget dev inum s))
       else obind (fbrelse me bp s) (\<lambda>_ s. ialloc_loop me dev type inums s))"

definition ialloc :: "int \<Rightarrow> nat \<Rightarrow> u16 \<Rightarrow> fsstate \<Rightarrow> (nat, fsstate) outcome" where
  "ialloc me dev type s = ialloc_loop me dev type [1..<sb_ninodes (fsb s)] s"

definition to_dinode :: "inode \<Rightarrow> dinode" where
  "to_dinode i = \<lparr>d_type = i_type i, d_major = i_major i, d_minor = i_minor i, d_nlink = i_nlink i,
     d_size = i_size i, d_addrs = i_addrs i\<rparr>"

definition iupdate :: "int \<Rightarrow> nat \<Rightarrow> fsstate \<Rightarrow> (unit, fsstate) outcome" where
  "iupdate me ip s =
     (let i = icache s ip in
      obind (fbread me (i_dev i) (IBLOCK (i_inum i) (fsb s)) s) (\<lambda>bp s.
      obind (flog_write bp (fset_data bp (put_dinode (i_inum i) (to_dinode i) (fdata s bp)) s)) (\<lambda>_ s.
      fbrelse me bp s)))"

definition idup :: "nat \<Rightarrow> fsstate \<Rightarrow> (nat, fsstate) outcome" where
  "idup ip s = Ret ip (set_inode ip ((icache s ip)\<lparr>i_ref := i_ref (icache s ip) + 1\<rparr>) s)"

definition load_dinode :: "dinode \<Rightarrow> inode \<Rightarrow> inode" where
  "load_dinode di i = i\<lparr>i_type := d_type di, i_major := d_major di, i_minor := d_minor di,
     i_nlink := d_nlink di, i_size := d_size di, i_addrs := d_addrs di\<rparr>"

definition ilock_sleep :: "int \<Rightarrow> nat \<Rightarrow> fsstate \<Rightarrow> (unit, fsstate) outcome" where
  "ilock_sleep me ip s =
     (case acquiresleep me (i_lock (icache s ip)) of
        None \<Rightarrow> Sleep (InodeLock ip) s
      | Some lk \<Rightarrow> Ret () (set_inode ip ((icache s ip)\<lparr>i_lock := lk\<rparr>) s))"

definition ilock :: "int \<Rightarrow> nat option \<Rightarrow> fsstate \<Rightarrow> (unit, fsstate) outcome" where
  "ilock me ipo s =
     (case ipo of None \<Rightarrow> Panic ''ilock''
      | Some ip \<Rightarrow>
        if i_ref (icache s ip) < 1 then Panic ''ilock''
        else obind (ilock_sleep me ip s) (\<lambda>_ s.
          if i_valid (icache s ip) then Ret () s
          else
            let i = icache s ip in
            obind (fbread me (i_dev i) (IBLOCK (i_inum i) (fsb s)) s) (\<lambda>bp s.
              let s = set_inode ip (load_dinode (get_dinode (fdata s bp) (i_inum i)) (icache s ip)) s in
              obind (fbrelse me bp s) (\<lambda>_ s.
                let s = set_inode ip ((icache s ip)\<lparr>i_valid := True\<rparr>) s in
                if i_type (icache s ip) = 0 then Panic ''ilock: no type'' else Ret () s))))"

definition iunlock :: "int \<Rightarrow> nat option \<Rightarrow> fsstate \<Rightarrow> (unit, fsstate) outcome" where
  "iunlock me ipo s =
     (case ipo of None \<Rightarrow> Panic ''iunlock''
      | Some ip \<Rightarrow>
        let i = icache s ip in
        if \<not> holdingsleep me (i_lock i) \<or> i_ref i < 1 then Panic ''iunlock''
        else Ret () (set_inode ip (i\<lparr>i_lock := releasesleep (i_lock i)\<rparr>) s))"

subsection \<open>Inode content\<close>

definition bmap :: "int \<Rightarrow> nat \<Rightarrow> nat \<Rightarrow> fsstate \<Rightarrow> (nat, fsstate) outcome" where
  "bmap me ip bn s =
     (let alloc = (\<lambda>k s. obind (balloc me (i_dev (icache s ip)) s) (\<lambda>addr s.
            Ret addr (set_inode ip ((icache s ip)\<lparr>i_addrs := (i_addrs (icache s ip))[k := of_nat addr]\<rparr>) s)))
      in
      if bn < NDIRECT then
        (if i_addrs (icache s ip) ! bn = 0 then alloc bn s
         else Ret (unat (i_addrs (icache s ip) ! bn)) s)
      else if bn - NDIRECT < NINDIRECT then
        let bn = bn - NDIRECT in
        obind (if i_addrs (icache s ip) ! NDIRECT = 0 then alloc NDIRECT s
               else Ret (unat (i_addrs (icache s ip) ! NDIRECT)) s) (\<lambda>addr s.
        obind (fbread me (i_dev (icache s ip)) addr s) (\<lambda>bp s.
          if get32 (fdata s bp) (4 * bn) = 0 then
            obind (balloc me (i_dev (icache s ip)) s) (\<lambda>addr s.
            obind (flog_write bp (fset_data bp (put32 (fdata s bp) (4 * bn) (of_nat addr)) s)) (\<lambda>_ s.
            obind (fbrelse me bp s) (\<lambda>_ s. Ret addr s)))
          else
            let addr = unat (get32 (fdata s bp) (4 * bn)) in
            obind (fbrelse me bp s) (\<lambda>_ s. Ret addr s)))
      else Panic ''bmap: out of range'')"

definition itrunc :: "int \<Rightarrow> nat \<Rightarrow> fsstate \<Rightarrow> (unit, fsstate) outcome" where
  "itrunc me ip s =
     obind (ofor [0..<NDIRECT] (\<lambda>i s.
         if i_addrs (icache s ip) ! i \<noteq> 0 then
           obind (bfree me (i_dev (icache s ip)) (unat (i_addrs (icache s ip) ! i)) s) (\<lambda>_ s.
             Ret () (set_inode ip ((icache s ip)\<lparr>i_addrs := (i_addrs (icache s ip))[i := 0]\<rparr>) s))
         else Ret () s) s) (\<lambda>_ s.
     obind (if i_addrs (icache s ip) ! NDIRECT \<noteq> 0 then
         obind (fbread me (i_dev (icache s ip)) (unat (i_addrs (icache s ip) ! NDIRECT)) s) (\<lambda>bp s.
         obind (ofor [0..<NINDIRECT] (\<lambda>j s.
             if get32 (fdata s bp) (4 * j) \<noteq> 0
             then bfree me (i_dev (icache s ip)) (unat (get32 (fdata s bp) (4 * j))) s
             else Ret () s) s) (\<lambda>_ s.
         obind (fbrelse me bp s) (\<lambda>_ s.
         obind (bfree me (i_dev (icache s ip)) (unat (i_addrs (icache s ip) ! NDIRECT)) s) (\<lambda>_ s.
           Ret () (set_inode ip ((icache s ip)\<lparr>i_addrs := (i_addrs (icache s ip))[NDIRECT := 0]\<rparr>) s)))))
       else Ret () s) (\<lambda>_ s.
     iupdate me ip (set_inode ip ((icache s ip)\<lparr>i_size := 0\<rparr>) s)))"

definition iput :: "int \<Rightarrow> nat \<Rightarrow> fsstate \<Rightarrow> (unit, fsstate) outcome" where
  "iput me ip s =
     obind (ilock_sleep me ip s) (\<lambda>_ s.
     obind (if i_valid (icache s ip) \<and> i_nlink (icache s ip) = 0 \<and> i_ref (icache s ip) = 1 then
         obind (itrunc me ip s) (\<lambda>_ s.
         obind (iupdate me ip (set_inode ip ((icache s ip)\<lparr>i_type := 0\<rparr>) s)) (\<lambda>_ s.
           Ret () (set_inode ip ((icache s ip)\<lparr>i_valid := False\<rparr>) s)))
       else Ret () s) (\<lambda>_ s.
       let s = set_inode ip ((icache s ip)\<lparr>i_lock := releasesleep (i_lock (icache s ip))\<rparr>) s
       in Ret () (set_inode ip ((icache s ip)\<lparr>i_ref := i_ref (icache s ip) - 1\<rparr>) s)))"

definition iunlockput :: "int \<Rightarrow> nat \<Rightarrow> fsstate \<Rightarrow> (unit, fsstate) outcome" where
  "iunlockput me ip s = obind (iunlock me (Some ip) s) (\<lambda>_ s. iput me ip s)"

record stat =
  st_type :: u16
  st_dev :: nat
  st_ino :: nat
  st_nlink :: u16
  st_size :: u32

definition stati :: "nat \<Rightarrow> fsstate \<Rightarrow> stat" where
  "stati ip s = \<lparr>st_type = i_type (icache s ip), st_dev = i_dev (icache s ip), st_ino = i_inum (icache s ip),
     st_nlink = i_nlink (icache s ip), st_size = i_size (icache s ip)\<rparr>"

text \<open>The entries of the device switch.\<close>

record devsw =
  dv_read :: "(nat \<Rightarrow> u32 \<Rightarrow> fsstate \<Rightarrow> (int \<times> byte list, fsstate) outcome) option"
  dv_write :: "(nat \<Rightarrow> byte list \<Rightarrow> fsstate \<Rightarrow> (int, fsstate) outcome) option"

function readi_loop :: "int \<Rightarrow> nat \<Rightarrow> nat \<Rightarrow> nat \<Rightarrow> fsstate \<Rightarrow> (byte list, fsstate) outcome" where
  "readi_loop me ip off rem s =
     (if rem = 0 then Ret [] s
      else
        obind (bmap me ip (off div BSIZE) s) (\<lambda>bn s.
        obind (fbread me (i_dev (icache s ip)) bn s) (\<lambda>bp s.
          let m = min rem (BSIZE - off mod BSIZE);
              x = slice (fdata s bp) (off mod BSIZE) m
          in obind (fbrelse me bp s) (\<lambda>_ s.
             obind (readi_loop me ip (off + m) (rem - m) s) (\<lambda>xs s. Ret (x @ xs) s)))))"
  by auto
termination
  by (relation "measure (\<lambda>(me, ip, off, rem, s). rem)") (auto simp: BSIZE_def)

declare readi_loop.simps [simp del]

definition readi :: "(nat \<Rightarrow> devsw) \<Rightarrow> int \<Rightarrow> nat \<Rightarrow> u32 \<Rightarrow> u32 \<Rightarrow> fsstate \<Rightarrow> (int \<times> byte list, fsstate) outcome" where
  "readi devsw me ip off n s =
     (let i = icache s ip in
      if i_type i = T_DEV then
        (if sint (i_major i) < 0 \<or> NDEV \<le> sint (i_major i) then Ret (-1, []) s
         else case dv_read (devsw (unat (i_major i))) of
             None \<Rightarrow> Ret (-1, []) s
           | Some f \<Rightarrow> f ip n s)
      else if i_size i < off \<or> off + n < off then Ret (-1, []) s
      else
        let n = (if i_size i < off + n then i_size i - off else n)
        in obind (readi_loop me ip (unat off) (unat n) s) (\<lambda>xs s. Ret (sint n, xs) s))"

function writei_loop :: "int \<Rightarrow> nat \<Rightarrow> byte list \<Rightarrow> nat \<Rightarrow> fsstate \<Rightarrow> (unit, fsstate) outcome" where
  "writei_loop me ip src off s =
     (if src = [] then Ret () s
      else
        obind (bmap me ip (off div BSIZE) s) (\<lambda>bn s.
        obind (fbread me (i_dev (icache s ip)) bn s) (\<lambda>bp s.
          let m = min (length src) (BSIZE - off mod BSIZE)
          in obind (flog_write bp (fset_data bp (patch (fdata s bp) (off mod BSIZE) (take m src)) s)) (\<lambda>_ s.
             obind (fbrelse me bp s) (\<lambda>_ s. writei_loop me ip (drop m src) (off + m) s)))))"
  by auto
termination
  by (relation "measure (\<lambda>(me, ip, src, off, s). length src)") (auto simp: BSIZE_def)

declare writei_loop.simps [simp del]

text \<open>\<open>src\<close> holds the \<open>n\<close> bytes to write.\<close>

definition writei :: "(nat \<Rightarrow> devsw) \<Rightarrow> int \<Rightarrow> nat \<Rightarrow> byte list \<Rightarrow> u32 \<Rightarrow> u32 \<Rightarrow> fsstate \<Rightarrow> (int, fsstate) outcome" where
  "writei devsw me ip src off n s =
     (let i = icache s ip in
      if i_type i = T_DEV then
        (if sint (i_major i) < 0 \<or> NDEV \<le> sint (i_major i) then Ret (-1) s
         else case dv_write (devsw (unat (i_major i))) of
             None \<Rightarrow> Ret (-1) s
           | Some f \<Rightarrow> f ip (take (unat n) src) s)
      else if i_size i < off \<or> off + n < off then Ret (-1) s
      else if of_nat (MAXFILE * BSIZE) < off + n then Ret (-1) s
      else
        obind (writei_loop me ip (take (unat n) src) (unat off) s) (\<lambda>_ s.
        obind (if 0 < n \<and> i_size (icache s ip) < off + n
               then iupdate me ip (set_inode ip ((icache s ip)\<lparr>i_size := off + n\<rparr>) s)
               else Ret () s) (\<lambda>_ s. Ret (sint n) s)))"

subsection \<open>Directories\<close>

definition namecmp :: "byte list \<Rightarrow> byte list \<Rightarrow> int" where
  "namecmp s t = strncmp s t DIRSIZ"

definition de_inum :: "byte list \<Rightarrow> u16" where
  "de_inum de = get16 de 0"

definition de_name :: "byte list \<Rightarrow> byte list" where
  "de_name de = slice de 2 DIRSIZ"

text \<open>\<open>sz\<close> is \<open>dp->size\<close>, which cannot change while the caller holds the directory.\<close>

function dirlookup_loop :: "(nat \<Rightarrow> devsw) \<Rightarrow> int \<Rightarrow> nat \<Rightarrow> byte list \<Rightarrow> nat \<Rightarrow> nat \<Rightarrow> fsstate \<Rightarrow>
    ((nat \<times> nat) option, fsstate) outcome" where
  "dirlookup_loop devsw me dp name sz off s =
     (if off < sz then
        obind (readi devsw me dp (of_nat off) 16 s) (\<lambda>(r, de) s.
          if r \<noteq> 16 then Panic ''dirlookup read''
          else if de_inum de = 0 then dirlookup_loop devsw me dp name sz (off + 16) s
          else if namecmp name (de_name de) = 0 then
            obind (iget (i_dev (icache s dp)) (unat (de_inum de)) s) (\<lambda>ip s. Ret (Some (ip, off)) s)
          else dirlookup_loop devsw me dp name sz (off + 16) s)
      else Ret None s)"
  by auto
termination
  by (relation "measure (\<lambda>(devsw, me, dp, name, sz, off, s). sz - off)") auto

declare dirlookup_loop.simps [simp del]

text \<open>The inode found, with the byte offset of its entry (\<open>*poff\<close>).\<close>

definition dirlookup :: "(nat \<Rightarrow> devsw) \<Rightarrow> int \<Rightarrow> nat \<Rightarrow> byte list \<Rightarrow> fsstate \<Rightarrow>
    ((nat \<times> nat) option, fsstate) outcome" where
  "dirlookup devsw me dp name s =
     (if i_type (icache s dp) \<noteq> T_DIR then Panic ''dirlookup not DIR''
      else dirlookup_loop devsw me dp name (unat (i_size (icache s dp))) 0 s)"

function dirlink_slot :: "(nat \<Rightarrow> devsw) \<Rightarrow> int \<Rightarrow> nat \<Rightarrow> nat \<Rightarrow> nat \<Rightarrow> fsstate \<Rightarrow> (nat, fsstate) outcome" where
  "dirlink_slot devsw me dp sz off s =
     (if off < sz then
        obind (readi devsw me dp (of_nat off) 16 s) (\<lambda>(r, de) s.
          if r \<noteq> 16 then Panic ''dirlink read''
          else if de_inum de = 0 then Ret off s
          else dirlink_slot devsw me dp sz (off + 16) s)
      else Ret off s)"
  by auto
termination
  by (relation "measure (\<lambda>(devsw, me, dp, sz, off, s). sz - off)") auto

declare dirlink_slot.simps [simp del]

definition enc_dirent :: "u16 \<Rightarrow> byte list \<Rightarrow> byte list" where
  "enc_dirent inum name = le16 inum @ strncpy_bytes name DIRSIZ"

definition dirlink :: "(nat \<Rightarrow> devsw) \<Rightarrow> int \<Rightarrow> nat \<Rightarrow> byte list \<Rightarrow> nat \<Rightarrow> fsstate \<Rightarrow> (int, fsstate) outcome" where
  "dirlink devsw me dp name inum s =
     obind (dirlookup devsw me dp name s) (\<lambda>r s.
       case r of
         Some (ip, _) \<Rightarrow> obind (iput me ip s) (\<lambda>_ s. Ret (-1) s)
       | None \<Rightarrow>
         obind (dirlink_slot devsw me dp (unat (i_size (icache s dp))) 0 s) (\<lambda>off s.
         obind (writei devsw me dp (enc_dirent (of_nat inum) name) (of_nat off) 16 s) (\<lambda>r s.
           if r \<noteq> 16 then Panic ''dirlink'' else Ret 0 s)))"

subsection \<open>Paths\<close>

text \<open>The character \<open>'/'\<close>.\<close>

abbreviation slash :: byte where "slash \<equiv> 47"

text \<open>
  The rest of the path and the \<open>name\<close> array of \<open>DIRSIZ\<close> bytes; an element shorter
  than that is followed by a NUL, and the bytes after it stay.
\<close>

definition skipelem :: "byte list \<Rightarrow> byte list \<Rightarrow> (byte list \<times> byte list) option" where
  "skipelem path name =
     (let path = dropWhile (\<lambda>c. c = slash) path in
      if ch path = 0 then None
      else
        let s = takeWhile (\<lambda>c. c \<noteq> slash \<and> c \<noteq> 0) path;
            path = dropWhile (\<lambda>c. c \<noteq> slash \<and> c \<noteq> 0) path;
            len = length s;
            name = (if DIRSIZ \<le> len then patch name 0 (take DIRSIZ s) else patch name 0 (s @ [0]))
        in Some (dropWhile (\<lambda>c. c = slash) path, name))"

lemma skipelem_shorter:
  assumes "skipelem path name = Some (rest, name')"
  shows "length rest < length path"
proof -
  let ?p = "dropWhile (\<lambda>c. c = slash) path"
  let ?P = "\<lambda>c. c \<noteq> slash \<and> c \<noteq> (0 :: byte)"
  have nz: "ch ?p \<noteq> 0" and r: "rest = dropWhile (\<lambda>c. c = slash) (dropWhile ?P ?p)"
    using assms by (auto simp: skipelem_def Let_def split: if_splits)
  then obtain c q where p: "?p = c # q" "c \<noteq> 0" by (cases ?p) auto
  then have "c \<noteq> slash" using hd_dropWhile [of "\<lambda>c. c = slash" path] by auto
  then have "dropWhile ?P ?p = dropWhile ?P q" using p by simp
  then have "length rest \<le> length q"
    using r le_trans [OF length_dropWhile_le length_dropWhile_le] by simp
  moreover have "length q < length path" using length_dropWhile_le [of "\<lambda>c. c = slash" path] p by simp
  ultimately show ?thesis by simp
qed

function namex_loop :: "(nat \<Rightarrow> devsw) \<Rightarrow> int \<Rightarrow> nat \<Rightarrow> byte list \<Rightarrow> bool \<Rightarrow> byte list \<Rightarrow> fsstate \<Rightarrow>
    (nat option \<times> byte list, fsstate) outcome" where
  "namex_loop devsw me ip path nameiparent name s =
     (case skipelem path name of
        Some (path, name) \<Rightarrow>
          obind (ilock me (Some ip) s) (\<lambda>_ s.
            if i_type (icache s ip) \<noteq> T_DIR then obind (iunlockput me ip s) (\<lambda>_ s. Ret (None, name) s)
            else if nameiparent \<and> ch path = 0 then obind (iunlock me (Some ip) s) (\<lambda>_ s. Ret (Some ip, name) s)
            else obind (dirlookup devsw me ip name s) (\<lambda>next s.
              case next of
                None \<Rightarrow> obind (iunlockput me ip s) (\<lambda>_ s. Ret (None, name) s)
              | Some (nxt, _) \<Rightarrow>
                  obind (iunlockput me ip s) (\<lambda>_ s. namex_loop devsw me nxt path nameiparent name s)))
      | None \<Rightarrow>
          if nameiparent then obind (iput me ip s) (\<lambda>_ s. Ret (None, name) s)
          else Ret (Some ip, name) s)"
  by auto
termination
  by (relation "measure (\<lambda>(devsw, me, ip, path, nameiparent, name, s). length path)")
    (auto dest: skipelem_shorter)

declare namex_loop.simps [simp del]

text \<open>\<open>cwd\<close> is \<open>myproc()->cwd\<close>.\<close>

definition namex :: "(nat \<Rightarrow> devsw) \<Rightarrow> int \<Rightarrow> nat \<Rightarrow> byte list \<Rightarrow> bool \<Rightarrow> byte list \<Rightarrow> fsstate \<Rightarrow>
    (nat option \<times> byte list, fsstate) outcome" where
  "namex devsw me cwd path nameiparent name s =
     obind (if ch path = slash then iget ROOTDEV ROOTINO s else idup cwd s)
       (\<lambda>ip s. namex_loop devsw me ip path nameiparent name s)"

text \<open>The \<open>name\<close> array of \<open>namei\<close> is a local variable.\<close>

definition namei :: "(nat \<Rightarrow> devsw) \<Rightarrow> int \<Rightarrow> nat \<Rightarrow> byte list \<Rightarrow> fsstate \<Rightarrow> (nat option, fsstate) outcome" where
  "namei devsw me cwd path s =
     obind (namex devsw me cwd path False (replicate DIRSIZ 0) s) (\<lambda>(ip, _) s. Ret ip s)"

definition nameiparent :: "(nat \<Rightarrow> devsw) \<Rightarrow> int \<Rightarrow> nat \<Rightarrow> byte list \<Rightarrow> byte list \<Rightarrow> fsstate \<Rightarrow>
    (nat option \<times> byte list, fsstate) outcome" where
  "nameiparent devsw me cwd path name s = namex devsw me cwd path True name s"

end
