(* ===== verification/Fs_Alloc.thy ===== *)
theory Fs_Alloc
  imports Fs
begin

text \<open>
  Block allocation: the bitmap as a set of used blocks, the effect of \<open>bzero\<close>,
  \<open>balloc\<close> and \<open>bfree\<close> on the contents that callers of the log see, and the panics.
\<close>

subsection \<open>Updates through the log\<close>

lemma on_ls_Ret [simp]: "f (ls s) = Ret r l \<Longrightarrow> on_ls f s = Ret r (s\<lparr>ls := l\<rparr>)"
  by (simp add: on_ls_def)

lemmas fs_calls = fbread_def fbrelse_def flog_write_def fdata_def fset_data_def

text \<open>Space for \<open>k\<close> more blocks in the transaction and in the cache.\<close>

definition room :: "nat \<Rightarrow> tstore \<Rightarrow> bool" where
  "room k a \<longleftrightarrow> t_open a \<and> card (t_log a) + k \<le> t_slots a \<and> card (t_busy a) + k < NBUF"

lemma room_mono: "room k a \<Longrightarrow> j \<le> k \<Longrightarrow> room j a"
  by (auto simp: room_def)

lemma room_t_put:
  assumes "room (Suc k) a"
  shows "room k (t_put x d a)"
proof -
  have c: "card (insert x S) \<le> card S + 1" for S by (cases "finite S") (simp_all add: card_insert_if)
  have "t_busy (t_put x d a) = insert x (t_busy a)" by (auto simp: t_busy_def)
  then show ?thesis using assms c [of "t_log a"] c [of "t_busy a"] by (auto simp: room_def)
qed

text \<open>Reading a block in a transaction, and the update idiom.\<close>

lemma fs_read:
  assumes "log_inv (ls s)" and "room 0 (tabs (ls s))" and "blk < t_size (tabs (ls s))"
    and "\<not> t_locked (tabs (ls s)) blk"
  obtains bp l1 l2 where "fbread me 1 blk s = Ret bp (s\<lparr>ls := l1\<rparr>)"
    and "\<forall>s1. ls s1 = l1 \<longrightarrow> fdata s1 bp = t_view (tabs (ls s)) blk"
    and "\<forall>s1. ls s1 = l1 \<longrightarrow> fbrelse me bp s1 = Ret () (s1\<lparr>ls := l2\<rparr>)"
    and "log_inv l2" and "tabs l2 = tabs (ls s)"
    and "\<forall>j b. lheld me (ls s) j b \<longrightarrow> lheld me l2 j b"
proof -
  have c: "blk \<in> t_log (tabs (ls s)) \<or> card (t_busy (tabs (ls s))) < NBUF" using assms(2) by (simp add: room_def)
  obtain i l1 l2 where 1: "lbread me 1 blk (ls s) = Ret i l1" "ldata l1 i = t_view (tabs (ls s)) blk"
    "lbrelse me i l1 = Ret () l2" "log_inv l2" "tabs l2 = tabs (ls s)"
    "\<forall>j b. lheld me (ls s) j b \<longrightarrow> lheld me l2 j b"
    by (rule lst.read_block [OF assms(1,3,4) c])
  show ?thesis
    by (rule that [of i l1 l2]) (use 1 in \<open>auto simp: fs_calls\<close>)
qed

lemma fs_update:
  assumes "log_inv (ls s)" and "room 1 (tabs (ls s))" and "t_home (tabs (ls s)) blk"
    and "\<not> t_locked (tabs (ls s)) blk" and "length d = BSIZE"
  obtains bp l1 l2 l3 where "fbread me 1 blk s = Ret bp (s\<lparr>ls := l1\<rparr>)"
    and "\<forall>s1. ls s1 = l1 \<longrightarrow> fdata s1 bp = t_view (tabs (ls s)) blk"
    and "\<forall>s1. ls s1 = l1 \<longrightarrow> flog_write bp (fset_data bp d s1) = Ret () (s1\<lparr>ls := l2\<rparr>)"
    and "\<forall>s1. ls s1 = l2 \<longrightarrow> fbrelse me bp s1 = Ret () (s1\<lparr>ls := l3\<rparr>)"
    and "log_inv l3" and "tabs l3 = t_put blk d (tabs (ls s))"
    and "\<forall>j b. lheld me (ls s) j b \<longrightarrow> lheld me l3 j b"
proof -
  have c: "t_open (tabs (ls s))" "blk \<in> t_log (tabs (ls s)) \<or> card (t_busy (tabs (ls s))) < NBUF"
    "card (t_log (tabs (ls s))) < t_slots (tabs (ls s))" using assms(2) by (auto simp: room_def)
  obtain i l1 l2 l3 where 1: "lbread me 1 blk (ls s) = Ret i l1" "ldata l1 i = t_view (tabs (ls s)) blk"
    "log_write i (lset_data i d l1) = Ret () l2" "lbrelse me i l2 = Ret () l3" "log_inv l3"
    "tabs l3 = t_put blk d (tabs (ls s))" "\<forall>j b. lheld me (ls s) j b \<longrightarrow> lheld me l3 j b"
    by (rule lst.update_block [OF assms(1,4,3) c assms(5)])
  show ?thesis
    by (rule that [of i l1 l2 l3]) (use 1 in \<open>auto simp: fs_calls\<close>)
qed

lemma bzero_ok:
  assumes "log_inv (ls s)" and "room 1 (tabs (ls s))" and "t_home (tabs (ls s)) blk"
    and "\<not> t_locked (tabs (ls s)) blk"
  shows "\<exists>l. bzero me 1 blk s = Ret () (s\<lparr>ls := l\<rparr>) \<and> log_inv l \<and>
    tabs l = t_put blk (replicate BSIZE 0) (tabs (ls s)) \<and>
    (\<forall>j b. lheld me (ls s) j b \<longrightarrow> lheld me l j b)"
proof -
  have z: "length (replicate BSIZE 0) = BSIZE" by simp
  show ?thesis by (rule fs_update [OF assms z, of me]) (auto simp: bzero_def)
qed

subsection \<open>The bitmap\<close>

lemma is_free_bit: "is_free d bi \<longleftrightarrow> \<not> bit (d ! (bi div 8)) (bi mod 8)"
  by (simp add: is_free_def bmask_def push_bit_of_1 and_exp_eq_0_iff_not_bit)

lemma length_mark [simp]: "length (mark_used bi d) = length d" "length (mark_free bi d) = length d"
  by (simp_all add: mark_used_def mark_free_def)

lemma bit_eq_iff_pos: "bi div 8 = bj div 8 \<Longrightarrow> bi mod 8 = bj mod (8 :: nat) \<longleftrightarrow> bi = bj"
  by (metis div_mod_decomp)

lemma bit_bmask: "bit (bmask bi) k \<longleftrightarrow> k = bi mod 8"
  by (auto simp: bmask_def push_bit_of_1 bit_exp_iff possible_bit_def)

lemma is_free_mark_used:
  assumes "bi < 8 * length d"
  shows "is_free (mark_used bi d) bj \<longleftrightarrow> is_free d bj \<and> bj \<noteq> bi"
proof (cases "bj div 8 = bi div 8")
  case True
  have l: "bi div 8 < length d" using assms by auto
  show ?thesis
    using bit_eq_iff_pos [OF True] l True
    by (auto simp: is_free_bit mark_used_def bit_or_iff bit_bmask)
next
  case False
  then show ?thesis by (auto simp: is_free_bit mark_used_def)
qed

lemma is_free_mark_free:
  assumes "bi < 8 * length d"
  shows "is_free (mark_free bi d) bj \<longleftrightarrow> is_free d bj \<or> bj = bi"
proof (cases "bj div 8 = bi div 8")
  case True
  have l: "bi div 8 < length d" using assms by auto
  show ?thesis
    using bit_eq_iff_pos [OF True] l True
    by (auto simp: is_free_bit mark_free_def bit_and_iff bit_not_iff bit_bmask possible_bit_def)
next
  case False
  then show ?thesis by (auto simp: is_free_bit mark_free_def)
qed

definition used :: "superblock \<Rightarrow> (nat \<Rightarrow> byte list) \<Rightarrow> nat \<Rightarrow> bool" where
  "used sb v b \<longleftrightarrow> \<not> is_free (v (BBLOCK b sb)) (b mod BPB)"

text \<open>The first block after the bitmap.\<close>

definition meta_end :: "superblock \<Rightarrow> nat" where
  "meta_end sb = sb_bmapstart sb + sb_size sb div BPB + 1"

text \<open>
  The layout \<open>mkfs\<close> makes: the inode blocks and the bitmap lie after the log, and the bitmap
  marks every block before \<open>meta_end\<close> as used. \<open>fs_ok\<close> also says that the only
  buffers locked are those of used data blocks.
\<close>

definition fs_geom :: "superblock \<Rightarrow> tstore \<Rightarrow> bool" where
  "fs_geom sb a \<longleftrightarrow> sb_size sb \<le> t_size a \<and> sb_size sb < 2 ^ 32 \<and>
     (\<forall>b. sb_inodestart sb \<le> b \<and> b < sb_size sb \<longrightarrow> t_home a b) \<and>
     sb_inodestart sb + sb_ninodes sb div IPB + 1 \<le> sb_bmapstart sb \<and> meta_end sb \<le> sb_size sb"

definition fs_ok :: "superblock \<Rightarrow> tstore \<Rightarrow> bool" where
  "fs_ok sb a \<longleftrightarrow> fs_geom sb a \<and> (\<forall>b<meta_end sb. used sb (t_view a) b) \<and>
     (\<forall>b. t_locked a b \<longrightarrow> meta_end sb \<le> b \<and> b < sb_size sb \<and> used sb (t_view a) b)"

lemma BPB_pos [simp]: "0 < BPB" by (simp add: BPB_def BSIZE_def)

lemma BBLOCK_meta:
  assumes "b < sb_size sb"
  shows "sb_bmapstart sb \<le> BBLOCK b sb" and "BBLOCK b sb < meta_end sb"
  using assms div_le_mono [of b "sb_size sb" BPB] by (simp_all add: BBLOCK_def meta_end_def)

lemma fs_ok_bitmap:
  assumes "fs_ok sb a" and "b < sb_size sb"
  shows "t_home a (BBLOCK b sb)" and "\<not> t_locked a (BBLOCK b sb)" and "BBLOCK b sb < t_size a"
proof -
  have r: "sb_inodestart sb \<le> BBLOCK b sb" "BBLOCK b sb < sb_size sb"
    using BBLOCK_meta [OF assms(2)] assms(1) by (auto simp: fs_ok_def fs_geom_def)
  then show "t_home a (BBLOCK b sb)" "BBLOCK b sb < t_size a"
    using assms(1) by (auto simp: fs_ok_def fs_geom_def)
  show "\<not> t_locked a (BBLOCK b sb)"
    using assms(1) BBLOCK_meta(2) [OF assms(2)] unfolding fs_ok_def by (meson not_le)
qed

lemma BBLOCK_eq_mod: "BBLOCK b sb = BBLOCK c sb \<Longrightarrow> b mod BPB = c mod BPB \<longleftrightarrow> b = c"
  unfolding BBLOCK_def by (metis add_right_cancel div_mod_decomp)

lemma used_mark:
  assumes "length (v (BBLOCK b sb)) = BSIZE"
  shows "used sb (v(BBLOCK b sb := mark_used (b mod BPB) (v (BBLOCK b sb)))) c \<longleftrightarrow> used sb v c \<or> c = b"
    and "used sb (v(BBLOCK b sb := mark_free (b mod BPB) (v (BBLOCK b sb)))) c \<longleftrightarrow> used sb v c \<and> c \<noteq> b"
proof -
  have "b mod BPB < 8 * length (v (BBLOCK b sb))"
    using assms mod_less_divisor [OF BPB_pos, of b] by (simp add: BPB_def)
  note m = is_free_mark_used [OF this] is_free_mark_free [OF this]
  show "used sb (v(BBLOCK b sb := mark_used (b mod BPB) (v (BBLOCK b sb)))) c \<longleftrightarrow> used sb v c \<or> c = b"
    using m BBLOCK_eq_mod [of c sb b] by (auto simp: used_def)
  show "used sb (v(BBLOCK b sb := mark_free (b mod BPB) (v (BBLOCK b sb)))) c \<longleftrightarrow> used sb v c \<and> c \<noteq> b"
    using m BBLOCK_eq_mod [of c sb b] by (auto simp: used_def)
qed

lemma used_other: "x \<noteq> BBLOCK c sb \<Longrightarrow> used sb (v(x := d)) c = used sb v c"
  by (simp add: used_def)

subsection \<open>Allocating a block\<close>

text \<open>The effect of allocating block \<open>b\<close>: its bit is set and its contents are zero.\<close>

definition t_alloc :: "superblock \<Rightarrow> nat \<Rightarrow> tstore \<Rightarrow> tstore" where
  "t_alloc sb b a =
     t_put b (replicate BSIZE 0) (t_put (BBLOCK b sb) (mark_used (b mod BPB) (t_view a (BBLOCK b sb))) a)"

definition t_free :: "superblock \<Rightarrow> nat \<Rightarrow> tstore \<Rightarrow> tstore" where
  "t_free sb b a = t_put (BBLOCK b sb) (mark_free (b mod BPB) (t_view a (BBLOCK b sb))) a"

lemma balloc_loop_ok:
  assumes "log_inv (ls s)" and "fs_ok sb (tabs (ls s))" and "room 2 (tabs (ls s))"
    and "b mod BPB = 0" and "\<forall>c<b. used sb (t_view (tabs (ls s))) c"
    and "c0 < sb_size sb" and "\<not> used sb (t_view (tabs (ls s))) c0"
  shows "\<exists>c l. balloc_loop me 1 sb b s = Ret c (s\<lparr>ls := l\<rparr>) \<and> log_inv l \<and> c < sb_size sb \<and>
    \<not> used sb (t_view (tabs (ls s))) c \<and> (\<forall>c'<c. used sb (t_view (tabs (ls s))) c') \<and>
    tabs l = t_alloc sb c (tabs (ls s)) \<and> (\<forall>j b. lheld me (ls s) j b \<longrightarrow> lheld me l j b)"
  using assms
proof (induction "sb_size sb - b" arbitrary: b s rule: less_induct)
  case less
  let ?a = "tabs (ls s)" and ?B = "BBLOCK b sb"
  let ?v = "t_view ?a" and ?m = "min BPB (sb_size sb - b)"
  have lt: "b < sb_size sb" using less.prems(5-7) by (meson not_less order_less_le_trans le_trans not_le)
  note bm = fs_ok_bitmap [OF less.prems(2) lt]
  have pos: "BBLOCK (b + bi) sb = ?B" "(b + bi) mod BPB = bi" if "bi < BPB" for bi
    using less.prems(4) that by (auto simp: BBLOCK_def mod_add_left_eq [symmetric] div_add1_eq)
  have len: "length (?v ?B) = BSIZE" using lst.view_length [OF less.prems(1) bm(3)] .
  show ?case
  proof (cases "List.find (is_free (?v ?B)) [0..<?m]")
    case None
    obtain bp l1 l2 where 1: "fbread me 1 ?B s = Ret bp (s\<lparr>ls := l1\<rparr>)"
      "\<forall>s1. ls s1 = l1 \<longrightarrow> fdata s1 bp = ?v ?B"
      "\<forall>s1. ls s1 = l1 \<longrightarrow> fbrelse me bp s1 = Ret () (s1\<lparr>ls := l2\<rparr>)"
      "log_inv l2" "tabs l2 = ?a" "\<forall>j b. lheld me (ls s) j b \<longrightarrow> lheld me l2 j b"
      by (rule fs_read [OF less.prems(1) room_mono [OF less.prems(3) zero_le] bm(3,2)])
    have all: "\<forall>c<b + BPB. c < sb_size sb \<longrightarrow> used sb ?v c"
    proof (intro allI impI)
      fix c assume c: "c < b + BPB" "c < sb_size sb"
      show "used sb ?v c"
      proof (cases "c < b")
        case False
        then obtain bi where "c = b + bi" using le_Suc_ex not_less by blast
        then show ?thesis using None c pos [of bi] by (auto simp: find_upt_None used_def)
      qed (use less.prems(5) in blast)
    qed
    have lt2: "b + BPB < sb_size sb" using all less.prems(6,7) by (meson not_less order_less_le_trans)
    have "\<exists>c l. balloc_loop me 1 sb (b + BPB) (s\<lparr>ls := l2\<rparr>) = Ret c (s\<lparr>ls := l2\<rparr>\<lparr>ls := l\<rparr>) \<and> log_inv l \<and>
      c < sb_size sb \<and> \<not> used sb (t_view (tabs (ls (s\<lparr>ls := l2\<rparr>)))) c \<and>
      (\<forall>c'<c. used sb (t_view (tabs (ls (s\<lparr>ls := l2\<rparr>)))) c') \<and>
      tabs l = t_alloc sb c (tabs (ls (s\<lparr>ls := l2\<rparr>))) \<and>
      (\<forall>j b. lheld me (ls (s\<lparr>ls := l2\<rparr>)) j b \<longrightarrow> lheld me l j b)"
      using lt lt2 all less.prems 1(4,5) BPB_pos by (intro less.hyps) (auto intro: diff_less_mono2)
    then obtain c l where 2: "balloc_loop me 1 sb (b + BPB) (s\<lparr>ls := l2\<rparr>) = Ret c (s\<lparr>ls := l\<rparr>)"
      "log_inv l" "c < sb_size sb" "\<not> used sb ?v c" "\<forall>c'<c. used sb ?v c'" "tabs l = t_alloc sb c ?a"
      "\<forall>j b. lheld me l2 j b \<longrightarrow> lheld me l j b"
      by (auto simp: 1(5))
    have "balloc_loop me 1 sb b s = Ret c (s\<lparr>ls := l\<rparr>)"
      using 1(1-3) 2(1) lt None by (subst balloc_loop.simps) simp
    then show ?thesis using 1(6) 2(2-7) by blast
  next
    case (Some bi)
    then have bi: "bi < BPB" "b + bi < sb_size sb" "is_free (?v ?B) bi" "\<forall>j<bi. \<not> is_free (?v ?B) j"
      by (auto simp: find_upt_Some)
    note p = pos [OF bi(1)]
    have nu: "\<not> used sb ?v (b + bi)" using bi(3) p by (simp add: used_def)
    have first: "\<forall>c'<b + bi. used sb ?v c'"
    proof (intro allI impI)
      fix c' assume c': "c' < b + bi"
      show "used sb ?v c'"
      proof (cases "c' < b")
        case False
        then obtain bj where "c' = b + bj" using le_Suc_ex not_less by blast
        then show ?thesis using bi(1,4) c' pos [of bj] by (auto simp: used_def)
      qed (use less.prems(5) in blast)
    qed
    have me: "meta_end sb \<le> b + bi" using nu less.prems(2) unfolding fs_ok_def by (meson not_le)
    have h: "t_home ?a (b + bi)" and nl: "\<not> t_locked ?a (b + bi)"
      using less.prems(2) me bi(2) nu by (auto simp: fs_ok_def fs_geom_def meta_end_def)
    have ld: "length (mark_used bi (?v ?B)) = BSIZE" using len by simp
    obtain bp l1 l2 l3 where 1: "fbread me 1 ?B s = Ret bp (s\<lparr>ls := l1\<rparr>)"
      "\<forall>s1. ls s1 = l1 \<longrightarrow> fdata s1 bp = ?v ?B"
      "\<forall>s1. ls s1 = l1 \<longrightarrow> flog_write bp (fset_data bp (mark_used bi (?v ?B)) s1) = Ret () (s1\<lparr>ls := l2\<rparr>)"
      "\<forall>s1. ls s1 = l2 \<longrightarrow> fbrelse me bp s1 = Ret () (s1\<lparr>ls := l3\<rparr>)"
      "log_inv l3" "tabs l3 = t_put ?B (mark_used bi (?v ?B)) ?a"
      "\<forall>j b. lheld me (ls s) j b \<longrightarrow> lheld me l3 j b"
      by (rule fs_update [OF less.prems(1) room_mono [OF less.prems(3) one_le_numeral] bm(1,2) ld])
    have "room 1 (tabs l3)" unfolding 1(6) using less.prems(3) by (intro room_t_put) (simp add: numeral_2_eq_2 One_nat_def)
    then obtain l4 where 4: "bzero me 1 (b + bi) (s\<lparr>ls := l3\<rparr>) = Ret () (s\<lparr>ls := l4\<rparr>)" "log_inv l4"
      "tabs l4 = t_put (b + bi) (replicate BSIZE 0) (tabs l3)" "\<forall>j b. lheld me l3 j b \<longrightarrow> lheld me l4 j b"
      using bzero_ok [of "s\<lparr>ls := l3\<rparr>" "b + bi" me] 1(5) h nl by (auto simp: 1(6))
    have "balloc_loop me 1 sb b s = Ret (b + bi) (s\<lparr>ls := l4\<rparr>)"
      using lt Some 1(1-4) 4(1) by (subst balloc_loop.simps) simp
    moreover have "tabs l4 = t_alloc sb (b + bi) ?a" by (simp add: 4(3) 1(6) t_alloc_def p)
    ultimately show ?thesis using 4(2,4) 1(7) bi(2) nu first by blast
  qed
qed

lemma balloc_loop_full:
  assumes "log_inv (ls s)" and "fs_ok sb (tabs (ls s))" and "room 0 (tabs (ls s))"
    and "b mod BPB = 0" and "\<forall>c. c < sb_size sb \<longrightarrow> used sb (t_view (tabs (ls s))) c"
  shows "balloc_loop me 1 sb b s = Panic ''balloc: out of blocks''"
  using assms
proof (induction "sb_size sb - b" arbitrary: b s rule: less_induct)
  case less
  show ?case
  proof (cases "b < sb_size sb")
    case True
    let ?a = "tabs (ls s)" and ?B = "BBLOCK b sb"
    note bm = fs_ok_bitmap [OF less.prems(2) True]
    obtain bp l1 l2 where 1: "fbread me 1 ?B s = Ret bp (s\<lparr>ls := l1\<rparr>)"
      "\<forall>s1. ls s1 = l1 \<longrightarrow> fdata s1 bp = t_view ?a ?B"
      "\<forall>s1. ls s1 = l1 \<longrightarrow> fbrelse me bp s1 = Ret () (s1\<lparr>ls := l2\<rparr>)"
      "log_inv l2" "tabs l2 = ?a" "\<forall>j b. lheld me (ls s) j b \<longrightarrow> lheld me l2 j b"
      by (rule fs_read [OF less.prems(1,3) bm(3,2)])
    have "\<not> is_free (t_view ?a ?B) bi" if "bi < BPB" "b + bi < sb_size sb" for bi
    proof -
      have "BBLOCK (b + bi) sb = ?B" "(b + bi) mod BPB = bi"
        using less.prems(4) that(1) by (auto simp: BBLOCK_def mod_add_left_eq [symmetric] div_add1_eq)
      then show ?thesis using less.prems(5) that(2) unfolding used_def by metis
    qed
    then have none: "List.find (is_free (t_view ?a ?B)) [0..<min BPB (sb_size sb - b)] = None"
      by (auto simp: find_upt_None)
    have "balloc_loop me 1 sb (b + BPB) (s\<lparr>ls := l2\<rparr>) = Panic ''balloc: out of blocks''"
      using less.prems 1(4,5) True BPB_pos by (intro less.hyps) (auto intro: diff_less_mono2)
    then show ?thesis using True 1(1-3) none by (subst balloc_loop.simps) simp
  qed (subst balloc_loop.simps, simp)
qed

lemma bfree_ok:
  assumes "log_inv (ls s)" and "fs_ok (fsb s) (tabs (ls s))" and "room 1 (tabs (ls s))" and "b < sb_size (fsb s)"
  shows "used (fsb s) (t_view (tabs (ls s))) b \<Longrightarrow>
      \<exists>l. bfree me 1 b s = Ret () (s\<lparr>ls := l\<rparr>) \<and> log_inv l \<and> tabs l = t_free (fsb s) b (tabs (ls s)) \<and>
        (\<forall>j b. lheld me (ls s) j b \<longrightarrow> lheld me l j b)"
    and "\<not> used (fsb s) (t_view (tabs (ls s))) b \<Longrightarrow> bfree me 1 b s = Panic ''freeing free block''"
proof -
  let ?a = "tabs (ls s)" and ?B = "BBLOCK b (fsb s)"
  note bm = fs_ok_bitmap [OF assms(2,4)]
  have "length (mark_free (b mod BPB) (t_view ?a ?B)) = BSIZE" using lst.view_length [OF assms(1) bm(3)] by simp
  then obtain bp l1 l2 l3 where 1: "fbread me 1 ?B s = Ret bp (s\<lparr>ls := l1\<rparr>)"
    "\<forall>s1. ls s1 = l1 \<longrightarrow> fdata s1 bp = t_view ?a ?B"
    "\<forall>s1. ls s1 = l1 \<longrightarrow> flog_write bp (fset_data bp (mark_free (b mod BPB) (t_view ?a ?B)) s1) = Ret () (s1\<lparr>ls := l2\<rparr>)"
    "\<forall>s1. ls s1 = l2 \<longrightarrow> fbrelse me bp s1 = Ret () (s1\<lparr>ls := l3\<rparr>)"
    "log_inv l3" "tabs l3 = t_put ?B (mark_free (b mod BPB) (t_view ?a ?B)) ?a"
    "\<forall>j b. lheld me (ls s) j b \<longrightarrow> lheld me l3 j b"
    by (rule fs_update [OF assms(1,3) bm(1,2)])
  show "\<exists>l. bfree me 1 b s = Ret () (s\<lparr>ls := l\<rparr>) \<and> log_inv l \<and> tabs l = t_free (fsb s) b ?a \<and>
        (\<forall>j b. lheld me (ls s) j b \<longrightarrow> lheld me l j b)"
    if "used (fsb s) (t_view ?a) b"
    using 1 that by (intro exI [of _ l3]) (simp add: bfree_def Let_def used_def t_free_def)
  show "bfree me 1 b s = Panic ''freeing free block''" if "\<not> used (fsb s) (t_view ?a) b"
    using 1(1,2) that by (simp add: bfree_def Let_def used_def)
qed

text \<open>What an allocation and a release keep.\<close>

lemma t_alloc_sel [simp]:
  "t_disk (t_alloc sb b a) = t_disk a" "t_locked (t_alloc sb b a) = t_locked a"
  "t_size (t_alloc sb b a) = t_size a" "t_home (t_alloc sb b a) = t_home a"
  "t_slots (t_alloc sb b a) = t_slots a" "t_open (t_alloc sb b a) = t_open a"
  "t_log (t_alloc sb b a) = insert b (insert (BBLOCK b sb) (t_log a))"
  by (simp_all add: t_alloc_def)

lemma t_alloc_view:
  "t_view (t_alloc sb b a) x =
     (if x = b then replicate BSIZE 0
      else if x = BBLOCK b sb then mark_used (b mod BPB) (t_view a (BBLOCK b sb)) else t_view a x)"
  by (simp add: t_alloc_def)

lemma room_t_alloc: "room (Suc (Suc k)) a \<Longrightarrow> room k (t_alloc sb b a)"
  by (simp add: t_alloc_def room_t_put)

lemma used_t_alloc:
  assumes "length (t_view a (BBLOCK b sb)) = BSIZE" and "meta_end sb \<le> b" and "b < sb_size sb" and "c < sb_size sb"
  shows "used sb (t_view (t_alloc sb b a)) c \<longleftrightarrow> used sb (t_view a) c \<or> c = b"
proof -
  have "BBLOCK c sb \<noteq> b" using BBLOCK_meta(2) [OF assms(4)] assms(2) by simp
  then have "used sb (t_view (t_alloc sb b a)) c =
    used sb ((t_view a)(BBLOCK b sb := mark_used (b mod BPB) (t_view a (BBLOCK b sb)))) c"
    by (simp add: t_alloc_def used_other)
  then show ?thesis using used_mark(1) [of "t_view a" b sb, OF assms(1)] by simp
qed

lemma fs_ok_t_alloc:
  assumes "fs_ok sb a" and "length (t_view a (BBLOCK b sb)) = BSIZE" and "b < sb_size sb"
    and "\<not> used sb (t_view a) b"
  shows "meta_end sb \<le> b" and "fs_ok sb (t_alloc sb b a)"
proof -
  show m: "meta_end sb \<le> b" using assms(1,4) unfolding fs_ok_def by (meson not_le)
  have s: "meta_end sb \<le> sb_size sb" using assms(1) by (simp add: fs_ok_def fs_geom_def)
  show "fs_ok sb (t_alloc sb b a)"
    using assms(1) used_t_alloc [OF assms(2) m assms(3)] s
    unfolding fs_ok_def fs_geom_def by auto
qed

lemma used_t_free:
  assumes "length (t_view a (BBLOCK b sb)) = BSIZE"
  shows "used sb (t_view (t_free sb b a)) c \<longleftrightarrow> used sb (t_view a) c \<and> c \<noteq> b"
  using used_mark(2) [of "t_view a" b sb, OF assms] by (simp add: t_free_def)

lemma fs_ok_t_free:
  assumes "fs_ok sb a" and "length (t_view a (BBLOCK b sb)) = BSIZE" and "meta_end sb \<le> b" and "\<not> t_locked a b"
  shows "fs_ok sb (t_free sb b a)"
  using assms(1,3,4) used_t_free [OF assms(2)] unfolding fs_ok_def fs_geom_def by (auto simp: t_free_def)

lemma balloc_ok:
  assumes "log_inv (ls s)" and "fs_ok (fsb s) (tabs (ls s))" and "room 2 (tabs (ls s))"
    and "c0 < sb_size (fsb s)" and "\<not> used (fsb s) (t_view (tabs (ls s))) c0"
  shows "\<exists>c l. balloc me 1 s = Ret c (s\<lparr>ls := l\<rparr>) \<and> log_inv l \<and> c < sb_size (fsb s) \<and>
    meta_end (fsb s) \<le> c \<and> \<not> used (fsb s) (t_view (tabs (ls s))) c \<and>
    (\<forall>c'<c. used (fsb s) (t_view (tabs (ls s))) c') \<and> length (t_view (tabs (ls s)) (BBLOCK c (fsb s))) = BSIZE \<and>
    tabs l = t_alloc (fsb s) c (tabs (ls s)) \<and> fs_ok (fsb s) (tabs l) \<and>
    (\<forall>j b. lheld me (ls s) j b \<longrightarrow> lheld me l j b)"
proof -
  obtain c l where 1: "balloc_loop me 1 (fsb s) 0 s = Ret c (s\<lparr>ls := l\<rparr>)" "log_inv l" "c < sb_size (fsb s)"
    "\<not> used (fsb s) (t_view (tabs (ls s))) c" "\<forall>c'<c. used (fsb s) (t_view (tabs (ls s))) c'"
    "tabs l = t_alloc (fsb s) c (tabs (ls s))" "\<forall>j b. lheld me (ls s) j b \<longrightarrow> lheld me l j b"
    using balloc_loop_ok [OF assms(1-3) _ _ assms(4,5), of 0 me] by auto
  have len: "length (t_view (tabs (ls s)) (BBLOCK c (fsb s))) = BSIZE"
    using lst.view_length [OF assms(1) fs_ok_bitmap(3) [OF assms(2) 1(3)]] .
  show ?thesis
    using 1 len fs_ok_t_alloc [OF assms(2) len 1(3,4)] unfolding balloc_def by metis
qed

subsection \<open>A concrete file system\<close>

text \<open>
  A disk of 100 blocks: super block, log at 2, inodes at 32 (a root directory, number 1, and an empty
  file, number 2), bitmap at 35 with the 36 blocks of metadata in use, then data. \<open>fs_boot\<close>
  is the start of the machine followed by the start of an operation.
\<close>

definition fs_bitmap :: "byte list" where
  "fs_bitmap = [0xFF, 0xFF, 0xFF, 0xFF, 0x0F] @ replicate (BSIZE - 5) 0"

definition fs_disk :: "nat \<Rightarrow> byte list" where
  "fs_disk b =
     (if b = 1 then put32 (put32 (put32 (put32 (put32 (put32 (put32 (replicate BSIZE 0)
        0 100) 4 64) 8 16) 12 30) 16 2) 20 32) 24 35
      else if b = 32 then put_dinode 2 ((free_dinode T_FILE)\<lparr>d_nlink := 1\<rparr>)
        (put_dinode 1 ((free_dinode T_DIR)\<lparr>d_nlink := 1\<rparr>) (replicate BSIZE 0))
      else if b = 35 then fs_bitmap
      else replicate BSIZE 0)"

definition fs_sb :: superblock where
  "fs_sb = \<lparr>sb_size = 100, sb_nblocks = 64, sb_ninodes = 16, sb_nlog = 30, sb_logstart = 2,
     sb_inodestart = 32, sb_bmapstart = 35\<rparr>"

definition zero_inode :: inode where
  "zero_inode = \<lparr>i_dev = 0, i_inum = 0, i_ref = 0, i_lock = initsleeplock, i_valid = False, i_type = 0,
     i_major = 0, i_minor = 0, i_nlink = 0, i_size = 0, i_addrs = replicate (NDIRECT + 1) 0\<rparr>"

definition fs_boot :: "int \<Rightarrow> (nat \<Rightarrow> byte list) \<Rightarrow> nat \<Rightarrow> (unit, fsstate) outcome" where
  "fs_boot me d N =
     obind (olift (\<lambda>l. \<lparr>ls = l, fsb = fs_sb\<lparr>sb_size := 0\<rparr>, icache = (\<lambda>_. zero_inode)\<rparr>)
       (initlog me 1 (reset d N))) (\<lambda>_ s.
     obind (iinit me 1 s) (\<lambda>_ s. on_ls begin_op s))"

lemma length_enc_dinode: "length (d_addrs di) = NDIRECT + 1 \<Longrightarrow> length (enc_dinode di) = 64"
  by (simp add: enc_dinode_def length_concat comp_def sum_list_triv NDIRECT_def)

lemma dip_off_bound: "dip_off inum + 64 \<le> BSIZE"
  using mod_less_divisor [of IPB inum] by (simp add: dip_off_def IPB_def BSIZE_def)

lemma length_put_dinode [simp]:
  "length d = BSIZE \<Longrightarrow> length (d_addrs di) = NDIRECT + 1 \<Longrightarrow> length (put_dinode inum di d) = BSIZE"
  using dip_off_bound [of inum] by (simp add: put_dinode_def length_enc_dinode)

lemma fs_disk_sb: "decode_sb (fs_disk 1) = fs_sb"
  by (simp add: decode_sb_def fs_disk_def fs_sb_def BSIZE_def get32_put32_other)

lemma fs_disk_length: "length (fs_disk b) = BSIZE"
proof -
  have "length (fs_disk 1) = BSIZE" by (simp add: fs_disk_def BSIZE_def)
  moreover have "length fs_bitmap = BSIZE" by (simp add: fs_bitmap_def BSIZE_def)
  moreover have "length (fs_disk 32) = BSIZE" by (simp add: fs_disk_def free_dinode_def)
  ultimately show ?thesis by (cases "b = 1 \<or> b = 32") (auto simp: fs_disk_def)
qed

lemma fs_disk_log_ok: "log_ok fs_disk 100 2 30"
proof -
  have "head_n (fs_disk 2) = 0" by (simp add: head_n_def fs_disk_def BSIZE_def)
  then show ?thesis
    using fs_disk_sb fs_disk_length by (simp add: log_ok_def sb_ok_def geometry_def NBUF_def fs_sb_def)
qed

lemma fs_bitmap_used:
  assumes "b < 100"
  shows "is_free fs_bitmap b \<longleftrightarrow> 36 \<le> b"
proof (cases "b < 40")
  case True
  let ?l = "[0xFF, 0xFF, 0xFF, 0xFF, 0x0F] :: byte list"
  have "list_all (\<lambda>b. is_free ?l b \<longleftrightarrow> 36 \<le> b) [0..<40]" by code_simp
  moreover have "is_free fs_bitmap b = is_free ?l b"
    using True unfolding is_free_def fs_bitmap_def by (subst nth_append) auto
  ultimately show ?thesis using True by (simp add: list_all_iff)
next
  case False
  then have "fs_bitmap ! (b div 8) = 0" using assms by (simp add: fs_bitmap_def nth_append BSIZE_def)
  then show ?thesis using False by (simp add: is_free_bit)
qed

lemma fs_disk_ok:
  assumes "t_view a = fs_disk" and "t_size a = 100" and "\<forall>b. \<not> t_locked a b"
    and "t_home a = home 100 2 30"
  shows "fs_ok fs_sb a" and "b < 100 \<Longrightarrow> used fs_sb (t_view a) b \<longleftrightarrow> b < 36"
proof -
  have u: "used fs_sb fs_disk b \<longleftrightarrow> b < 36" if "b < 100" for b
  proof -
    have "BBLOCK b fs_sb = 35" "b mod BPB = b" using that by (simp_all add: BBLOCK_def fs_sb_def BPB_def BSIZE_def)
    then show ?thesis using fs_bitmap_used [OF that] by (simp add: used_def fs_disk_def not_le)
  qed
  then show "b < 100 \<Longrightarrow> used fs_sb (t_view a) b \<longleftrightarrow> b < 36" using assms(1) by simp
  have "meta_end fs_sb = 36" by (simp add: meta_end_def fs_sb_def BPB_def BSIZE_def)
  then show "fs_ok fs_sb a"
    using u assms by (auto simp: fs_ok_def fs_geom_def home_def) (simp_all add: fs_sb_def IPB_def BSIZE_def)
qed

lemma fs_boot_ok:
  "\<exists>s. fs_boot 1 fs_disk 100 = Ret () s \<and> log_inv (ls s) \<and> fsb s = fs_sb \<and> icache s = (\<lambda>_. zero_inode) \<and>
     room 28 (tabs (ls s)) \<and> fs_ok fs_sb (tabs (ls s)) \<and>
     (\<forall>b. b \<noteq> 2 \<longrightarrow> view (bc (ls s)) b = fs_disk b) \<and> log_set (lg (ls s)) = {} \<and> unlocked (ls s)"
proof -
  obtain r where r: "initlog 1 1 (reset fs_disk 100) = Ret () r" using initlog_ok [OF fs_disk_log_ok, of 1] by blast
  note R = log_inv_initlog [OF fs_disk_log_ok r]
  have iw: "install_writes fs_disk 2 = []" by (simp add: install_writes_def head_n_def fs_disk_def BSIZE_def)
  have nd: "\<not> dirty (bc r) b" for b using log_inv_set [OF R(1)] R(7) by (simp add: log_set_def)
  have v: "view (bc r) b = fs_disk b" if "b \<noteq> 2" for b
    using bio.clean_view [OF log_invD(1) [OF R(1)], of b] nd R(2) initlog_writes(2) [OF fs_disk_log_ok r] iw that
    by (simp add: recovery_writes_def)
  let ?s0 = "\<lparr>ls = r, fsb = fs_sb\<lparr>sb_size := 0\<rparr>, icache = (\<lambda>_. zero_inode)\<rparr>"
  have busy: "s_busy (babs (bc r)) = {}" using nd R(2) by (simp add: s_busy_def)
  obtain b' where b': "readsb 1 1 (bc r) = Ret fs_sb b'" "bio_inv b'" "babs b' = babs (bc r)"
    using readsb_ok [OF log_invD(1) [OF R(1)], of 1] R(2,6) busy v [of 1] fs_disk_sb
    by (auto simp: NBUF_def)
  note p = babs_proj [OF b'(3), simplified]
  let ?l = "r\<lparr>bc := b', lg := (lg r)\<lparr>l_outstanding := 1\<rparr>\<rparr>"
  have run: "fs_boot 1 fs_disk 100 = Ret () \<lparr>ls = ?l, fsb = fs_sb, icache = (\<lambda>_. zero_inode)\<rparr>"
    using r b'(1) R(7-9)
    by (simp add: fs_boot_def iinit_def begin_op_def LOGSIZE_def MAXOPBLOCKS_def Let_def)
      (simp add: fun_eq_iff zero_inode_def)
  have inv: "log_inv ?l"
    using log_inv_bc [OF R(1) b'(2)] p by (simp add: log_inv_def Let_def)
  have nd': "\<not> t_locked (tabs ?l) b" "log_set (lg ?l) = {}" for b using R(2,7) p by (simp_all add: log_set_def)
  have "fs_ok fs_sb ((tabs ?l)\<lparr>t_view := fs_disk\<rparr>)"
    using nd' R(4-6) p by (intro fs_disk_ok) simp_all
  then have ok: "fs_ok fs_sb (tabs ?l)"
  proof -
    assume a: "fs_ok fs_sb ((tabs ?l)\<lparr>t_view := fs_disk\<rparr>)"
    have "used fs_sb (t_view (tabs ?l)) b = used fs_sb fs_disk b" for b
      using v [of "BBLOCK b fs_sb"] p by (simp add: used_def BBLOCK_def fs_sb_def)
    then show ?thesis using a by (simp add: fs_ok_def fs_geom_def)
  qed
  have "room 28 (tabs ?l)" using nd' R(5) by (simp add: room_def t_busy_def NBUF_def)
  then show ?thesis
    using run inv ok v p nd' by (intro exI [of _ "\<lparr>ls = ?l, fsb = fs_sb, icache = (\<lambda>_. zero_inode)\<rparr>"]) simp
qed

subsection \<open>Properties\<close>

text \<open>
  C29: with a free block and room for two blocks in the transaction, \<open>balloc\<close> returns the
  lowest free block. It was free and is no metadata; afterwards it is marked used and holds zeros,
  no other bit of the bitmap changes, and no block other than it and its bitmap block changes.
\<close>

theorem balloc_allocates:
  assumes "log_inv (ls s)" and "fs_ok (fsb s) (tabs (ls s))" and "room 2 (tabs (ls s))"
    and "c < sb_size (fsb s)" and "\<not> used (fsb s) (t_view (tabs (ls s))) c"
  shows "\<exists>b s'. balloc me 1 s = Ret b s' \<and> log_inv (ls s') \<and> fs_ok (fsb s) (tabs (ls s')) \<and>
    b < sb_size (fsb s) \<and> meta_end (fsb s) \<le> b \<and> \<not> used (fsb s) (t_view (tabs (ls s))) b \<and>
    (\<forall>b'<b. used (fsb s) (t_view (tabs (ls s))) b') \<and>
    (\<forall>b'. b' < sb_size (fsb s) \<longrightarrow>
      used (fsb s) (t_view (tabs (ls s'))) b' = (used (fsb s) (t_view (tabs (ls s))) b' \<or> b' = b)) \<and>
    t_view (tabs (ls s')) b = replicate BSIZE 0 \<and>
    (\<forall>x. x \<noteq> b \<and> x \<noteq> BBLOCK b (fsb s) \<longrightarrow> t_view (tabs (ls s')) x = t_view (tabs (ls s)) x)"
proof -
  obtain b l where 1: "balloc me 1 s = Ret b (s\<lparr>ls := l\<rparr>)" "log_inv l" "b < sb_size (fsb s)"
    "meta_end (fsb s) \<le> b" "\<not> used (fsb s) (t_view (tabs (ls s))) b"
    "\<forall>c'<b. used (fsb s) (t_view (tabs (ls s))) c'" "length (t_view (tabs (ls s)) (BBLOCK b (fsb s))) = BSIZE"
    "tabs l = t_alloc (fsb s) b (tabs (ls s))" "fs_ok (fsb s) (tabs l)"
    using balloc_ok [OF assms, of me] by blast
  show ?thesis
    by (intro exI [of _ b] exI [of _ "s\<lparr>ls := l\<rparr>"])
      (use 1 used_t_alloc [OF 1(7,4,3)] in \<open>simp add: t_alloc_view\<close>)
qed

theorem balloc_allocates_witness:
  "\<exists>s b s'. fs_boot 1 fs_disk 100 = Ret () s \<and> balloc 1 1 s = Ret b s' \<and> 36 \<le> b \<and> b < 100 \<and>
    t_view (tabs (ls s')) b = replicate BSIZE 0"
proof -
  obtain s where s: "fs_boot 1 fs_disk 100 = Ret () s" "log_inv (ls s)" "fsb s = fs_sb"
    "room 28 (tabs (ls s))" "fs_ok fs_sb (tabs (ls s))" "\<forall>b. b \<noteq> 2 \<longrightarrow> view (bc (ls s)) b = fs_disk b"
    using fs_boot_ok by blast
  have "is_free fs_bitmap 40" using fs_bitmap_used [of 40] by simp
  then have "\<not> used fs_sb (t_view (tabs (ls s))) 40"
    using s(6) by (simp add: used_def BBLOCK_def fs_sb_def BPB_def BSIZE_def fs_disk_def)
  moreover have "meta_end fs_sb = 36" "sb_size fs_sb = 100"
    by (simp_all add: meta_end_def fs_sb_def BPB_def BSIZE_def)
  ultimately obtain b s' where "balloc 1 1 s = Ret b s'" "36 \<le> b" "b < 100"
    "t_view (tabs (ls s')) b = replicate BSIZE 0"
    using balloc_allocates [OF s(2), of 40 1] s(3,5) room_mono [OF s(4), of 2] by auto
  then show ?thesis using s(1) by blast
qed

text \<open>
  C30: \<open>bfree\<close> of a used data block that is not locked clears its bit and no other, and
  changes nothing but that bitmap block; freeing a block that is free panics.
\<close>

theorem bfree_frees:
  assumes "log_inv (ls s)" and "fs_ok (fsb s) (tabs (ls s))" and "room 1 (tabs (ls s))"
    and "b < sb_size (fsb s)" and "meta_end (fsb s) \<le> b" and "\<not> t_locked (tabs (ls s)) b"
  shows "if used (fsb s) (t_view (tabs (ls s))) b
    then \<exists>s'. bfree me 1 b s = Ret () s' \<and> log_inv (ls s') \<and> fs_ok (fsb s) (tabs (ls s')) \<and>
      (\<forall>c. used (fsb s) (t_view (tabs (ls s'))) c = (used (fsb s) (t_view (tabs (ls s))) c \<and> c \<noteq> b)) \<and>
      (\<forall>x. x \<noteq> BBLOCK b (fsb s) \<longrightarrow> t_view (tabs (ls s')) x = t_view (tabs (ls s)) x)
    else bfree me 1 b s = Panic ''freeing free block''"
proof (cases "used (fsb s) (t_view (tabs (ls s))) b")
  case True
  have len: "length (t_view (tabs (ls s)) (BBLOCK b (fsb s))) = BSIZE"
    using lst.view_length [OF assms(1) fs_ok_bitmap(3) [OF assms(2,4)]] .
  obtain l where l: "bfree me 1 b s = Ret () (s\<lparr>ls := l\<rparr>)" "log_inv l" "tabs l = t_free (fsb s) b (tabs (ls s))"
    using bfree_ok(1) [OF assms(1-4) True, of me] by blast
  have "fs_ok (fsb s) (tabs l)" unfolding l(3) by (rule fs_ok_t_free [OF assms(2) len assms(5,6)])
  moreover have "t_view (tabs l) x = t_view (tabs (ls s)) x" if "x \<noteq> BBLOCK b (fsb s)" for x
    using that unfolding l(3) by (simp add: t_free_def)
  ultimately show ?thesis
    using True l used_t_free [OF len] by (auto intro!: exI [of _ "s\<lparr>ls := l\<rparr>"] simp del: tabs_sel)
qed (use bfree_ok(2) [OF assms(1-4)] in simp)

theorem bfree_frees_witness:
  "\<exists>s b s' s''. fs_boot 1 fs_disk 100 = Ret () s \<and> balloc 1 1 s = Ret b s' \<and> bfree 1 1 b s' = Ret () s'' \<and>
    \<not> used fs_sb (t_view (tabs (ls s''))) b"
proof -
  obtain s where s: "fs_boot 1 fs_disk 100 = Ret () s" "log_inv (ls s)" "fsb s = fs_sb"
    "room 28 (tabs (ls s))" "fs_ok fs_sb (tabs (ls s))" "\<forall>b. b \<noteq> 2 \<longrightarrow> view (bc (ls s)) b = fs_disk b"
    "unlocked (ls s)"
    using fs_boot_ok by blast
  have "is_free fs_bitmap 40" using fs_bitmap_used [of 40] by simp
  then have "\<not> used fs_sb (t_view (tabs (ls s))) 40" "40 < sb_size fs_sb"
    using s(6) by (simp_all add: used_def BBLOCK_def fs_sb_def BPB_def BSIZE_def fs_disk_def)
  then obtain b l where 1: "balloc 1 1 s = Ret b (s\<lparr>ls := l\<rparr>)" "log_inv l" "b < sb_size fs_sb"
    "meta_end fs_sb \<le> b" "length (t_view (tabs (ls s)) (BBLOCK b fs_sb)) = BSIZE"
    "tabs l = t_alloc fs_sb b (tabs (ls s))" "fs_ok fs_sb (tabs l)"
    using balloc_ok [OF s(2), of 40 1] s(3,5) room_mono [OF s(4), of 2] by auto
  have u: "used fs_sb (t_view (tabs l)) b" using used_t_alloc [OF 1(5,4,3,3)] 1(6) by simp
  have nl: "\<not> t_locked (tabs l) b" unfolding 1(6) using s(7) by simp
  have "room 26 (tabs l)" unfolding 1(6) using s(4) by (intro room_t_alloc) simp
  then have "room 1 (tabs l)" by (rule room_mono) simp
  then obtain s'' where "bfree 1 1 b (s\<lparr>ls := l\<rparr>) = Ret () s''" "\<not> used fs_sb (t_view (tabs (ls s''))) b"
    using bfree_frees [of "s\<lparr>ls := l\<rparr>" b 1] 1(2,3,4,7) s(3) u nl by auto
  then show ?thesis using s(1) 1(1) by blast
qed

end
