(* ===== verification/Fs_Data.thy ===== *)
theory Fs_Data
  imports Fs_Alloc
begin

text \<open>
  The contents of inodes: the on-disk inode and its round trip, the block map, and \<open>readi\<close>
  and \<open>writei\<close> against a file as a function from offsets to bytes.
\<close>

lemma set_inode_sel [simp]:
  "ls (set_inode ip i s) = ls s" "fsb (set_inode ip i s) = fsb s"
  "icache (set_inode ip i s) = (icache s)(ip := i)"
  "(set_inode ip i s)\<lparr>ls := l\<rparr> = set_inode ip i (s\<lparr>ls := l\<rparr>)"
  by (simp_all add: set_inode_def)

subsection \<open>The on-disk inode\<close>

lemma slice_append_at: "n \<le> length ys \<Longrightarrow> slice (xs @ ys @ zs) (length xs) n = take n ys"
  by (simp add: slice_def)

lemma get16_at: "length xs = off \<Longrightarrow> get16 (xs @ le16 w @ ys) off = w"
  using slice_append_at [of 2 "le16 w" xs ys] by (auto simp: get16_def)

lemma get32_at: "length xs = off \<Longrightarrow> get32 (xs @ le32 w @ ys) off = w"
  using slice_append_at [of 4 "le32 w" xs ys] by (auto simp: get32_def)

lemma length_concat_le32 [simp]: "length (concat (map le32 ws)) = 4 * length ws"
  by (induction ws) auto

lemma get32_words:
  assumes "i < length ws" and "length xs = off"
  shows "get32 (xs @ concat (map le32 ws)) (off + 4 * i) = ws ! i"
proof -
  have "concat (map le32 ws) = concat (map le32 (take i ws)) @ le32 (ws ! i) @ concat (map le32 (drop (Suc i) ws))"
    using assms(1) by (metis concat.simps(2) concat_append id_take_nth_drop list.simps(9) map_append)
  moreover have "length (xs @ concat (map le32 (take i ws))) = off + 4 * i" using assms by simp
  ultimately show ?thesis using get32_at [of "xs @ concat (map le32 (take i ws))"] by simp
qed

lemma dec_enc_dinode:
  assumes "length (d_addrs di) = NDIRECT + 1"
  shows "dec_dinode (enc_dinode di) = di"
proof -
  let ?h = "le16 (d_type di) @ le16 (d_major di) @ le16 (d_minor di) @ le16 (d_nlink di) @ le32 (d_size di)"
  let ?w = "concat (map le32 (d_addrs di))"
  have e: "enc_dinode di = ?h @ ?w" by (simp add: enc_dinode_def)
  have "get16 (enc_dinode di) 0 = d_type di"
    using get16_at [of "[]" 0 "d_type di"] by (simp add: enc_dinode_def)
  moreover have "get16 (enc_dinode di) 2 = d_major di"
    using get16_at [of "le16 (d_type di)" 2 "d_major di"] by (simp add: enc_dinode_def)
  moreover have "get16 (enc_dinode di) 4 = d_minor di"
    using get16_at [of "le16 (d_type di) @ le16 (d_major di)" 4 "d_minor di"] by (simp add: enc_dinode_def)
  moreover have "get16 (enc_dinode di) 6 = d_nlink di"
    using get16_at [of "le16 (d_type di) @ le16 (d_major di) @ le16 (d_minor di)" 6 "d_nlink di"]
    by (simp add: enc_dinode_def)
  moreover have "get32 (enc_dinode di) 8 = d_size di"
    using get32_at [of "le16 (d_type di) @ le16 (d_major di) @ le16 (d_minor di) @ le16 (d_nlink di)" 8 "d_size di"]
    by (simp add: enc_dinode_def)
  moreover have "map (\<lambda>i. get32 (enc_dinode di) (12 + 4 * i)) [0..<NDIRECT + 1] = d_addrs di"
    using get32_words [of _ "d_addrs di" ?h 12] assms by (intro nth_equalityI) (auto simp: e simp del: upt_Suc)
  ultimately show ?thesis by (simp add: dec_dinode_def)
qed

lemma get_put_dinode_same:
  assumes "length d = BSIZE" and "length (d_addrs di) = NDIRECT + 1"
  shows "get_dinode (put_dinode inum di d) inum = di"
proof -
  have l: "length (enc_dinode di) = 64" by (rule length_enc_dinode [OF assms(2)])
  have "slice (patch d (dip_off inum) (enc_dinode di)) (dip_off inum) 64 = enc_dinode di"
    using slice_patch_same [of "dip_off inum" "enc_dinode di" d] dip_off_bound [of inum] assms(1) l by simp
  then show ?thesis by (simp add: get_dinode_def put_dinode_def dec_enc_dinode [OF assms(2)])
qed

lemma get_put_dinode_other:
  assumes "length d = BSIZE" and "length (d_addrs di) = NDIRECT + 1" and "inum mod IPB \<noteq> j mod IPB"
  shows "get_dinode (put_dinode inum di d) j = get_dinode d j"
proof -
  have l: "length (enc_dinode di) = 64" by (rule length_enc_dinode [OF assms(2)])
  have "dip_off j + 64 \<le> dip_off inum \<or> dip_off inum + 64 \<le> dip_off j"
    using assms(3) by (auto simp: dip_off_def)
  then have "slice (patch d (dip_off inum) (enc_dinode di)) (dip_off j) 64 = slice d (dip_off j) 64"
    using slice_patch_other [of "dip_off j" 64 "dip_off inum" "enc_dinode di" d] dip_off_bound [of inum] assms(1) l
    by simp
  then show ?thesis by (simp add: get_dinode_def put_dinode_def)
qed

subsection \<open>Files as functions from offsets to bytes\<close>

text \<open>
  The disk block of block \<open>bn\<close> of a file with the addresses \<open>as\<close> (0 when there is none), and the
  byte at an offset; a block that is not allocated reads as zeros.
\<close>

definition file_blk :: "(nat \<Rightarrow> byte list) \<Rightarrow> u32 list \<Rightarrow> nat \<Rightarrow> nat" where
  "file_blk v as bn =
     (if bn < NDIRECT then unat (as ! bn)
      else if as ! NDIRECT = 0 then 0
      else unat (get32 (v (unat (as ! NDIRECT))) (4 * (bn - NDIRECT))))"

definition file_byte :: "(nat \<Rightarrow> byte list) \<Rightarrow> u32 list \<Rightarrow> nat \<Rightarrow> byte" where
  "file_byte v as off =
     (if file_blk v as (off div BSIZE) = 0 then 0 else v (file_blk v as (off div BSIZE)) ! (off mod BSIZE))"

definition data_blk :: "superblock \<Rightarrow> tstore \<Rightarrow> nat \<Rightarrow> bool" where
  "data_blk sb a b \<longleftrightarrow> meta_end sb \<le> b \<and> b < sb_size sb \<and> used sb (t_view a) b"

text \<open>The blocks of a file: its data blocks and its indirect block.\<close>

definition owns :: "(nat \<Rightarrow> byte list) \<Rightarrow> u32 list \<Rightarrow> nat \<Rightarrow> bool" where
  "owns v as x \<longleftrightarrow> x \<noteq> 0 \<and> (x = unat (as ! NDIRECT) \<or> (\<exists>bn<MAXFILE. file_blk v as bn = x))"

text \<open>
  A well-formed file: its blocks are used data blocks that nobody holds, no block occurs twice, and
  the indirect block is none of the others.
\<close>

definition file_ok :: "superblock \<Rightarrow> tstore \<Rightarrow> u32 list \<Rightarrow> bool" where
  "file_ok sb a as \<longleftrightarrow> length as = NDIRECT + 1 \<and>
     (\<forall>x. owns (t_view a) as x \<longrightarrow> data_blk sb a x \<and> \<not> t_locked a x) \<and>
     (\<forall>bn bn'. bn < MAXFILE \<longrightarrow> bn' < MAXFILE \<longrightarrow> file_blk (t_view a) as bn \<noteq> 0 \<longrightarrow>
        file_blk (t_view a) as bn = file_blk (t_view a) as bn' \<longrightarrow> bn = bn') \<and>
     (\<forall>bn<MAXFILE. as ! NDIRECT \<noteq> 0 \<longrightarrow> file_blk (t_view a) as bn \<noteq> unat (as ! NDIRECT))"

text \<open>
  A step on a file that keeps its bytes: blocks may be allocated to it, its blocks stay its blocks,
  and the other used blocks, the inodes and the locks do not change.
\<close>

definition file_step :: "superblock \<Rightarrow> tstore \<Rightarrow> u32 list \<Rightarrow> tstore \<Rightarrow> u32 list \<Rightarrow> bool" where
  "file_step sb a as a' as' \<longleftrightarrow> fs_ok sb a' \<and> file_ok sb a' as' \<and>
     (\<forall>bn<MAXFILE. file_blk (t_view a) as bn \<noteq> 0 \<longrightarrow>
        file_blk (t_view a') as' bn = file_blk (t_view a) as bn) \<and>
     (\<forall>x. data_blk sb a x \<and> \<not> owns (t_view a) as x \<longrightarrow>
        data_blk sb a' x \<and> \<not> owns (t_view a') as' x \<and> t_view a' x = t_view a x) \<and>
     (\<forall>x. x < sb_bmapstart sb \<longrightarrow> t_view a' x = t_view a x) \<and>
     t_locked a' = t_locked a \<and> t_size a' = t_size a \<and> t_home a' = t_home a \<and>
     t_slots a' = t_slots a \<and> t_open a' = t_open a"

definition same_bytes :: "(nat \<Rightarrow> byte list) \<Rightarrow> u32 list \<Rightarrow> (nat \<Rightarrow> byte list) \<Rightarrow> u32 list \<Rightarrow> bool" where
  "same_bytes v as v' as' \<longleftrightarrow> (\<forall>off. off < MAXFILE * BSIZE \<longrightarrow> file_byte v' as' off = file_byte v as off)"

lemma file_step_refl: "fs_ok sb a \<Longrightarrow> file_ok sb a as \<Longrightarrow> file_step sb a as a as"
  by (simp add: file_step_def)

lemma file_step_trans:
  "file_step sb a as a' as' \<Longrightarrow> file_step sb a' as' a'' as'' \<Longrightarrow> file_step sb a as a'' as''"
  unfolding file_step_def by auto

lemma same_bytes_trans: "same_bytes v as v' as' \<Longrightarrow> same_bytes v' as' v'' as'' \<Longrightarrow> same_bytes v as v'' as''"
  by (simp add: same_bytes_def)

lemma same_bytesI:
  assumes "\<And>bn. bn < MAXFILE \<Longrightarrow>
      (file_blk v as bn \<noteq> 0 \<and> file_blk v' as' bn = file_blk v as bn \<and> v' (file_blk v as bn) = v (file_blk v as bn)) \<or>
      (file_blk v as bn = 0 \<and> (file_blk v' as' bn = 0 \<or> v' (file_blk v' as' bn) = replicate BSIZE 0))"
  shows "same_bytes v as v' as'"
  unfolding same_bytes_def
proof (intro allI impI)
  fix o' assume "o' < MAXFILE * BSIZE"
  then have bn: "o' div BSIZE < MAXFILE" by (simp add: less_mult_imp_div_less)
  have "o' mod BSIZE < BSIZE" by (simp add: BSIZE_def)
  then show "file_byte v' as' o' = file_byte v as o'" using assms [OF bn] by (auto simp: file_byte_def)
qed

lemma file_okD:
  assumes "file_ok sb a as"
  shows "length as = NDIRECT + 1"
    and "\<And>x. owns (t_view a) as x \<Longrightarrow> data_blk sb a x \<and> \<not> t_locked a x"
    and "\<And>bn bn'. bn < MAXFILE \<Longrightarrow> bn' < MAXFILE \<Longrightarrow> file_blk (t_view a) as bn \<noteq> 0 \<Longrightarrow>
        file_blk (t_view a) as bn = file_blk (t_view a) as bn' \<Longrightarrow> bn = bn'"
    and "\<And>bn. bn < MAXFILE \<Longrightarrow> as ! NDIRECT \<noteq> 0 \<Longrightarrow> file_blk (t_view a) as bn \<noteq> unat (as ! NDIRECT)"
  using assms unfolding file_ok_def by blast+

lemma owns_blk: "bn < MAXFILE \<Longrightarrow> file_blk v as bn \<noteq> 0 \<Longrightarrow> owns v as (file_blk v as bn)"
  by (auto simp: owns_def)

lemma owns_ind: "as ! NDIRECT \<noteq> 0 \<Longrightarrow> owns v as (unat (as ! NDIRECT))"
  by (simp add: owns_def unat_eq_0)

lemma NDIRECT_MAXFILE: "NDIRECT < MAXFILE" "bn < MAXFILE \<Longrightarrow> \<not> bn < NDIRECT \<Longrightarrow> 4 * (bn - NDIRECT) + 4 \<le> BSIZE"
  by (auto simp: MAXFILE_def NINDIRECT_def NDIRECT_def BSIZE_def)

text \<open>An allocation does not touch used data blocks.\<close>

lemma t_alloc_data:
  assumes "data_blk sb a x" and "\<not> used sb (t_view a) c" and "c < sb_size sb"
  shows "t_view (t_alloc sb c a) x = t_view a x" and "x \<noteq> c"
proof -
  show "x \<noteq> c" using assms by (auto simp: data_blk_def)
  moreover have "x \<noteq> BBLOCK c sb" using BBLOCK_meta(2) [OF assms(3)] assms(1) by (auto simp: data_blk_def)
  ultimately show "t_view (t_alloc sb c a) x = t_view a x" by (simp add: t_alloc_view)
qed

lemma t_alloc_data_blk:
  assumes "length (t_view a (BBLOCK c sb)) = BSIZE" and "meta_end sb \<le> c" and "c < sb_size sb"
  shows "data_blk sb (t_alloc sb c a) x \<longleftrightarrow> data_blk sb a x \<or> x = c"
  using used_t_alloc [OF assms] assms by (auto simp: data_blk_def)

text \<open>A free block is allocated and becomes the direct block \<open>bn\<close>, or the indirect block.\<close>

lemma of_nat_block:
  assumes "fs_ok sb a" and "c < sb_size sb"
  shows "unat (of_nat c :: u32) = c"
  using assms by (simp add: fs_ok_def fs_geom_def unat_of_nat take_bit_nat_eq_self)

text \<open>
  The common part of the three allocations: from the block map after the allocation, the file is
  well formed and keeps its bytes. \<open>nw\<close> is the new block.
\<close>

lemma file_step_alloc:
  assumes fs: "fs_ok sb a" and ok: "file_ok sb a as" and fs': "fs_ok sb a'" and len: "length as' = NDIRECT + 1"
    and nw: "\<not> data_blk sb a nw" "data_blk sb a' nw" "\<not> t_locked a nw" "nw \<noteq> 0"
    and keep: "\<And>bn. bn < MAXFILE \<Longrightarrow> file_blk (t_view a) as bn \<noteq> 0 \<Longrightarrow>
        file_blk (t_view a') as' bn = file_blk (t_view a) as bn"
    and new: "\<And>bn. bn < MAXFILE \<Longrightarrow> file_blk (t_view a) as bn = 0 \<Longrightarrow>
        file_blk (t_view a') as' bn = 0 \<or> (file_blk (t_view a') as' bn = nw \<and> bn = k)"
    and ind: "as' ! NDIRECT = as ! NDIRECT \<or>
        (as ! NDIRECT = 0 \<and> unat (as' ! NDIRECT) = nw \<and> (\<forall>bn<MAXFILE. file_blk (t_view a') as' bn \<noteq> nw))"
    and ind_new: "as' ! NDIRECT \<noteq> 0 \<Longrightarrow> as' ! NDIRECT = as ! NDIRECT \<Longrightarrow> unat (as ! NDIRECT) \<noteq> nw"
    and data: "\<And>x. data_blk sb a x \<Longrightarrow> data_blk sb a' x"
    and view: "\<And>x. data_blk sb a x \<Longrightarrow> \<not> (as ! NDIRECT \<noteq> 0 \<and> x = unat (as ! NDIRECT)) \<Longrightarrow> t_view a' x = t_view a x"
    and zero: "t_view a' nw = replicate BSIZE 0 \<or> (\<forall>bn<MAXFILE. file_blk (t_view a') as' bn \<noteq> nw)"
    and meta: "\<And>x. x < sb_bmapstart sb \<Longrightarrow> t_view a' x = t_view a x"
    and rest: "t_locked a' = t_locked a" "t_size a' = t_size a" "t_home a' = t_home a"
      "t_slots a' = t_slots a" "t_open a' = t_open a"
  shows "file_step sb a as a' as' \<and> same_bytes (t_view a) as (t_view a') as'"
proof -
  note O = file_okD [OF ok]
  have blk': "file_blk (t_view a') as' bn = file_blk (t_view a) as bn \<or>
      (file_blk (t_view a) as bn = 0 \<and> file_blk (t_view a') as' bn = nw \<and> bn = k)" if "bn < MAXFILE" for bn
    using keep [OF that] new [OF that] by (cases "file_blk (t_view a) as bn = 0") auto
  have own': "owns (t_view a') as' x \<Longrightarrow> owns (t_view a) as x \<or> x = nw" for x
    using blk' ind by (fastforce simp: owns_def)
  have old: "file_blk (t_view a) as bn \<noteq> nw" if "bn < MAXFILE" for bn
    using O(2) [OF owns_blk [OF that]] nw(1,4) by (cases "file_blk (t_view a) as bn = 0") auto
  have dist: "bn = bn'" if bn: "bn < MAXFILE" "bn' < MAXFILE" "file_blk (t_view a') as' bn \<noteq> 0"
      "file_blk (t_view a') as' bn = file_blk (t_view a') as' bn'" for bn bn'
    using blk' [OF bn(1)] blk' [OF bn(2)] O(3) [OF bn(1,2)] old [OF bn(1)] old [OF bn(2)] bn(3,4) by auto
  have indne: "file_blk (t_view a') as' bn \<noteq> unat (as' ! NDIRECT)"
    if bn: "bn < MAXFILE" and i: "as' ! NDIRECT \<noteq> 0" for bn
    using ind
  proof
    assume same: "as' ! NDIRECT = as ! NDIRECT"
    then show ?thesis using blk' [OF bn] O(4) [OF bn] ind_new [OF i same] i by auto
  qed (use bn in auto)
  have own_ok: "data_blk sb a' x \<and> \<not> t_locked a' x" if "owns (t_view a') as' x" for x
    using own' [OF that] O(2) data nw(2,3) rest(1) by auto
  then have ok': "file_ok sb a' as'"
    using len dist indne unfolding file_ok_def by blast
  have "data_blk sb a' x \<and> \<not> owns (t_view a') as' x \<and> t_view a' x = t_view a x"
    if x: "data_blk sb a x" "\<not> owns (t_view a) as x" for x
  proof -
    have "\<not> (as ! NDIRECT \<noteq> 0 \<and> x = unat (as ! NDIRECT))" using x(2) owns_ind [of as] by auto
    moreover have "x \<noteq> nw" using x(1) nw(1) by auto
    ultimately show ?thesis using x own' [of x] data view by blast
  qed
  then have "file_step sb a as a' as'"
    unfolding file_step_def using fs' ok' keep meta rest by blast
  moreover have "same_bytes (t_view a) as (t_view a') as'"
  proof (rule same_bytesI)
    fix bn assume bn: "bn < MAXFILE"
    show "(file_blk (t_view a) as bn \<noteq> 0 \<and> file_blk (t_view a') as' bn = file_blk (t_view a) as bn \<and>
        t_view a' (file_blk (t_view a) as bn) = t_view a (file_blk (t_view a) as bn)) \<or>
      (file_blk (t_view a) as bn = 0 \<and> (file_blk (t_view a') as' bn = 0 \<or>
        t_view a' (file_blk (t_view a') as' bn) = replicate BSIZE 0))"
    proof (cases "file_blk (t_view a) as bn = 0")
      case True
      then show ?thesis using blk' [OF bn] zero bn by auto
    next
      case False
      have "data_blk sb a (file_blk (t_view a) as bn)" using O(2) owns_blk [OF bn False] by blast
      then show ?thesis using False keep [OF bn False] view O(4) [OF bn] by auto
    qed
  qed
  ultimately show ?thesis by blast
qed

lemma alloc_direct:
  assumes fs: "fs_ok sb a" and ok: "file_ok sb a as" and c: "c < sb_size sb" "\<not> used sb (t_view a) c"
    and len: "length (t_view a (BBLOCK c sb)) = BSIZE" and bn: "bn < NDIRECT" "as ! bn = 0"
  defines "a' \<equiv> t_alloc sb c a" and "as' \<equiv> as[bn := of_nat c]"
  shows "file_step sb a as a' as'" and "same_bytes (t_view a) as (t_view a') as'"
    and "file_blk (t_view a') as' bn = c" and "c \<noteq> 0"
proof -
  note A = fs_ok_t_alloc [OF fs len c] and L = file_okD(1) [OF ok] and d = t_alloc_data [OF _ c(2,1)]
  have uc: "unat (of_nat c :: u32) = c" by (rule of_nat_block [OF fs c(1)])
  show c0: "c \<noteq> 0" using A(1) by (simp add: meta_end_def)
  have i: "as' ! NDIRECT = as ! NDIRECT" using bn(1) by (simp add: as'_def)
  have iv: "t_view a' (unat (as ! NDIRECT)) = t_view a (unat (as ! NDIRECT))" if "as ! NDIRECT \<noteq> 0"
    unfolding a'_def using d(1) file_okD(2) [OF ok owns_ind [OF that]] by blast
  have blk: "file_blk (t_view a') as' bn' = (if bn' = bn then c else file_blk (t_view a) as bn')" for bn'
    using bn(1) L uc i iv by (auto simp: file_blk_def as'_def)
  then show "file_blk (t_view a') as' bn = c" by simp
  have z: "file_blk (t_view a) as bn = 0" using bn by (simp add: file_blk_def)
  have "file_step sb a as a' as' \<and> same_bytes (t_view a) as (t_view a') as'"
  proof (rule file_step_alloc [OF fs ok, where nw = c and k = bn])
    show "fs_ok sb a'" using A(2) by (simp add: a'_def)
    show "data_blk sb a' c" using t_alloc_data_blk [OF len A(1) c(1)] by (simp add: a'_def)
    show "\<not> t_locked a c" using fs c(2) by (auto simp: fs_ok_def)
    show "as' ! NDIRECT \<noteq> 0 \<Longrightarrow> as' ! NDIRECT = as ! NDIRECT \<Longrightarrow> unat (as ! NDIRECT) \<noteq> c"
      using file_okD(2) [OF ok owns_ind] d(2) i by auto
    show "t_view a' x = t_view a x" if "x < sb_bmapstart sb" for x
      using that A(1) BBLOCK_meta(1) [OF c(1)] by (auto simp: a'_def t_alloc_view meta_end_def)
    show "data_blk sb a' x" if "data_blk sb a x" for x
      using t_alloc_data_blk [OF len A(1) c(1)] that by (simp add: a'_def)
    show "t_view a' x = t_view a x" if "data_blk sb a x" for x using d(1) [OF that] by (simp add: a'_def)
    show "t_view a' c = replicate BSIZE 0 \<or> (\<forall>bn<MAXFILE. file_blk (t_view a') as' bn \<noteq> c)"
      by (simp add: a'_def t_alloc_view)
    show "length as' = NDIRECT + 1" using L by (simp add: as'_def)
    show "\<not> data_blk sb a c" using c(2) by (simp add: data_blk_def)
    show "t_locked a' = t_locked a" "t_size a' = t_size a" "t_home a' = t_home a"
      "t_slots a' = t_slots a" "t_open a' = t_open a" by (simp_all add: a'_def)
  qed (use c0 i blk z in \<open>auto split: if_splits\<close>)
  then show "file_step sb a as a' as'" "same_bytes (t_view a) as (t_view a') as'" by blast+
qed

lemma alloc_indirect:
  assumes fs: "fs_ok sb a" and ok: "file_ok sb a as" and c: "c < sb_size sb" "\<not> used sb (t_view a) c"
    and len: "length (t_view a (BBLOCK c sb)) = BSIZE" and i0: "as ! NDIRECT = 0"
  defines "a' \<equiv> t_alloc sb c a" and "as' \<equiv> as[NDIRECT := of_nat c]"
  shows "file_step sb a as a' as'" and "same_bytes (t_view a) as (t_view a') as'"
    and "unat (as' ! NDIRECT) = c" and "as' ! NDIRECT \<noteq> 0"
    and "bn < MAXFILE \<Longrightarrow> file_blk (t_view a') as' bn = file_blk (t_view a) as bn"
proof -
  note A = fs_ok_t_alloc [OF fs len c] and L = file_okD(1) [OF ok] and d = t_alloc_data [OF _ c(2,1)]
  have uc: "unat (of_nat c :: u32) = c" by (rule of_nat_block [OF fs c(1)])
  have c0: "c \<noteq> 0" using A(1) by (simp add: meta_end_def)
  show i: "unat (as' ! NDIRECT) = c" using uc L by (simp add: as'_def)
  then show inz: "as' ! NDIRECT \<noteq> 0" using c0 by auto
  have blk: "file_blk (t_view a') as' bn' = file_blk (t_view a) as bn'" if "bn' < MAXFILE" for bn'
  proof (cases "bn' < NDIRECT")
    case False
    then have "get32 (replicate BSIZE 0) (4 * (bn' - NDIRECT)) = 0"
      using NDIRECT_MAXFILE(2) [OF that] by simp
    then show ?thesis using False i inz i0 by (simp add: file_blk_def a'_def t_alloc_view)
  qed (simp add: file_blk_def as'_def)
  then show "bn < MAXFILE \<Longrightarrow> file_blk (t_view a') as' bn = file_blk (t_view a) as bn" .
  have nc: "file_blk (t_view a) as bn' \<noteq> c" if "bn' < MAXFILE" for bn'
    using file_okD(2) [OF ok owns_blk [OF that]] d(2) c0 by auto
  have "file_step sb a as a' as' \<and> same_bytes (t_view a) as (t_view a') as'"
  proof (rule file_step_alloc [OF fs ok, where nw = c and k = 0])
    show "fs_ok sb a'" using A(2) by (simp add: a'_def)
    show "data_blk sb a' c" using t_alloc_data_blk [OF len A(1) c(1)] by (simp add: a'_def)
    show "\<not> t_locked a c" using fs c(2) by (auto simp: fs_ok_def)
    show "t_view a' x = t_view a x" if "x < sb_bmapstart sb" for x
      using that A(1) BBLOCK_meta(1) [OF c(1)] by (auto simp: a'_def t_alloc_view meta_end_def)
    show "data_blk sb a' x" if "data_blk sb a x" for x
      using t_alloc_data_blk [OF len A(1) c(1)] that by (simp add: a'_def)
    show "t_view a' x = t_view a x" if "data_blk sb a x" for x using d(1) [OF that] by (simp add: a'_def)
    show "t_view a' c = replicate BSIZE 0 \<or> (\<forall>bn<MAXFILE. file_blk (t_view a') as' bn \<noteq> c)"
      by (simp add: a'_def t_alloc_view)
    show "length as' = NDIRECT + 1" using L by (simp add: as'_def)
    show "\<not> data_blk sb a c" using c(2) by (simp add: data_blk_def)
    show "t_locked a' = t_locked a" "t_size a' = t_size a" "t_home a' = t_home a"
      "t_slots a' = t_slots a" "t_open a' = t_open a" by (simp_all add: a'_def)
  qed (use c0 i i0 inz blk nc in auto)
  then show "file_step sb a as a' as'" "same_bytes (t_view a) as (t_view a') as'" by blast+
qed

lemma alloc_entry:
  assumes fs: "fs_ok sb a" and ok: "file_ok sb a as" and c: "c < sb_size sb" "\<not> used sb (t_view a) c"
    and len: "length (t_view a (BBLOCK c sb)) = BSIZE" "length (t_view a (unat (as ! NDIRECT))) = BSIZE"
    and bn: "bn < MAXFILE" "\<not> bn < NDIRECT" and ind: "as ! NDIRECT \<noteq> 0" and z: "file_blk (t_view a) as bn = 0"
  defines "iv \<equiv> put32 (t_view a (unat (as ! NDIRECT))) (4 * (bn - NDIRECT)) (of_nat c)"
  defines "a' \<equiv> t_put (unat (as ! NDIRECT)) iv (t_alloc sb c a)"
  shows "file_step sb a as a' as" and "same_bytes (t_view a) as (t_view a') as"
    and "file_blk (t_view a') as bn = c" and "c \<noteq> 0"
proof -
  let ?i = "unat (as ! NDIRECT)"
  note A = fs_ok_t_alloc [OF fs len(1) c] and L = file_okD(1) [OF ok] and d = t_alloc_data [OF _ c(2,1)]
  have uc: "unat (of_nat c :: u32) = c" by (rule of_nat_block [OF fs c(1)])
  show c0: "c \<noteq> 0" using A(1) by (simp add: meta_end_def)
  have di: "data_blk sb a ?i" using file_okD(2) [OF ok owns_ind [OF ind]] by blast
  have ic: "?i \<noteq> c" by (rule d(2) [OF di])
  have blk: "file_blk (t_view a') as bn' = (if bn' = bn then c else file_blk (t_view a) as bn')"
    if "bn' < MAXFILE" for bn'
  proof (cases "bn' < NDIRECT")
    case False
    have "4 * (bn - NDIRECT) + 4 \<le> BSIZE" using NDIRECT_MAXFILE(2) [OF bn] .
    moreover have "bn' \<noteq> bn \<Longrightarrow> 4 * (bn' - NDIRECT) + 4 \<le> 4 * (bn - NDIRECT) \<or> 4 * (bn - NDIRECT) + 4 \<le> 4 * (bn' - NDIRECT)"
      using False bn(2) by linarith
    ultimately show ?thesis
      using False bn(2) ind len(2) uc by (auto simp: file_blk_def a'_def iv_def get32_put32_other)
  qed (use bn in \<open>auto simp: file_blk_def\<close>)
  then show "file_blk (t_view a') as bn = c" using bn(1) by simp
  have ub: "used sb (t_view a') x = used sb (t_view (t_alloc sb c a)) x" if "x < sb_size sb" for x
    using BBLOCK_meta(2) [OF that] di unfolding a'_def by (auto simp: data_blk_def intro!: used_other)
  have db: "data_blk sb a' x \<longleftrightarrow> data_blk sb a x \<or> x = c" for x
    using t_alloc_data_blk [OF len(1) A(1) c(1), of x] ub [of x] by (auto simp: data_blk_def)
  have "meta_end sb \<le> sb_size sb" using fs by (simp add: fs_ok_def fs_geom_def)
  then have fs': "fs_ok sb a'" using A(2) ub by (auto simp: fs_ok_def fs_geom_def a'_def)
  have nc: "file_blk (t_view a) as bn' \<noteq> c" if "bn' < MAXFILE" for bn'
    using file_okD(2) [OF ok owns_blk [OF that]] d(2) c0 by auto
  have "file_step sb a as a' as \<and> same_bytes (t_view a) as (t_view a') as"
  proof (rule file_step_alloc [OF fs ok fs', where nw = c and k = bn])
    show "\<not> t_locked a c" using fs c(2) by (auto simp: fs_ok_def)
    show "t_view a' x = t_view a x" if "x < sb_bmapstart sb" for x
      using that A(1) BBLOCK_meta(1) [OF c(1)] di by (auto simp: a'_def t_alloc_view meta_end_def data_blk_def)
    show "t_view a' x = t_view a x" if "data_blk sb a x" "\<not> (as ! NDIRECT \<noteq> 0 \<and> x = ?i)" for x
      using d(1) [OF that(1)] that(2) ind by (simp add: a'_def)
    show "t_view a' c = replicate BSIZE 0 \<or> (\<forall>bn<MAXFILE. file_blk (t_view a') as bn \<noteq> c)"
      using ic by (simp add: a'_def t_alloc_view)
    show "\<not> data_blk sb a c" using c(2) by (simp add: data_blk_def)
    show "t_locked a' = t_locked a" "t_size a' = t_size a" "t_home a' = t_home a"
      "t_slots a' = t_slots a" "t_open a' = t_open a" by (simp_all add: a'_def)
  qed (use c0 ic L blk z db in auto)
  then show "file_step sb a as a' as" "same_bytes (t_view a) as (t_view a') as" by blast+
qed

text \<open>Free blocks.\<close>

definition nfree :: "superblock \<Rightarrow> tstore \<Rightarrow> nat" where
  "nfree sb a = card {b. b < sb_size sb \<and> \<not> used sb (t_view a) b}"

lemma nfree_pos: "0 < nfree sb a \<Longrightarrow> \<exists>c. c < sb_size sb \<and> \<not> used sb (t_view a) c"
  unfolding nfree_def by (metis (mono_tags, lifting) card_gt_0_iff mem_Collect_eq ex_in_conv)

lemma nfree_t_alloc:
  assumes "length (t_view a (BBLOCK c sb)) = BSIZE" and "meta_end sb \<le> c" and "c < sb_size sb"
  shows "nfree sb a \<le> nfree sb (t_alloc sb c a) + 1"
proof -
  let ?S = "{b. b < sb_size sb \<and> \<not> used sb (t_view (t_alloc sb c a)) b}"
  have "{b. b < sb_size sb \<and> \<not> used sb (t_view a) b} \<subseteq> insert c ?S" using used_t_alloc [OF assms] by auto
  then have "nfree sb a \<le> card (insert c ?S)" unfolding nfree_def by (intro card_mono) auto
  also have "\<dots> \<le> card ?S + 1" by (simp add: card_insert_if)
  finally show ?thesis by (simp add: nfree_def)
qed

lemma nfree_t_put_data:
  assumes "meta_end sb \<le> x"
  shows "nfree sb (t_put x d a) = nfree sb a"
proof -
  have "used sb (t_view (t_put x d a)) b = used sb (t_view a) b" if "b < sb_size sb" for b
    using BBLOCK_meta(2) [OF that] assms by (auto intro!: used_other)
  then have "{b. b < sb_size sb \<and> \<not> used sb (t_view (t_put x d a)) b} = {b. b < sb_size sb \<and> \<not> used sb (t_view a) b}"
    by blast
  then show ?thesis by (simp only: nfree_def)
qed

subsection \<open>The block map\<close>

lemma data_home:
  assumes "fs_ok sb a" and "data_blk sb a x"
  shows "t_home a x" and "x < t_size a"
  using assms by (auto simp: fs_ok_def fs_geom_def data_blk_def meta_end_def)

lemma card_insert_1: "card (insert x S) \<le> card S + 1"
  by (cases "finite S") (simp_all add: card_insert_if)

text \<open>Locking one more block costs at most one place in the cache.\<close>

lemma room_lock:
  assumes "room (Suc k) a"
  shows "room k (a\<lparr>t_locked := (t_locked a)(x := True)\<rparr>)"
proof -
  have "t_busy (a\<lparr>t_locked := (t_locked a)(x := True)\<rparr>) = insert x (t_busy a)" by (auto simp: t_busy_def)
  then show ?thesis using assms card_insert_1 [of x "t_busy a"] by (simp add: room_def)
qed

text \<open>What holds of the inode \<open>ip\<close> and its file when a call on it starts and ends.\<close>

definition ifile_ok :: "nat \<Rightarrow> fsstate \<Rightarrow> bool" where
  "ifile_ok ip s \<longleftrightarrow> log_inv (ls s) \<and> fs_ok (fsb s) (tabs (ls s)) \<and>
     file_ok (fsb s) (tabs (ls s)) (i_addrs (icache s ip)) \<and> i_dev (icache s ip) = 1"

lemma ifile_okD:
  assumes "ifile_ok ip s"
  shows "log_inv (ls s)" and "fs_ok (fsb s) (tabs (ls s))"
    and "file_ok (fsb s) (tabs (ls s)) (i_addrs (icache s ip))" and "i_dev (icache s ip) = 1"
  using assms by (simp_all add: ifile_ok_def)

lemma bmap_mapped:
  assumes ok: "ifile_ok ip s" and rm: "room 0 (tabs (ls s))" and bn: "bn < MAXFILE"
    and nz: "file_blk (t_view (tabs (ls s))) (i_addrs (icache s ip)) bn \<noteq> 0"
  shows "\<exists>l. bmap me ip bn s = Ret (file_blk (t_view (tabs (ls s))) (i_addrs (icache s ip)) bn) (s\<lparr>ls := l\<rparr>) \<and>
    log_inv l \<and> tabs l = tabs (ls s)"
proof (cases "bn < NDIRECT")
  case True
  then show ?thesis
    using nz ifile_okD(1) [OF ok] by (intro exI [of _ "ls s"]) (simp add: bmap_def file_blk_def unat_eq_0)
next
  case False
  let ?as = "i_addrs (icache s ip)" and ?a = "tabs (ls s)"
  let ?i = "unat (?as ! NDIRECT)"
  have ind: "?as ! NDIRECT \<noteq> 0" using nz False by (auto simp: file_blk_def)
  have di: "data_blk (fsb s) ?a ?i" "\<not> t_locked ?a ?i"
    using file_okD(2) [OF ifile_okD(3) [OF ok] owns_ind [OF ind]] by blast+
  obtain bp l1 l2 where 1: "fbread me 1 ?i s = Ret bp (s\<lparr>ls := l1\<rparr>)"
    "\<forall>s1. ls s1 = l1 \<longrightarrow> fdata s1 bp = t_view ?a ?i"
    "\<forall>s1. ls s1 = l1 \<longrightarrow> fbrelse me bp s1 = Ret () (s1\<lparr>ls := l2\<rparr>)"
    "log_inv l2" "tabs l2 = ?a" "\<forall>j b. lheld me (ls s) j b \<longrightarrow> lheld me l2 j b"
    by (rule fs_read [OF ifile_okD(1) [OF ok] rm data_home(2) [OF ifile_okD(2) [OF ok] di(1)] di(2)])
  have bn': "bn - NDIRECT < NINDIRECT" using bn False by (auto simp: MAXFILE_def)
  have e: "get32 (t_view ?a ?i) (4 * (bn - NDIRECT)) \<noteq> 0" using nz False ind by (auto simp: file_blk_def)
  have "bmap me ip bn s = Ret (unat (get32 (t_view ?a ?i) (4 * (bn - NDIRECT)))) (s\<lparr>ls := l2\<rparr>)"
    unfolding bmap_def Let_def using False bn' ind 1(1-3) e ifile_okD(4) [OF ok] by simp
  then show ?thesis using 1(4,5) False ind by (auto simp: file_blk_def)
qed

text \<open>The second half of the indirect case: the entry is allocated while the indirect block is held.\<close>

lemma bmap_entry:
  assumes ok: "ifile_ok ip s" and rm: "room (k + 3) (tabs (ls s))" and bn: "bn < MAXFILE" "\<not> bn < NDIRECT"
    and ind: "i_addrs (icache s ip) ! NDIRECT \<noteq> 0"
    and z: "file_blk (t_view (tabs (ls s))) (i_addrs (icache s ip)) bn = 0" and fr: "0 < nfree (fsb s) (tabs (ls s))"
  shows "\<exists>c l. bmap me ip bn s = Ret c (s\<lparr>ls := l\<rparr>) \<and> c \<noteq> 0 \<and> log_inv l \<and>
    file_step (fsb s) (tabs (ls s)) (i_addrs (icache s ip)) (tabs l) (i_addrs (icache s ip)) \<and>
    same_bytes (t_view (tabs (ls s))) (i_addrs (icache s ip)) (t_view (tabs l)) (i_addrs (icache s ip)) \<and>
    file_blk (t_view (tabs l)) (i_addrs (icache s ip)) bn = c \<and> room k (tabs l) \<and>
    nfree (fsb s) (tabs (ls s)) \<le> nfree (fsb s) (tabs l) + 1"
proof -
  let ?as = "i_addrs (icache s ip)" and ?a = "tabs (ls s)" and ?sb = "fsb s"
  let ?i = "unat (?as ! NDIRECT)"
  note O = ifile_okD [OF ok]
  have di: "data_blk ?sb ?a ?i" "\<not> t_locked ?a ?i" using file_okD(2) [OF O(3) owns_ind [OF ind]] by blast+
  note dh = data_home [OF O(2) di(1)]
  have cap: "?i \<in> t_log ?a \<or> card (t_busy ?a) < NBUF" using rm by (simp add: room_def)
  obtain bp l1 where 1: "lbread me 1 ?i (ls s) = Ret bp l1" "log_inv l1" "lheld me l1 bp ?i"
    "tabs l1 = ?a\<lparr>t_locked := (t_locked ?a)(?i := True)\<rparr>"
    using lst.bread_ok [OF O(1) dh(2) di(2) cap] by blast
  let ?a1 = "?a\<lparr>t_locked := (t_locked ?a)(?i := True)\<rparr>"
  have fs1: "fs_ok ?sb ?a1" using O(2) di(1) by (auto simp: fs_ok_def fs_geom_def data_blk_def)
  have nums: "k + 3 = Suc (k + 2)" "k + 2 = Suc (Suc k)" by simp_all
  have rm1: "room (k + 2) ?a1" using rm unfolding nums(1) by (rule room_lock)
  obtain c0 where c0: "c0 < sb_size ?sb" "\<not> used ?sb (t_view ?a) c0" using nfree_pos [OF fr] by blast
  have pre: "log_inv (ls (s\<lparr>ls := l1\<rparr>))" "fs_ok (fsb (s\<lparr>ls := l1\<rparr>)) (tabs (ls (s\<lparr>ls := l1\<rparr>)))"
    "room 2 (tabs (ls (s\<lparr>ls := l1\<rparr>)))" "c0 < sb_size (fsb (s\<lparr>ls := l1\<rparr>))"
    "\<not> used (fsb (s\<lparr>ls := l1\<rparr>)) (t_view (tabs (ls (s\<lparr>ls := l1\<rparr>)))) c0"
    using 1(2) fs1 room_mono [OF rm1, of 2] c0 by (simp_all add: 1(4) del: tabs_sel)
  obtain c l2 where 2: "balloc me 1 (s\<lparr>ls := l1\<rparr>) = Ret c (s\<lparr>ls := l1\<rparr>\<lparr>ls := l2\<rparr>)" "log_inv l2" "c < sb_size ?sb"
    "meta_end ?sb \<le> c" "\<not> used ?sb (t_view (tabs l1)) c" "length (t_view (tabs l1) (BBLOCK c ?sb)) = BSIZE"
    "tabs l2 = t_alloc ?sb c (tabs l1)" "\<forall>j b. lheld me l1 j b \<longrightarrow> lheld me l2 j b"
    using balloc_ok [OF pre, of me] unfolding fsstate.select_convs fsstate.update_convs by auto
  have v1: "t_view (tabs l1) = t_view ?a" by (simp add: 1(4) del: tabs_sel)
  note 2 = 2(1-4) 2(5,6) [unfolded v1] 2(7) [unfolded 1(4)] 2(8)
  let ?iv = "put32 (t_view ?a ?i) (4 * (bn - NDIRECT)) (of_nat c)"
  have lv: "length (t_view ?a ?i) = BSIZE" using lst.view_length [OF O(1) dh(2)] .
  have di1: "data_blk ?sb ?a1 ?i" using di(1) by (simp add: data_blk_def)
  have ve: "t_view (tabs l2) ?i = t_view ?a ?i"
    using t_alloc_data(1) [OF di1, of c] 2(5,3) by (simp add: 2(7) del: tabs_sel)
  have h2: "lheld me l2 bp ?i" using 1(3) 2(8) by blast
  have r2: "room k (tabs l2)" unfolding 2(7) using rm1 unfolding nums(2) by (rule room_t_alloc)
  have log2: "t_home (tabs l2) ?i" "t_open (tabs l2)" "card (t_log (tabs l2)) < t_slots (tabs l2)" "length ?iv = BSIZE"
  proof -
    show "t_home (tabs l2) ?i" using dh(1) by (simp add: 2(7) del: tabs_sel)
    show "t_open (tabs l2)" using r2 by (simp add: room_def)
    have "card (t_log (tabs l2)) \<le> card (t_log ?a) + 2"
      using card_insert_1 [of c "insert (BBLOCK c ?sb) (t_log ?a)"] card_insert_1 [of "BBLOCK c ?sb" "t_log ?a"]
      unfolding 2(7) by simp
    then show "card (t_log (tabs l2)) < t_slots (tabs l2)" using rm by (simp add: room_def 2(7) del: tabs_sel)
    show "length ?iv = BSIZE" using lv NDIRECT_MAXFILE(2) [OF bn] by simp
  qed
  obtain l3 l4 where 3: "log_write bp (lset_data bp ?iv l2) = Ret () l3" "lbrelse me bp l3 = Ret () l4" "log_inv l4"
    "tabs l4 = t_put ?i ?iv ((tabs l2)\<lparr>t_locked := (t_locked (tabs l2))(?i := False)\<rparr>)"
    by (rule lst.finish_update [OF 2(2) h2 log2])
  have a4: "tabs l4 = t_put ?i ?iv (t_alloc ?sb c ?a)"
    using di(2) by (simp add: 3(4) 2(7) t_alloc_def t_put_def fun_upd_idem)
  have bn': "bn - NDIRECT < NINDIRECT" using bn by (auto simp: MAXFILE_def)
  have e: "get32 (t_view ?a ?i) (4 * (bn - NDIRECT)) = 0" using z bn(2) ind by (simp add: file_blk_def unat_eq_0)
  have f1: "fdata (s\<lparr>ls := l1\<rparr>) bp = t_view ?a ?i"
    using lst.held_data [OF 1(2,3)] by (simp add: fdata_def v1 del: tabs_sel)
  have f2: "fdata (s\<lparr>ls := l2\<rparr>) bp = t_view ?a ?i"
    using lst.held_data [OF 2(2) h2] ve by (simp add: fdata_def del: tabs_sel)
  have b1: "fbread me 1 ?i s = Ret bp (s\<lparr>ls := l1\<rparr>)" using 1(1) by (simp add: fbread_def)
  have b3: "flog_write bp (fset_data bp ?iv (s\<lparr>ls := l2\<rparr>)) = Ret () (s\<lparr>ls := l3\<rparr>)"
    using 3(1) by (simp add: flog_write_def fset_data_def)
  have b4: "fbrelse me bp (s\<lparr>ls := l3\<rparr>) = Ret () (s\<lparr>ls := l4\<rparr>)" using 3(2) by (simp add: fbrelse_def)
  have run: "bmap me ip bn s = Ret c (s\<lparr>ls := l4\<rparr>)"
    unfolding bmap_def Let_def using bn(2) bn' ind O(4) b1 f1 e 2(1) f2 b3 b4 by (simp del: tabs_sel)
  note E = alloc_entry [OF O(2,3) 2(3,5,6) lv bn ind z, folded a4]
  have "nfree ?sb ?a \<le> nfree ?sb (tabs l4) + 1"
    using nfree_t_alloc [OF 2(6,4,3)] nfree_t_put_data [of ?sb ?i] di(1) by (simp add: a4 data_blk_def del: tabs_sel)
  moreover have "room k (tabs l4)"
  proof -
    have b: "t_busy (tabs l4) = t_busy (tabs l2)" by (auto simp: a4 2(7) t_busy_def simp del: tabs_sel)
    have "card (t_log (tabs l4)) \<le> card (t_log ?a) + 3"
      using card_insert_1 [of ?i "t_log (t_alloc ?sb c ?a)"] card_insert_1 [of c "insert (BBLOCK c ?sb) (t_log ?a)"]
        card_insert_1 [of "BBLOCK c ?sb" "t_log ?a"] by (simp add: a4 del: tabs_sel)
    moreover have "t_open (tabs l4)" "t_slots (tabs l4) = t_slots ?a" using rm by (simp_all add: a4 room_def del: tabs_sel)
    ultimately show ?thesis using r2 rm unfolding room_def b by simp
  qed
  ultimately show ?thesis using run 3(3) E by blast
qed

text \<open>
  \<open>bmap\<close> returns the block of the file, allocating the indirect block and the block itself
  when they are missing; the bytes of the file do not change.
\<close>

lemma balloc_at:
  assumes "ifile_ok ip s" and "room (k + 2) (tabs (ls s))" and "0 < nfree (fsb s) (tabs (ls s))"
  obtains c l where "balloc me 1 s = Ret c (s\<lparr>ls := l\<rparr>)" and "log_inv l" and "c < sb_size (fsb s)"
    and "\<not> used (fsb s) (t_view (tabs (ls s))) c" and "length (t_view (tabs (ls s)) (BBLOCK c (fsb s))) = BSIZE"
    and "tabs l = t_alloc (fsb s) c (tabs (ls s))" and "room k (tabs l)"
    and "nfree (fsb s) (tabs (ls s)) \<le> nfree (fsb s) (tabs l) + 1"
proof -
  obtain c0 where c0: "c0 < sb_size (fsb s)" "\<not> used (fsb s) (t_view (tabs (ls s))) c0"
    using nfree_pos [OF assms(3)] by blast
  have rm: "room 2 (tabs (ls s))" using assms(2) by (rule room_mono) simp
  obtain c l where 1: "balloc me 1 s = Ret c (s\<lparr>ls := l\<rparr>)" "log_inv l" "c < sb_size (fsb s)" "meta_end (fsb s) \<le> c"
    "\<not> used (fsb s) (t_view (tabs (ls s))) c" "length (t_view (tabs (ls s)) (BBLOCK c (fsb s))) = BSIZE"
    "tabs l = t_alloc (fsb s) c (tabs (ls s))"
    using balloc_ok [OF ifile_okD(1,2) [OF assms(1)] rm c0, of me] by blast
  have "k + 2 = Suc (Suc k)" by simp
  then have "room k (tabs l)" unfolding 1(7) using assms(2) room_t_alloc by metis
  moreover have "nfree (fsb s) (tabs (ls s)) \<le> nfree (fsb s) (tabs l) + 1"
    unfolding 1(7) by (rule nfree_t_alloc [OF 1(6,4,3)])
  ultimately show ?thesis using that 1 by blast
qed

lemma bmap_ok:
  assumes ok: "ifile_ok ip s" and rm: "room (k + 5) (tabs (ls s))" and bn: "bn < MAXFILE"
    and fr: "2 \<le> nfree (fsb s) (tabs (ls s))"
  shows "\<exists>b as' l. bmap me ip bn s = Ret b (set_inode ip ((icache s ip)\<lparr>i_addrs := as'\<rparr>) (s\<lparr>ls := l\<rparr>)) \<and>
    b \<noteq> 0 \<and> log_inv l \<and> file_step (fsb s) (tabs (ls s)) (i_addrs (icache s ip)) (tabs l) as' \<and>
    same_bytes (t_view (tabs (ls s))) (i_addrs (icache s ip)) (t_view (tabs l)) as' \<and>
    file_blk (t_view (tabs l)) as' bn = b \<and> room k (tabs l) \<and>
    nfree (fsb s) (tabs (ls s)) \<le> nfree (fsb s) (tabs l) + 2"
proof -
  let ?as = "i_addrs (icache s ip)" and ?a = "tabs (ls s)" and ?sb = "fsb s"
  note O = ifile_okD [OF ok]
  have triv: "set_inode ip (icache s ip) (s\<lparr>ls := l\<rparr>) = s\<lparr>ls := l\<rparr>" for l
    by (simp add: set_inode_def)
  consider "file_blk (t_view ?a) ?as bn \<noteq> 0" | "file_blk (t_view ?a) ?as bn = 0" "bn < NDIRECT"
    | "file_blk (t_view ?a) ?as bn = 0" "\<not> bn < NDIRECT" "?as ! NDIRECT \<noteq> 0"
    | "file_blk (t_view ?a) ?as bn = 0" "\<not> bn < NDIRECT" "?as ! NDIRECT = 0" by blast
  then show ?thesis
  proof cases
    case 1
    have "room 0 ?a" using rm by (rule room_mono) simp
    then obtain l where "bmap me ip bn s = Ret (file_blk (t_view ?a) ?as bn) (s\<lparr>ls := l\<rparr>)" "log_inv l" "tabs l = ?a"
      using bmap_mapped [OF ok _ bn 1] by blast
    moreover have "room k ?a" using rm by (rule room_mono) simp
    moreover have "same_bytes (t_view ?a) ?as (t_view ?a) ?as" by (simp add: same_bytes_def)
    ultimately show ?thesis
      using 1 file_step_refl [OF O(2,3)]
      by (intro exI [of _ "file_blk (t_view ?a) ?as bn"] exI [of _ ?as] exI [of _ l])
        (simp add: triv del: tabs_sel)
  next
    case 2
    have r: "room ((k + 3) + 2) ?a" using rm by (simp add: add.commute)
    have f: "0 < nfree ?sb ?a" using fr by simp
    obtain c l where c: "balloc me 1 s = Ret c (s\<lparr>ls := l\<rparr>)" "log_inv l" "c < sb_size ?sb" "\<not> used ?sb (t_view ?a) c"
      "length (t_view ?a (BBLOCK c ?sb)) = BSIZE" "tabs l = t_alloc ?sb c ?a" "room (k + 3) (tabs l)"
      "nfree ?sb ?a \<le> nfree ?sb (tabs l) + 1"
      by (rule balloc_at [OF ok r f])
    have z: "?as ! bn = 0" using 2 by (simp add: file_blk_def unat_eq_0)
    note E = alloc_direct [OF O(2,3) c(3-5) 2(2) z, folded c(6)]
    have "bmap me ip bn s = Ret c (set_inode ip ((icache s ip)\<lparr>i_addrs := ?as[bn := of_nat c]\<rparr>) (s\<lparr>ls := l\<rparr>))"
      unfolding bmap_def Let_def using 2(2) z c(1) O(4) by simp
    moreover have "room k (tabs l)" using c(7) by (rule room_mono) simp
    ultimately show ?thesis using E c(2,8)
      by (intro exI [of _ c] exI [of _ "?as[bn := of_nat c]"] exI [of _ l]) simp
  next
    case 3
    have r: "room ((k + 2) + 3) ?a" using rm by (simp add: add.commute)
    have f: "0 < nfree ?sb ?a" using fr by simp
    obtain c l where c: "bmap me ip bn s = Ret c (s\<lparr>ls := l\<rparr>)" "c \<noteq> 0" "log_inv l"
      "file_step ?sb ?a ?as (tabs l) ?as" "same_bytes (t_view ?a) ?as (t_view (tabs l)) ?as"
      "file_blk (t_view (tabs l)) ?as bn = c" "room (k + 2) (tabs l)" "nfree ?sb ?a \<le> nfree ?sb (tabs l) + 1"
      using bmap_entry [OF ok r bn 3(2,3,1) f, of me] by blast
    have "room k (tabs l)" using c(7) by (rule room_mono) simp
    then show ?thesis using c
      by (intro exI [of _ c] exI [of _ ?as] exI [of _ l]) (simp add: triv del: tabs_sel)
  next
    case 4
    have r: "room ((k + 3) + 2) ?a" using rm by (simp add: add.commute)
    have f: "0 < nfree ?sb ?a" using fr by simp
    obtain c l where c: "balloc me 1 s = Ret c (s\<lparr>ls := l\<rparr>)" "log_inv l" "c < sb_size ?sb" "\<not> used ?sb (t_view ?a) c"
      "length (t_view ?a (BBLOCK c ?sb)) = BSIZE" "tabs l = t_alloc ?sb c ?a" "room (k + 3) (tabs l)"
      "nfree ?sb ?a \<le> nfree ?sb (tabs l) + 1"
      by (rule balloc_at [OF ok r f])
    let ?as1 = "?as[NDIRECT := of_nat c]"
    let ?s1 = "set_inode ip ((icache s ip)\<lparr>i_addrs := ?as1\<rparr>) (s\<lparr>ls := l\<rparr>)"
    note E = alloc_indirect [OF O(2,3) c(3-5) 4(3), folded c(6)]
    have s1: "ls ?s1 = l" "fsb ?s1 = ?sb" "i_addrs (icache ?s1 ip) = ?as1" "i_dev (icache ?s1 ip) = 1"
      using O(4) by (simp_all add: set_inode_def)
    have ok1: "ifile_ok ip ?s1"
      using c(2) E(1) O(4) unfolding ifile_ok_def s1 by (auto simp: file_step_def)
    have "bmap me ip bn s = bmap me ip bn ?s1"
      unfolding bmap_def Let_def using 4 c(1) O(4) E(3,4) s1 by simp
    moreover obtain b l2 where b: "bmap me ip bn ?s1 = Ret b (?s1\<lparr>ls := l2\<rparr>)" "b \<noteq> 0" "log_inv l2"
      "file_step ?sb (tabs l) ?as1 (tabs l2) ?as1" "same_bytes (t_view (tabs l)) ?as1 (t_view (tabs l2)) ?as1"
      "file_blk (t_view (tabs l2)) ?as1 bn = b" "room k (tabs l2)" "nfree ?sb (tabs l) \<le> nfree ?sb (tabs l2) + 1"
      using bmap_entry [OF ok1, of k bn me, unfolded s1] c(7,8) fr bn 4(1,2) E(4) E(5) [OF bn] by auto
    moreover have "?s1\<lparr>ls := l2\<rparr> = set_inode ip ((icache s ip)\<lparr>i_addrs := ?as1\<rparr>) (s\<lparr>ls := l2\<rparr>)"
      by (simp add: set_inode_def)
    moreover have "file_step ?sb ?a ?as (tabs l2) ?as1" by (rule file_step_trans [OF E(1) b(4)])
    moreover have "same_bytes (t_view ?a) ?as (t_view (tabs l2)) ?as1" by (rule same_bytes_trans [OF E(2) b(5)])
    moreover have "nfree ?sb ?a \<le> nfree ?sb (tabs l2) + 2" using c(8) b(8) by simp
    ultimately show ?thesis by (intro exI [of _ b] exI [of _ ?as1] exI [of _ l2]) simp
  qed
qed

subsection \<open>Reading and writing\<close>

lemma BSIZE_pos [simp]: "0 < BSIZE" by (simp add: BSIZE_def)

lemma file_blk_length:
  assumes "ifile_ok ip s" and "bn < MAXFILE" and "file_blk (t_view (tabs (ls s))) (i_addrs (icache s ip)) bn = b" and "b \<noteq> 0"
  shows "data_blk (fsb s) (tabs (ls s)) b" and "\<not> t_locked (tabs (ls s)) b" and "t_home (tabs (ls s)) b"
    and "b < t_size (tabs (ls s))" and "length (t_view (tabs (ls s)) b) = BSIZE"
proof -
  note O = ifile_okD [OF assms(1)]
  show d: "data_blk (fsb s) (tabs (ls s)) b" and "\<not> t_locked (tabs (ls s)) b"
    using file_okD(2) [OF O(3) owns_blk [OF assms(2)]] assms(3,4) by auto
  note h = data_home [OF O(2) d]
  show "t_home (tabs (ls s)) b" "b < t_size (tabs (ls s))" by (fact h)+
  show "length (t_view (tabs (ls s)) b) = BSIZE" using lst.view_length [OF O(1) h(2)] .
qed

lemma block_add:
  assumes "off mod BSIZE + i < BSIZE"
  shows "(off + i) div BSIZE = off div BSIZE" and "(off + i) mod BSIZE = off mod BSIZE + i"
proof -
  have "off + i = off div BSIZE * BSIZE + (off mod BSIZE + i)" by (simp add: algebra_simps)
  then show "(off + i) div BSIZE = off div BSIZE" "(off + i) mod BSIZE = off mod BSIZE + i"
    using assms by (metis div_less div_mult_self3 add.right_neutral BSIZE_pos less_not_refl3,
        metis mod_mult_self3 mod_less)
qed

lemma chunk_bytes:
  assumes "file_blk v as (off div BSIZE) = b" and "b \<noteq> 0" and "length (v b) = BSIZE" and "off mod BSIZE + m \<le> BSIZE"
  shows "slice (v b) (off mod BSIZE) m = map (file_byte v as) [off..<off + m]"
proof (rule nth_equalityI)
  show len: "length (slice (v b) (off mod BSIZE) m) = length (map (file_byte v as) [off..<off + m])"
    using assms(3,4) by simp
  fix i assume "i < length (slice (v b) (off mod BSIZE) m)"
  then have i: "i < m" using len by simp
  then have "off mod BSIZE + i < BSIZE" using assms(4) by simp
  note e = block_add [OF this]
  show "slice (v b) (off mod BSIZE) m ! i = map (file_byte v as) [off..<off + m] ! i"
    using i assms by (simp add: nth_slice file_byte_def e)
qed

lemma block_range:
  assumes "off mod BSIZE + m \<le> BSIZE"
  shows "off \<le> x \<and> x < off + m \<longleftrightarrow>
      x div BSIZE = off div BSIZE \<and> off mod BSIZE \<le> x mod BSIZE \<and> x mod BSIZE < off mod BSIZE + m"
    and "off \<le> x \<Longrightarrow> x < off + m \<Longrightarrow> x mod BSIZE - off mod BSIZE = x - off"
proof -
  have o: "off = off div BSIZE * BSIZE + off mod BSIZE" and x: "x = x div BSIZE * BSIZE + x mod BSIZE" by simp_all
  have 1: "x div BSIZE = off div BSIZE \<and> x mod BSIZE = off mod BSIZE + (x - off)" if "off \<le> x" "x < off + m"
    using block_add [of off "x - off"] that assms by simp
  then show "off \<le> x \<Longrightarrow> x < off + m \<Longrightarrow> x mod BSIZE - off mod BSIZE = x - off" by simp
  show "off \<le> x \<and> x < off + m \<longleftrightarrow>
      x div BSIZE = off div BSIZE \<and> off mod BSIZE \<le> x mod BSIZE \<and> x mod BSIZE < off mod BSIZE + m"
  proof
    assume "x div BSIZE = off div BSIZE \<and> off mod BSIZE \<le> x mod BSIZE \<and> x mod BSIZE < off mod BSIZE + m"
    then show "off \<le> x \<and> x < off + m" using o x by (metis add_le_cancel_left add.assoc nat_add_left_cancel_less)
  qed (use 1 in force)
qed

lemma chunk_size:
  assumes "m = min n (BSIZE - off mod BSIZE)" and "0 < n"
  shows "0 < m" and "off mod BSIZE + m \<le> BSIZE" and "m \<le> n"
proof -
  have lt: "off mod BSIZE < BSIZE" by simp
  have "m \<le> BSIZE - off mod BSIZE" using assms(1) by simp
  with lt show "off mod BSIZE + m \<le> BSIZE" by linarith
  show "0 < m" using lt assms by (metis min_less_iff_conj zero_less_diff)
  show "m \<le> n" using assms(1) by simp
qed

lemma chunk_next:
  assumes "m = min n (BSIZE - off mod BSIZE)" and "off mod BSIZE + n \<le> Suc k * BSIZE"
  shows "n - m = 0 \<or> ((off + m) mod BSIZE = 0 \<and> n - m \<le> k * BSIZE)"
proof -
  have lt: "off mod BSIZE < BSIZE" by simp
  show "n - m = 0 \<or> ((off + m) mod BSIZE = 0 \<and> n - m \<le> k * BSIZE)"
  proof (cases "n \<le> BSIZE - off mod BSIZE")
    case False
    then have m: "m = BSIZE - off mod BSIZE" using assms(1) by simp
    have "off + m = off div BSIZE * BSIZE + (off mod BSIZE + m)" by (simp add: algebra_simps)
    also have "\<dots> = off div BSIZE * BSIZE + BSIZE" using m lt by simp
    finally have "(off + m) mod BSIZE = 0" by simp
    then show ?thesis using assms(2) m lt by auto
  qed (use assms(1) in simp)
qed

lemma readi_loop_ok:
  assumes "ifile_ok ip s" and "room 0 (tabs (ls s))" and "off + n \<le> MAXFILE * BSIZE"
    and "\<And>i. off \<le> i \<Longrightarrow> i < off + n \<Longrightarrow> file_blk (t_view (tabs (ls s))) (i_addrs (icache s ip)) (i div BSIZE) \<noteq> 0"
  shows "\<exists>l. readi_loop me ip off n s =
      Ret (map (file_byte (t_view (tabs (ls s))) (i_addrs (icache s ip))) [off..<off + n]) (s\<lparr>ls := l\<rparr>) \<and>
    log_inv l \<and> tabs l = tabs (ls s)"
  using assms
proof (induction n arbitrary: off s rule: less_induct)
  case (less n)
  let ?a = "tabs (ls s)" and ?as = "i_addrs (icache s ip)"
  let ?v = "t_view ?a" and ?m = "min n (BSIZE - off mod BSIZE)"
  note O = ifile_okD [OF less.prems(1)]
  show ?case
  proof (cases "n = 0")
    case True
    then show ?thesis using O(1) by (intro exI [of _ "ls s"]) (subst readi_loop.simps, simp)
  next
    case False
    let ?b = "file_blk ?v ?as (off div BSIZE)"
    have nz: "?b \<noteq> 0" using less.prems(4) [of off] False by simp
    have "off < MAXFILE * BSIZE" using less.prems(3) False by simp
    then have bn: "off div BSIZE < MAXFILE" by (simp add: less_mult_imp_div_less)
    note B = file_blk_length [OF less.prems(1) bn refl nz]
    obtain l1 where 1: "bmap me ip (off div BSIZE) s = Ret ?b (s\<lparr>ls := l1\<rparr>)" "log_inv l1" "tabs l1 = ?a"
      using bmap_mapped [OF less.prems(1,2) bn nz] by blast
    have p: "log_inv (ls (s\<lparr>ls := l1\<rparr>))" "room 0 (tabs (ls (s\<lparr>ls := l1\<rparr>)))"
      "?b < t_size (tabs (ls (s\<lparr>ls := l1\<rparr>)))" "\<not> t_locked (tabs (ls (s\<lparr>ls := l1\<rparr>))) ?b"
      using 1(2) less.prems(2) B by (simp_all add: 1(3) del: tabs_sel)
    obtain bp l2 l3 where 2: "fbread me 1 ?b (s\<lparr>ls := l1\<rparr>) = Ret bp (s\<lparr>ls := l1\<rparr>\<lparr>ls := l2\<rparr>)"
      "\<forall>s1. ls s1 = l2 \<longrightarrow> fdata s1 bp = t_view (tabs (ls (s\<lparr>ls := l1\<rparr>))) ?b"
      "\<forall>s1. ls s1 = l2 \<longrightarrow> fbrelse me bp s1 = Ret () (s1\<lparr>ls := l3\<rparr>)"
      "log_inv l3" "tabs l3 = tabs (ls (s\<lparr>ls := l1\<rparr>))"
      by (rule fs_read [OF p])
    have t3: "tabs l3 = ?a" by (simp add: 2(5) 1(3) del: tabs_sel)
    have f2: "fdata (s\<lparr>ls := l2\<rparr>) bp = ?v ?b" using 2(2) by (simp add: 1(3) del: tabs_sel)
    have m: "0 < ?m" "off mod BSIZE + ?m \<le> BSIZE" "?m \<le> n"
      using chunk_size [of ?m n off] False by auto
    let ?s3 = "s\<lparr>ls := l3\<rparr>"
    have s3: "tabs (ls ?s3) = ?a" "icache ?s3 = icache s" "fsb ?s3 = fsb s" using t3 by simp_all
    have ok3: "ifile_ok ip ?s3" using less.prems(1) 2(4) unfolding ifile_ok_def s3 by simp
    have "\<exists>l. readi_loop me ip (off + ?m) (n - ?m) ?s3 =
      Ret (map (file_byte (t_view (tabs (ls ?s3))) (i_addrs (icache ?s3 ip))) [off + ?m..<off + ?m + (n - ?m)]) (?s3\<lparr>ls := l\<rparr>) \<and>
      log_inv l \<and> tabs l = tabs (ls ?s3)"
    proof (rule less.IH [OF _ ok3])
      show "n - ?m < n" using m False by simp
      show "room 0 (tabs (ls ?s3))" using less.prems(2) unfolding s3 .
      show "off + ?m + (n - ?m) \<le> MAXFILE * BSIZE" using m(3) less.prems(3) by simp
      show "file_blk (t_view (tabs (ls ?s3))) (i_addrs (icache ?s3 ip)) (i div BSIZE) \<noteq> 0"
        if "off + ?m \<le> i" "i < off + ?m + (n - ?m)" for i
        unfolding s3 using that m(3) by (intro less.prems(4)) linarith+
    qed
    then obtain l where l: "readi_loop me ip (off + ?m) (n - ?m) ?s3 =
      Ret (map (file_byte ?v ?as) [off + ?m..<off + n]) (s\<lparr>ls := l\<rparr>)" "log_inv l" "tabs l = ?a"
      using m(3) unfolding s3 by (auto simp del: tabs_sel)
    have ch: "slice (?v ?b) (off mod BSIZE) ?m = map (file_byte ?v ?as) [off..<off + ?m]"
      by (rule chunk_bytes [OF refl nz B(5) m(2)])
    have up: "[off..<off + n] = [off..<off + ?m] @ [off + ?m..<off + n]"
      using m(3) upt_add_eq_append [of off "off + ?m" "n - ?m"] by simp
    have "readi_loop me ip off n s = Ret (map (file_byte ?v ?as) [off..<off + n]) (s\<lparr>ls := l\<rparr>)"
      using False 1(1) 2(1,3) f2 ch l(1) O(4)
      by (subst readi_loop.simps) (simp add: Let_def up del: tabs_sel upt.simps)
    then show ?thesis using l(2,3) by blast
  qed
qed

text \<open>Overwriting a part of a block of the file.\<close>

lemma write_chunk:
  assumes fs: "fs_ok sb a" and ok: "file_ok sb a as" and bn: "bn < MAXFILE" and b: "file_blk (t_view a) as bn = b" "b \<noteq> 0"
    and len: "length (t_view a b) = BSIZE" and fit: "p + length bs \<le> BSIZE"
  defines "a' \<equiv> t_put b (patch (t_view a b) p bs) a"
  shows "file_step sb a as a' as" and "file_blk (t_view a') as = file_blk (t_view a) as"
    and "off < MAXFILE * BSIZE \<Longrightarrow> file_byte (t_view a') as off =
      (if off div BSIZE = bn \<and> p \<le> off mod BSIZE \<and> off mod BSIZE < p + length bs
       then bs ! (off mod BSIZE - p) else file_byte (t_view a) as off)"
proof -
  note O = file_okD [OF ok]
  have d: "data_blk sb a b" using O(2) [OF owns_blk [OF bn]] b by simp
  have ib: "unat (as ! NDIRECT) \<noteq> b" if "as ! NDIRECT \<noteq> 0" using O(4) [OF bn that] b(1) by metis
  show blk: "file_blk (t_view a') as = file_blk (t_view a) as"
    by (rule ext) (simp add: file_blk_def a'_def ib)
  have u: "used sb (t_view a') x = used sb (t_view a) x" if "x < sb_size sb" for x
    using BBLOCK_meta(2) [OF that] d unfolding a'_def by (auto simp: data_blk_def intro!: used_other)
  have db: "data_blk sb a' = data_blk sb a" using u by (auto simp: data_blk_def fun_eq_iff)
  have own: "owns (t_view a') as = owns (t_view a) as" using blk by (simp add: owns_def fun_eq_iff)
  have "meta_end sb \<le> sb_size sb" using fs by (simp add: fs_ok_def fs_geom_def)
  then have fs': "fs_ok sb a'" using fs u by (auto simp: fs_ok_def fs_geom_def a'_def)
  have ok': "file_ok sb a' as" using ok unfolding file_ok_def own db blk by (simp add: a'_def)
  have "t_view a' x = t_view a x" if "\<not> owns (t_view a) as x \<or> x < sb_bmapstart sb" for x
  proof -
    have "x \<noteq> b" using that owns_blk [OF bn, of "t_view a" as] b d by (auto simp: data_blk_def meta_end_def)
    then show ?thesis by (simp add: a'_def)
  qed
  moreover have "t_locked a' = t_locked a" "t_size a' = t_size a" "t_home a' = t_home a"
      "t_slots a' = t_slots a" "t_open a' = t_open a" by (simp_all add: a'_def)
  ultimately show "file_step sb a as a' as"
    unfolding file_step_def own db blk using fs' ok' by blast
  show "file_byte (t_view a') as off =
      (if off div BSIZE = bn \<and> p \<le> off mod BSIZE \<and> off mod BSIZE < p + length bs
       then bs ! (off mod BSIZE - p) else file_byte (t_view a) as off)" if off: "off < MAXFILE * BSIZE"
  proof (cases "off div BSIZE = bn")
    case True
    have k: "off mod BSIZE < length (t_view a b)" unfolding len by simp
    have f: "p + length bs \<le> length (t_view a b)" unfolding len by (rule fit)
    have "file_byte (t_view a') as off = patch (t_view a b) p bs ! (off mod BSIZE)"
      unfolding file_byte_def blk True b(1) using b(2) by (simp add: a'_def)
    moreover have "file_byte (t_view a) as off = t_view a b ! (off mod BSIZE)"
      unfolding file_byte_def True b(1) using b(2) by simp
    ultimately show ?thesis using True nth_patch [OF f k] by simp
  next
    case False
    have "off div BSIZE < MAXFILE" using off by (simp add: less_mult_imp_div_less)
    then have nb: "file_blk (t_view a) as (off div BSIZE) \<noteq> b" using O(3) [OF bn] b False by metis
    then have "file_byte (t_view a') as off = file_byte (t_view a) as off"
      unfolding file_byte_def blk by (simp add: a'_def)
    then show ?thesis using False by simp
  qed
qed

lemma writei_loop_nil:
  assumes "ifile_ok ip s" and "room k (tabs (ls s))"
  shows "\<exists>as' l. writei_loop me ip [] off s =
      Ret () (set_inode ip ((icache s ip)\<lparr>i_addrs := as'\<rparr>) (s\<lparr>ls := l\<rparr>)) \<and> log_inv l \<and>
    file_step (fsb s) (tabs (ls s)) (i_addrs (icache s ip)) (tabs l) as' \<and>
    (\<forall>x. x < MAXFILE * BSIZE \<longrightarrow> file_byte (t_view (tabs l)) as' x =
      file_byte (t_view (tabs (ls s))) (i_addrs (icache s ip)) x) \<and> room k (tabs l)"
proof -
  have "set_inode ip (icache s ip) (s\<lparr>ls := ls s\<rparr>) = s" by (simp add: set_inode_def)
  then show ?thesis
    using ifile_okD [OF assms(1)] file_step_refl assms(2)
    by (intro exI [of _ "i_addrs (icache s ip)"] exI [of _ "ls s"]) (subst writei_loop.simps, simp del: tabs_sel)
qed

lemma writei_loop_ok:
  assumes "ifile_ok ip s" and "room (6 * k + j) (tabs (ls s))" and "off + length src \<le> MAXFILE * BSIZE"
    and "src = [] \<or> off mod BSIZE + length src \<le> k * BSIZE" and "2 * k \<le> nfree (fsb s) (tabs (ls s))"
  shows "\<exists>as' l. writei_loop me ip src off s =
      Ret () (set_inode ip ((icache s ip)\<lparr>i_addrs := as'\<rparr>) (s\<lparr>ls := l\<rparr>)) \<and> log_inv l \<and>
    file_step (fsb s) (tabs (ls s)) (i_addrs (icache s ip)) (tabs l) as' \<and>
    (\<forall>x. x < MAXFILE * BSIZE \<longrightarrow> file_byte (t_view (tabs l)) as' x =
      (if off \<le> x \<and> x < off + length src then src ! (x - off)
       else file_byte (t_view (tabs (ls s))) (i_addrs (icache s ip)) x)) \<and>
    (\<forall>x. off \<le> x \<and> x < off + length src \<longrightarrow> file_blk (t_view (tabs l)) as' (x div BSIZE) \<noteq> 0) \<and>
    room j (tabs l)"
  using assms
proof (induction k arbitrary: src off s)
  case 0
  then have e: "src = []" by auto
  have nx: "(off \<le> x \<and> x < off + length src) = False" for x by (simp add: e)
  show ?case unfolding nx if_False using writei_loop_nil [OF 0(1,2), of me off] unfolding e mult_0_right add_0 by blast
next
  case (Suc k)
  show ?case
  proof (cases "src = []")
    case True
    have nx: "(off \<le> x \<and> x < off + length src) = False" for x by (simp add: True)
    show ?thesis unfolding nx if_False using writei_loop_nil [OF Suc.prems(1) room_mono [OF Suc.prems(2) le_add2], of me off] unfolding True by blast
  next
    case False
    let ?as = "i_addrs (icache s ip)" and ?a = "tabs (ls s)" and ?sb = "fsb s" and ?n = "length src"
    let ?m = "min ?n (BSIZE - off mod BSIZE)" and ?bn = "off div BSIZE" and ?p = "off mod BSIZE"
    note O = ifile_okD [OF Suc.prems(1)]
    have n: "0 < ?n" using False by simp
    note m = chunk_size [OF refl n, of off]
    have bn: "?bn < MAXFILE" using Suc.prems(3) n by (intro less_mult_imp_div_less) linarith
    have r: "room ((6 * k + j + 1) + 5) ?a" using Suc.prems(2) by (simp add: algebra_simps)
    have fr: "2 \<le> nfree ?sb ?a" using Suc.prems(5) by simp
    obtain b as1 l1 where 1: "bmap me ip ?bn s = Ret b (set_inode ip ((icache s ip)\<lparr>i_addrs := as1\<rparr>) (s\<lparr>ls := l1\<rparr>))"
      "b \<noteq> 0" "log_inv l1" "file_step ?sb ?a ?as (tabs l1) as1" "same_bytes (t_view ?a) ?as (t_view (tabs l1)) as1"
      "file_blk (t_view (tabs l1)) as1 ?bn = b" "room (6 * k + j + 1) (tabs l1)"
      "nfree ?sb ?a \<le> nfree ?sb (tabs l1) + 2"
      using bmap_ok [OF Suc.prems(1) r bn fr, of me] by blast
    let ?s1 = "set_inode ip ((icache s ip)\<lparr>i_addrs := as1\<rparr>) (s\<lparr>ls := l1\<rparr>)"
    have s1: "ls ?s1 = l1" "fsb ?s1 = ?sb" "i_addrs (icache ?s1 ip) = as1" "i_dev (icache ?s1 ip) = 1"
      using O(4) by (simp_all add: set_inode_def)
    have fs1: "fs_ok ?sb (tabs l1)" "file_ok ?sb (tabs l1) as1" using 1(4) by (simp_all add: file_step_def)
    have ok1: "ifile_ok ip ?s1" using 1(3) fs1 unfolding ifile_ok_def s1 by simp
    have B: "data_blk ?sb (tabs l1) b" "\<not> t_locked (tabs l1) b" "t_home (tabs l1) b" "length (t_view (tabs l1) b) = BSIZE"
      using file_blk_length [OF ok1 bn, unfolded s1, OF 1(6,2)] by blast+
    let ?d = "patch (t_view (tabs l1) b) ?p (take ?m src)"
    have lt: "length (take ?m src) = ?m" by simp
    have ld: "length ?d = BSIZE" using B(4) m(2) by (simp del: tabs_sel)
    have r1: "room 1 (tabs l1)" using 1(7) by (rule room_mono) simp
    obtain bp l2 l3 l4 where 2: "fbread me 1 b ?s1 = Ret bp (?s1\<lparr>ls := l2\<rparr>)"
      "\<forall>s1. ls s1 = l2 \<longrightarrow> fdata s1 bp = t_view (tabs l1) b"
      "\<forall>s1. ls s1 = l2 \<longrightarrow> flog_write bp (fset_data bp ?d s1) = Ret () (s1\<lparr>ls := l3\<rparr>)"
      "\<forall>s1. ls s1 = l3 \<longrightarrow> fbrelse me bp s1 = Ret () (s1\<lparr>ls := l4\<rparr>)"
      "log_inv l4" "tabs l4 = t_put b ?d (tabs l1)"
      by (rule fs_update [of ?s1 b ?d me, unfolded s1, OF 1(3) r1 B(3,2) ld])
    note W = write_chunk [OF fs1 bn 1(6,2) B(4), of ?p "take ?m src", unfolded lt, OF m(2), folded 2(6)]
    let ?s4 = "set_inode ip ((icache s ip)\<lparr>i_addrs := as1\<rparr>) (s\<lparr>ls := l4\<rparr>)"
    have s4: "ls ?s4 = l4" "fsb ?s4 = ?sb" "i_addrs (icache ?s4 ip) = as1" "i_dev (icache ?s4 ip) = 1"
      "icache ?s4 ip = (icache s ip)\<lparr>i_addrs := as1\<rparr>" using O(4) by (simp_all add: set_inode_def)
    have e4: "?s1\<lparr>ls := l\<rparr> = set_inode ip ((icache s ip)\<lparr>i_addrs := as1\<rparr>) (s\<lparr>ls := l\<rparr>)" for l
      by (simp add: set_inode_def)
    have ok4: "ifile_ok ip ?s4" using 2(5) W(1) O(4) unfolding ifile_ok_def s4(1-4) file_step_def by blast
    have run: "writei_loop me ip src off s = writei_loop me ip (drop ?m src) (off + ?m) ?s4"
      using False 1(1) 2(1-4) s1(4) by (subst writei_loop.simps) (simp add: Let_def e4 del: tabs_sel)
    have r4: "room (6 * k + j) (tabs l4)" unfolding 2(6) using 1(7) by (intro room_t_put) (simp add: Suc_eq_plus1)
    have f4: "2 * k \<le> nfree ?sb (tabs l4)"
      using Suc.prems(5) 1(8) nfree_t_put_data [of ?sb b ?d "tabs l1"] B(1) by (simp add: 2(6) data_blk_def del: tabs_sel)
    have nx: "drop ?m src = [] \<or> (off + ?m) mod BSIZE + length (drop ?m src) \<le> k * BSIZE"
      using chunk_next [of ?m ?n off k] Suc.prems(4) False by auto
    have fit: "off + ?m + length (drop ?m src) \<le> MAXFILE * BSIZE" using Suc.prems(3) m(3) by simp
    have ia: "i_addrs ((icache s ip)\<lparr>i_addrs := as1\<rparr>) = as1" by simp
    obtain as' l where 5: "writei_loop me ip (drop ?m src) (off + ?m) ?s4 =
        Ret () (set_inode ip ((icache ?s4 ip)\<lparr>i_addrs := as'\<rparr>) (?s4\<lparr>ls := l\<rparr>))" "log_inv l"
      "file_step ?sb (tabs l4) as1 (tabs l) as'"
      "\<forall>x. x < MAXFILE * BSIZE \<longrightarrow> file_byte (t_view (tabs l)) as' x =
        (if off + ?m \<le> x \<and> x < off + ?m + length (drop ?m src) then drop ?m src ! (x - (off + ?m))
         else file_byte (t_view (tabs l4)) as1 x)"
      "\<forall>x. off + ?m \<le> x \<and> x < off + ?m + length (drop ?m src) \<longrightarrow> file_blk (t_view (tabs l)) as' (x div BSIZE) \<noteq> 0"
      "room j (tabs l)"
      using Suc.IH [OF ok4, unfolded s4, OF r4 fit nx f4] unfolding s4(5) ia by blast
    have e: "set_inode ip ((icache ?s4 ip)\<lparr>i_addrs := as'\<rparr>) (?s4\<lparr>ls := l\<rparr>) =
        set_inode ip ((icache s ip)\<lparr>i_addrs := as'\<rparr>) (s\<lparr>ls := l\<rparr>)" by (simp add: set_inode_def)
    have bytes: "file_byte (t_view (tabs l)) as' x = (if off \<le> x \<and> x < off + ?n then src ! (x - off) else file_byte (t_view ?a) ?as x)"
      if x: "x < MAXFILE * BSIZE" for x
    proof (cases "off \<le> x \<and> x < off + ?m")
      case True
      then have "file_byte (t_view (tabs l)) as' x = file_byte (t_view (tabs l4)) as1 x" using 5(4) x by auto
      also have "\<dots> = take ?m src ! (x - off)"
        using W(3) [OF x] block_range [OF m(2), of x] True by simp
      also have "\<dots> = src ! (x - off)" using True by (intro nth_take) arith
      finally show ?thesis using True m(3) by auto
    next
      case out: False
      then have l4: "file_byte (t_view (tabs l4)) as1 x = file_byte (t_view ?a) ?as x"
        using W(3) [OF x] block_range(1) [OF m(2), of x] 1(5) x by (auto simp: same_bytes_def simp del: tabs_sel)
      show ?thesis
      proof (cases "off \<le> x \<and> x < off + ?n")
        case True
        then have i: "off + ?m \<le> x" using out by auto
        then have "file_byte (t_view (tabs l)) as' x = drop ?m src ! (x - (off + ?m))"
          using 5(4) x True m(3) by auto
        also have "\<dots> = src ! (?m + (x - (off + ?m)))" using m(3) by (intro nth_drop) simp
        also have "?m + (x - (off + ?m)) = x - off" using i by linarith
        finally show ?thesis using True by simp
      next
        case False
        then have "\<not> (off + ?m \<le> x \<and> x < off + ?m + length (drop ?m src))" by auto
        then have "file_byte (t_view (tabs l)) as' x = file_byte (t_view (tabs l4)) as1 x" using 5(4) x by metis
        then show ?thesis using False l4 by metis
      qed
    qed
    have mapped: "file_blk (t_view (tabs l)) as' (x div BSIZE) \<noteq> 0" if "off \<le> x" "x < off + ?n" for x
    proof (cases "x < off + ?m")
      case True
      then have "x div BSIZE = ?bn" using block_range(1) [OF m(2), of x] that by blast
      then have "file_blk (t_view (tabs l4)) as1 (x div BSIZE) = b" using W(2) 1(6) by metis
      then show ?thesis using 5(3) 1(2) bn \<open>x div BSIZE = ?bn\<close> unfolding file_step_def by metis
    next
      case False
      then show ?thesis using 5(5) that m(3) by auto
    qed
    have st: "file_step ?sb ?a ?as (tabs l) as'"
      by (rule file_step_trans [OF file_step_trans [OF 1(4) W(1)] 5(3)])
    have "writei_loop me ip src off s = Ret () (set_inode ip ((icache s ip)\<lparr>i_addrs := as'\<rparr>) (s\<lparr>ls := l\<rparr>))"
      unfolding run 5(1) e ..
    then show ?thesis using 5(2,6) st bytes mapped by blast
  qed
qed

subsection \<open>Reading and writing a file\<close>

lemma IBLOCK_meta:
  assumes "fs_ok sb a" and "inum < sb_ninodes sb"
  shows "sb_inodestart sb \<le> IBLOCK inum sb" and "IBLOCK inum sb < sb_bmapstart sb"
    and "t_home a (IBLOCK inum sb)" and "\<not> t_locked a (IBLOCK inum sb)"
proof -
  have g: "fs_geom sb a" and l: "\<forall>b. t_locked a b \<longrightarrow> meta_end sb \<le> b" using assms(1) by (auto simp: fs_ok_def)
  show 1: "sb_inodestart sb \<le> IBLOCK inum sb" by (simp add: IBLOCK_def)
  show 2: "IBLOCK inum sb < sb_bmapstart sb"
    using g div_le_mono [of inum "sb_ninodes sb" IPB] assms(2) by (simp add: IBLOCK_def fs_geom_def)
  show "t_home a (IBLOCK inum sb)" using g 1 2 by (simp add: fs_geom_def meta_end_def)
  show "\<not> t_locked a (IBLOCK inum sb)" using l 2 by (force simp: meta_end_def)
qed

text \<open>Writing an inode block keeps the free map and every file.\<close>

lemma put_inode_block:
  fixes d :: "byte list"
  assumes fs: "fs_ok sb a" and x: "x < sb_bmapstart sb"
  defines "a' \<equiv> t_put x d a"
  shows "fs_ok sb a'" and "file_ok sb a as \<Longrightarrow> file_ok sb a' as"
    and "file_ok sb a as \<Longrightarrow> bn < MAXFILE \<Longrightarrow> file_blk (t_view a') as bn = file_blk (t_view a) as bn"
    and "file_ok sb a as \<Longrightarrow> off < MAXFILE * BSIZE \<Longrightarrow> file_byte (t_view a') as off = file_byte (t_view a) as off"
proof -
  have m: "meta_end sb \<le> sb_size sb" "sb_bmapstart sb < meta_end sb"
    using fs by (simp_all add: fs_ok_def fs_geom_def meta_end_def)
  have u: "used sb (t_view a') c = used sb (t_view a) c" if "c < sb_size sb" for c
    using BBLOCK_meta(1) [OF that] x unfolding a'_def by (auto intro!: used_other)
  then show "fs_ok sb a'" using fs m by (auto simp: fs_ok_def fs_geom_def a'_def)
  have db: "data_blk sb a' = data_blk sb a" using u by (auto simp: data_blk_def fun_eq_iff)
  have nx: "\<not> data_blk sb a x" using x m by (auto simp: data_blk_def)
  have blk: "file_blk (t_view a') as = file_blk (t_view a) as" if ok: "file_ok sb a as"
  proof -
    have "unat (as ! NDIRECT) \<noteq> x" if "as ! NDIRECT \<noteq> 0"
      using file_okD(2) [OF ok, of "unat (as ! NDIRECT)"] that nx by (auto simp: owns_def unat_eq_0)
    then show ?thesis by (intro ext) (simp add: file_blk_def a'_def)
  qed
  then show "file_ok sb a as \<Longrightarrow> bn < MAXFILE \<Longrightarrow> file_blk (t_view a') as bn = file_blk (t_view a) as bn" by simp
  show "file_ok sb a' as" if ok: "file_ok sb a as"
  proof -
    have own: "owns (t_view a') as = owns (t_view a) as" using blk [OF ok] by (simp add: owns_def fun_eq_iff)
    show ?thesis using ok unfolding file_ok_def own db blk [OF ok] by (simp add: a'_def)
  qed
  show "file_byte (t_view a') as off = file_byte (t_view a) as off"
    if ok: "file_ok sb a as" and off: "off < MAXFILE * BSIZE"
  proof -
    have bn: "off div BSIZE < MAXFILE" using off by (simp add: less_mult_imp_div_less)
    have "file_blk (t_view a) as (off div BSIZE) \<noteq> x" if "file_blk (t_view a) as (off div BSIZE) \<noteq> 0"
      using file_okD(2) [OF ok owns_blk [OF bn that]] nx by auto
    then show ?thesis unfolding file_byte_def blk [OF ok] by (auto simp: a'_def)
  qed
qed

lemma iupdate_ok:
  assumes "log_inv (ls s)" and "fs_ok (fsb s) (tabs (ls s))" and "room 1 (tabs (ls s))"
    and "i_dev (icache s ip) = 1" and "i_inum (icache s ip) < sb_ninodes (fsb s)"
    and "length (i_addrs (icache s ip)) = NDIRECT + 1"
  defines "x \<equiv> IBLOCK (i_inum (icache s ip)) (fsb s)"
  shows "\<exists>l. iupdate me ip s = Ret () (s\<lparr>ls := l\<rparr>) \<and> log_inv l \<and>
    tabs l = t_put x (put_dinode (i_inum (icache s ip)) (to_dinode (icache s ip)) (t_view (tabs (ls s)) x)) (tabs (ls s))"
proof -
  note I = IBLOCK_meta [OF assms(2,5), folded x_def]
  have "x < t_size (tabs (ls s))" using assms(2) I(2) by (simp add: fs_ok_def fs_geom_def meta_end_def)
  then have len: "length (t_view (tabs (ls s)) x) = BSIZE" using lst.view_length [OF assms(1)] by blast
  let ?d = "put_dinode (i_inum (icache s ip)) (to_dinode (icache s ip)) (t_view (tabs (ls s)) x)"
  have ld: "length ?d = BSIZE" using len assms(6) by (simp add: to_dinode_def del: tabs_sel)
  obtain bp l1 l2 l3 where 1: "fbread me 1 x s = Ret bp (s\<lparr>ls := l1\<rparr>)"
    "\<forall>s1. ls s1 = l1 \<longrightarrow> fdata s1 bp = t_view (tabs (ls s)) x"
    "\<forall>s1. ls s1 = l1 \<longrightarrow> flog_write bp (fset_data bp ?d s1) = Ret () (s1\<lparr>ls := l2\<rparr>)"
    "\<forall>s1. ls s1 = l2 \<longrightarrow> fbrelse me bp s1 = Ret () (s1\<lparr>ls := l3\<rparr>)"
    "log_inv l3" "tabs l3 = t_put x ?d (tabs (ls s))"
    by (rule fs_update [OF assms(1,3) I(3,4) ld])
  have "iupdate me ip s = Ret () (s\<lparr>ls := l3\<rparr>)"
    unfolding iupdate_def Let_def using 1(1-4) assms(4) by (simp add: x_def [symmetric] del: tabs_sel)
  then show ?thesis using 1(5,6) by blast
qed

lemma word_len:
  assumes "n \<le> MAXFILE * BSIZE"
  shows "unat (of_nat n :: u32) = n" and "sint (of_nat n :: u32) = int n"
proof -
  have n: "n < 2 ^ 31" using assms by (simp add: MAXFILE_def NDIRECT_def NINDIRECT_def BSIZE_def)
  then show "unat (of_nat n :: u32) = n" by (simp add: unat_of_nat take_bit_eq_mod)
  have "signed_take_bit 31 (int n) = int n" using n by (intro signed_take_bit_int_eq_self) simp_all
  then show "sint (of_nat n :: u32) = int n" by (simp add: signed_of_nat)
qed

lemma word_sum:
  assumes "m + n \<le> MAXFILE * BSIZE"
  shows "of_nat m + of_nat n = (of_nat (m + n) :: u32)" and "\<not> of_nat m + of_nat n < (of_nat m :: u32)"
    and "\<not> of_nat (MAXFILE * BSIZE) < (of_nat m + of_nat n :: u32)"
proof -
  show 1: "of_nat m + of_nat n = (of_nat (m + n) :: u32)" by simp
  have u: "unat (of_nat k :: u32) = k" if "k \<le> MAXFILE * BSIZE" for k using word_len(1) [OF that] .
  show "\<not> of_nat m + of_nat n < (of_nat m :: u32)" "\<not> of_nat (MAXFILE * BSIZE) < (of_nat m + of_nat n :: u32)"
    unfolding 1 word_less_nat_alt using u [of m] u [of "m + n"] u [of "MAXFILE * BSIZE"] assms by simp_all
qed

text \<open>
  The whole of \<open>writei\<close> on a file, for the bytes \<open>src\<close> at an offset \<open>off\<close> inside or at
  the end of it: \<open>k\<close> bounds the blocks it touches, and each may need two new blocks.
\<close>

lemma writei_ok:
  assumes ok: "ifile_ok ip s" and ty: "i_type (icache s ip) \<noteq> T_DEV" and inum: "i_inum (icache s ip) < sb_ninodes (fsb s)"
    and off: "off \<le> unat (i_size (icache s ip))" and fit: "off + length src \<le> MAXFILE * BSIZE"
    and k: "off mod BSIZE + length src \<le> k * BSIZE" and rm: "room (6 * k + 1) (tabs (ls s))"
    and fr: "2 * k \<le> nfree (fsb s) (tabs (ls s))"
  obtains s' where "writei devsw me ip src (of_nat off) (of_nat (length src)) s = Ret (int (length src)) s'"
    and "ifile_ok ip s'" and "room 0 (tabs (ls s'))" and "i_type (icache s' ip) = i_type (icache s ip)"
    and "\<forall>x. x < MAXFILE * BSIZE \<longrightarrow> file_byte (t_view (tabs (ls s'))) (i_addrs (icache s' ip)) x =
      (if off \<le> x \<and> x < off + length src then src ! (x - off)
       else file_byte (t_view (tabs (ls s))) (i_addrs (icache s ip)) x)"
    and "\<forall>x. off \<le> x \<and> x < off + length src \<longrightarrow>
      file_blk (t_view (tabs (ls s'))) (i_addrs (icache s' ip)) (x div BSIZE) \<noteq> 0"
    and "unat (i_size (icache s' ip)) = (if src = [] then unat (i_size (icache s ip)) else max (unat (i_size (icache s ip))) (off + length src))"
proof -
  let ?n = "length src" and ?i = "icache s ip"
  obtain as' l where L: "writei_loop me ip src off s = Ret () (set_inode ip (?i\<lparr>i_addrs := as'\<rparr>) (s\<lparr>ls := l\<rparr>))" "log_inv l"
    "file_step (fsb s) (tabs (ls s)) (i_addrs ?i) (tabs l) as'"
    "\<forall>x. x < MAXFILE * BSIZE \<longrightarrow> file_byte (t_view (tabs l)) as' x =
      (if off \<le> x \<and> x < off + ?n then src ! (x - off) else file_byte (t_view (tabs (ls s))) (i_addrs ?i) x)"
    "\<forall>x. off \<le> x \<and> x < off + ?n \<longrightarrow> file_blk (t_view (tabs l)) as' (x div BSIZE) \<noteq> 0" "room 1 (tabs l)"
    using writei_loop_ok [OF ok rm fit disjI2 [OF k] fr, of me] by blast
  have fs: "fs_ok (fsb s) (tabs l)" "file_ok (fsb s) (tabs l) as'" "length as' = NDIRECT + 1"
    using L(3) file_okD(1) unfolding file_step_def by blast+
  note W = word_len [of ?n] word_len(1) [of off] word_len(1) [of "off + ?n"] word_sum [OF fit]
  let ?s1 = "set_inode ip (?i\<lparr>i_addrs := as'\<rparr>) (s\<lparr>ls := l\<rparr>)"
  let ?grow = "src \<noteq> [] \<and> i_size ?i < of_nat off + of_nat ?n"
  let ?s2 = "set_inode ip (?i\<lparr>i_addrs := as', i_size := of_nat off + of_nat ?n\<rparr>) (s\<lparr>ls := l\<rparr>)"
  have offw: "\<not> i_size ?i < of_nat off" using off W(3) fit by (simp add: word_less_nat_alt)
  have nw: "0 < (of_nat ?n :: u32) \<longleftrightarrow> src \<noteq> []" using W(1) fit by (auto simp: word_less_nat_alt)
  have run: "writei devsw me ip src (of_nat off) (of_nat ?n) s =
      obind (if ?grow then iupdate me ip ?s2 else Ret () ?s1) (\<lambda>_ s. Ret (int ?n) s)"
    using ty offw W(1,2,3,6,7) fit L(1) nw by (simp add: writei_def Let_def set_inode_def del: of_nat_mult)
  have dev: "i_dev ?i = 1" using ok by (simp add: ifile_ok_def)
  show thesis
  proof (cases ?grow)
    case False
    have "src = [] \<or> off + ?n \<le> unat (i_size ?i)" using False W(4) fit by (auto simp: word_less_nat_alt)
    then have sz: "unat (i_size ?i) = (if src = [] then unat (i_size ?i) else max (unat (i_size ?i)) (off + ?n))" by auto
    have "writei devsw me ip src (of_nat off) (of_nat ?n) s = Ret (int ?n) ?s1" using run False by simp
    moreover have "ifile_ok ip ?s1" using L(2) fs dev by (simp add: ifile_ok_def)
    moreover have "room 0 (tabs (ls ?s1))" using room_mono [OF L(6), of 0] by simp
    ultimately show thesis using L(4,5) by (intro that [of ?s1]) (simp_all add: sz [symmetric] del: tabs_sel)
  next
    case True
    let ?x = "IBLOCK (i_inum ?i) (fsb s)"
    obtain l' where I: "iupdate me ip ?s2 = Ret () (?s2\<lparr>ls := l'\<rparr>)" "log_inv l'"
      "tabs l' = t_put ?x (put_dinode (i_inum ?i) (to_dinode (icache ?s2 ip)) (t_view (tabs l) ?x)) (tabs l)"
      using iupdate_ok [of ?s2 ip me] L(2,6) fs dev inum by (auto simp del: tabs_sel)
    note M = put_inode_block [OF fs(1) IBLOCK_meta(2) [OF fs(1) inum], where d =
        "put_dinode (i_inum ?i) (to_dinode (icache ?s2 ip)) (t_view (tabs l) ?x)", folded I(3)]
    let ?s3 = "?s2\<lparr>ls := l'\<rparr>"
    have "writei devsw me ip src (of_nat off) (of_nat ?n) s = Ret (int ?n) ?s3" using run True I(1) by simp
    moreover have "ifile_ok ip ?s3" using I(2) M(1) M(2) [OF fs(2)] dev by (simp add: ifile_ok_def del: tabs_sel)
    moreover have "room 0 (tabs l')" unfolding I(3) by (rule room_t_put) (use L(6) in \<open>simp add: One_nat_def\<close>)
    moreover have "unat (i_size (icache ?s3 ip)) = max (unat (i_size ?i)) (off + ?n)"
      using True W(4) fit by (auto simp: word_less_nat_alt)
    moreover have "file_blk (t_view (tabs l')) as' (x div BSIZE) \<noteq> 0" if x: "off \<le> x \<and> x < off + ?n" for x
      using L(5) x M(3) [OF fs(2), of "x div BSIZE"] fit by (simp add: less_mult_imp_div_less del: tabs_sel)
    ultimately show thesis using L(4) M(4) [OF fs(2)] True by (intro that [of ?s3]) (simp_all del: tabs_sel)
  qed
qed

lemma readi_ok:
  assumes ok: "ifile_ok ip s" and rm: "room 0 (tabs (ls s))" and ty: "i_type (icache s ip) \<noteq> T_DEV"
    and fit: "off + n \<le> MAXFILE * BSIZE" and sz: "off + n \<le> unat (i_size (icache s ip))"
    and mapped: "\<And>i. off \<le> i \<Longrightarrow> i < off + n \<Longrightarrow>
      file_blk (t_view (tabs (ls s))) (i_addrs (icache s ip)) (i div BSIZE) \<noteq> 0"
  shows "\<exists>s'. readi devsw me ip (of_nat off) (of_nat n) s =
    Ret (int n, map (file_byte (t_view (tabs (ls s))) (i_addrs (icache s ip))) [off..<off + n]) s' \<and>
    ifile_ok ip s' \<and> tabs (ls s') = tabs (ls s) \<and> icache s' = icache s"
proof -
  note W = word_len [of n] word_len(1) [of off] word_len(1) [of "off + n"] word_sum [OF fit]
  obtain l where l: "readi_loop me ip off n s =
      Ret (map (file_byte (t_view (tabs (ls s))) (i_addrs (icache s ip))) [off..<off + n]) (s\<lparr>ls := l\<rparr>)"
    "log_inv l" "tabs l = tabs (ls s)" using readi_loop_ok [OF ok rm fit mapped, of me] by blast
  have "\<not> i_size (icache s ip) < of_nat off" "\<not> i_size (icache s ip) < of_nat off + of_nat n"
    using sz W(3,4) fit by (simp_all add: word_less_nat_alt)
  then have "readi devsw me ip (of_nat off) (of_nat n) s =
    Ret (int n, map (file_byte (t_view (tabs (ls s))) (i_addrs (icache s ip))) [off..<off + n]) (s\<lparr>ls := l\<rparr>)"
    using W(1,2,3,6) fit ty l(1) by (simp add: readi_def Let_def)
  moreover have "ifile_ok ip (s\<lparr>ls := l\<rparr>)" using ok l(2,3) by (simp add: ifile_ok_def del: tabs_sel)
  ultimately show ?thesis using l(3) by (intro exI [of _ "s\<lparr>ls := l\<rparr>"]) simp
qed

subsection \<open>Properties\<close>

text \<open>
  C31: the 64 bytes of an on-disk inode and its fields are in bijection, and the inodes of one block
  do not overlap: writing inode \<open>inum\<close> into its block and reading it gives the fields written, and
  reading another inode of the block gives what it was.
\<close>

theorem dinode_roundtrip:
  assumes "length d = BSIZE" and "length (d_addrs di) = NDIRECT + 1"
  shows "get_dinode (put_dinode inum di d) inum = di \<and>
    (inum mod IPB \<noteq> j mod IPB \<longrightarrow> get_dinode (put_dinode inum di d) j = get_dinode d j)"
  using get_put_dinode_same [OF assms] get_put_dinode_other [OF assms] by blast

theorem dinode_roundtrip_witness:
  "let di = (free_dinode T_DIR)\<lparr>d_size := 32\<rparr>; d = put_dinode 1 di (replicate BSIZE 0) in
    get_dinode d 1 = di \<and> get_dinode d 2 = get_dinode (replicate BSIZE 0) 2"
proof -
  have "(1::nat) mod IPB \<noteq> 2 mod IPB" by (simp add: IPB_def BSIZE_def)
  then show ?thesis
    using dinode_roundtrip [of "replicate BSIZE 0" "(free_dinode T_DIR)\<lparr>d_size := 32\<rparr>" 1 2]
    by (simp add: Let_def free_dinode_def)
qed

text \<open>
  C2: what \<open>writei\<close> writes, \<open>readi\<close> reads back. Inside an operation with room in the log and
  enough free blocks, writing bytes at an offset no larger than the file's size returns their number;
  then reading as many bytes at that offset returns those bytes, every other byte of the file is what
  it was (holes read as zero), and the size is the larger of the old size and the end of the write.
\<close>

theorem writei_readi_roundtrip:
  assumes "ifile_ok ip s" and "i_type (icache s ip) \<noteq> T_DEV" and "i_inum (icache s ip) < sb_ninodes (fsb s)"
    and "off \<le> unat (i_size (icache s ip))" and "off + length src \<le> MAXFILE * BSIZE" and "src \<noteq> []"
    and "off mod BSIZE + length src \<le> k * BSIZE" and "room (6 * k + 1) (tabs (ls s))"
    and "2 * k \<le> nfree (fsb s) (tabs (ls s))"
  shows "\<exists>s' s''. writei devsw me ip src (of_nat off) (of_nat (length src)) s = Ret (int (length src)) s' \<and>
    ifile_ok ip s' \<and> unat (i_size (icache s' ip)) = max (unat (i_size (icache s ip))) (off + length src) \<and>
    readi devsw me ip (of_nat off) (of_nat (length src)) s' = Ret (int (length src), src) s'' \<and>
    (\<forall>x. x < MAXFILE * BSIZE \<and> \<not> (off \<le> x \<and> x < off + length src) \<longrightarrow>
      file_byte (t_view (tabs (ls s''))) (i_addrs (icache s'' ip)) x =
      file_byte (t_view (tabs (ls s))) (i_addrs (icache s ip)) x)"
proof -
  obtain s' where w: "writei devsw me ip src (of_nat off) (of_nat (length src)) s = Ret (int (length src)) s'"
    "ifile_ok ip s'" "room 0 (tabs (ls s'))" "i_type (icache s' ip) = i_type (icache s ip)"
    "\<forall>x. x < MAXFILE * BSIZE \<longrightarrow> file_byte (t_view (tabs (ls s'))) (i_addrs (icache s' ip)) x =
      (if off \<le> x \<and> x < off + length src then src ! (x - off)
       else file_byte (t_view (tabs (ls s))) (i_addrs (icache s ip)) x)"
    "\<forall>x. off \<le> x \<and> x < off + length src \<longrightarrow>
      file_blk (t_view (tabs (ls s'))) (i_addrs (icache s' ip)) (x div BSIZE) \<noteq> 0"
    "unat (i_size (icache s' ip)) = (if src = [] then unat (i_size (icache s ip)) else max (unat (i_size (icache s ip))) (off + length src))"
    by (rule writei_ok [OF assms(1-5,7-9)])
  let ?f = "file_byte (t_view (tabs (ls s'))) (i_addrs (icache s' ip))"
  have sz: "unat (i_size (icache s' ip)) = max (unat (i_size (icache s ip))) (off + length src)" using w(7) assms(6) by simp
  have e: "map ?f [off..<off + length src] = src"
    using w(5) assms(5) by (intro nth_equalityI) simp_all
  obtain s'' where r: "readi devsw me ip (of_nat off) (of_nat (length src)) s' = Ret (int (length src), src) s''"
    "tabs (ls s'') = tabs (ls s')" "icache s'' = icache s'"
    using readi_ok [OF w(2,3) _ assms(5), of devsw me, unfolded e] w(4,6) assms(2) sz by auto
  show ?thesis
    using w(1,2,5) sz r by (intro exI [of _ s'] exI [of _ s'']) (simp del: tabs_sel)
qed

text \<open>An empty file of the file system of \<open>fs_boot\<close>, its inode in the first cache entry.\<close>

definition empty_file :: inode where
  "empty_file = zero_inode\<lparr>i_dev := 1, i_inum := 2, i_ref := 1, i_valid := True, i_type := T_FILE, i_nlink := 1\<rparr>"

lemma empty_file_ok:
  assumes "fs_boot 1 fs_disk 100 = Ret () s"
  defines "s0 \<equiv> set_inode 0 empty_file s"
  shows "ifile_ok 0 s0" and "room 28 (tabs (ls s0))" and "2 \<le> nfree (fsb s0) (tabs (ls s0))"
    and "fsb s0 = fs_sb" and "icache s0 0 = empty_file"
proof -
  have s: "log_inv (ls s)" "fsb s = fs_sb" "room 28 (tabs (ls s))" "fs_ok fs_sb (tabs (ls s))"
    "\<forall>b. b \<noteq> 2 \<longrightarrow> view (bc (ls s)) b = fs_disk b" using fs_boot_ok assms(1) by auto
  have "file_blk v (i_addrs empty_file) bn = 0" if "bn < MAXFILE" for v bn
    by (simp add: file_blk_def empty_file_def zero_inode_def NDIRECT_def)
  moreover have "i_addrs empty_file ! NDIRECT = 0" "length (i_addrs empty_file) = NDIRECT + 1"
    by (simp_all add: empty_file_def zero_inode_def NDIRECT_def)
  ultimately have "file_ok fs_sb (tabs (ls s)) (i_addrs empty_file)"
    by (auto simp: file_ok_def owns_def)
  then show "ifile_ok 0 s0" using s by (simp add: ifile_ok_def s0_def empty_file_def)
  show "room 28 (tabs (ls s0))" "fsb s0 = fs_sb" "icache s0 0 = empty_file" using s by (simp_all add: s0_def)
  have "\<not> used fs_sb (t_view (tabs (ls s))) b" if "b \<in> {40, 41}" for b
  proof -
    have "is_free fs_bitmap b" using that fs_bitmap_used [of b] by auto
    then show ?thesis
      using s(5) that by (auto simp: used_def BBLOCK_def fs_sb_def BPB_def BSIZE_def fs_disk_def)
  qed
  then have "{40, 41} \<subseteq> {b. b < sb_size fs_sb \<and> \<not> used fs_sb (t_view (tabs (ls s))) b}"
    by (auto simp: fs_sb_def)
  then have "card {40, 41 :: nat} \<le> nfree fs_sb (tabs (ls s))" unfolding nfree_def by (intro card_mono) simp_all
  then show "2 \<le> nfree (fsb s0) (tabs (ls s0))" using s(2) by (simp add: s0_def)
qed

theorem writei_readi_roundtrip_witness:
  "\<exists>s s' s''. fs_boot 1 fs_disk 100 = Ret () s \<and>
    writei (\<lambda>_. \<lparr>dv_read = None, dv_write = None\<rparr>) 1 0 [104, 105] 0 2 (set_inode 0 empty_file s) = Ret 2 s' \<and>
    i_size (icache s' 0) = 2 \<and>
    readi (\<lambda>_. \<lparr>dv_read = None, dv_write = None\<rparr>) 1 0 0 2 s' = Ret (2, [104, 105]) s''"
proof -
  obtain s where s: "fs_boot 1 fs_disk 100 = Ret () s" using fs_boot_ok by blast
  note E = empty_file_ok [OF s]
  have "i_type empty_file \<noteq> T_DEV" "i_inum empty_file < sb_ninodes fs_sb" "i_size empty_file = 0"
    by (simp_all add: empty_file_def T_FILE_def T_DEV_def fs_sb_def zero_inode_def)
  moreover have "2 \<le> BSIZE" "2 \<le> MAXFILE * BSIZE" by (simp_all add: BSIZE_def MAXFILE_def NDIRECT_def)
  moreover note room_mono [OF E(2), of 7]
  ultimately obtain s' s'' where
    "writei (\<lambda>_. \<lparr>dv_read = None, dv_write = None\<rparr>) 1 0 [104, 105] 0 2 (set_inode 0 empty_file s) = Ret 2 s'"
    "unat (i_size (icache s' 0)) = 2"
    "readi (\<lambda>_. \<lparr>dv_read = None, dv_write = None\<rparr>) 1 0 0 2 s' = Ret (2, [104, 105]) s''"
    using writei_readi_roundtrip [OF E(1), of 0 "[104, 105]" 1 "\<lambda>_. \<lparr>dv_read = None, dv_write = None\<rparr>" 1] E(3-5)
    by (auto simp del: tabs_sel)
  moreover from this(2) have "i_size (icache s' 0) = 2" by (simp add: word_unat_eq_iff)
  ultimately show ?thesis using s by blast
qed

end
