(* ===== verification/Memory.thy ===== *)
theory Memory
  imports CString
begin

text \<open>
  Kernel memory as the page allocator and the page tables see it: 32-bit words in a byte-addressed
  memory, pages of 4096 bytes, and the macros of \<open>src/xv6/mmu.h\<close> and \<open>src/xv6/memlayout.h\<close>
  on addresses. Addresses are 32-bit words; the memory is indexed by their values.
\<close>

definition PGSIZE :: u32 where "PGSIZE = 4096"
definition KERNBASE :: u32 where "KERNBASE = 0x80000000"
definition EXTMEM :: u32 where "EXTMEM = 0x100000"
definition PHYSTOP :: u32 where "PHYSTOP = 0xE000000"
definition DEVSPACE :: u32 where "DEVSPACE = 0xFE000000"
definition KERNLINK :: u32 where "KERNLINK = KERNBASE + EXTMEM"

definition V2P :: "u32 \<Rightarrow> u32" where "V2P a = a - KERNBASE"
definition P2V :: "u32 \<Rightarrow> u32" where "P2V a = a + KERNBASE"

definition PGROUNDUP :: "u32 \<Rightarrow> u32" where "PGROUNDUP sz = (sz + PGSIZE - 1) AND NOT (PGSIZE - 1)"
definition PGROUNDDOWN :: "u32 \<Rightarrow> u32" where "PGROUNDDOWN a = a AND NOT (PGSIZE - 1)"

definition load32 :: "mem \<Rightarrow> u32 \<Rightarrow> u32" where
  "load32 m a = un_le32 [m (unat a), m (unat (a + 1)), m (unat (a + 2)), m (unat (a + 3))]"

subsection \<open>Words in memory\<close>

lemma take_bit_num_1 [simp]:
  "take_bit_num 1 num.One = Some num.One" "take_bit_num 1 (num.Bit1 m) = Some num.One" "take_bit_num 1 (num.Bit0 m) = None"
  by (simp_all add: One_nat_def)

lemma unat_u32: "unat (a :: u32) < 4294967296"
proof -
  have "unat a < 2 ^ LENGTH(32)" by (rule unsigned_less)
  then show ?thesis by simp
qed

lemma unat_plus_small:
  fixes a k :: u32
  assumes "unat a + unat k < 2 ^ 32"
  shows "unat (a + k) = unat a + unat k"
  using assms by (simp add: unat_word_ariths)

lemma aligned_room: "unat (a :: u32) mod 4 = 0 \<Longrightarrow> unat a + 3 < 2 ^ 32"
  using unat_u32 [of a] by simp presburger

lemma load32_aligned:
  assumes "unat a mod 4 = 0"
  shows "load32 m a = un_le32 [m (unat a), m (unat a + 1), m (unat a + 2), m (unat a + 3)]"
  using aligned_room [OF assms] unat_plus_small [of a 1] unat_plus_small [of a 2] unat_plus_small [of a 3]
  by (simp add: load32_def)

lemma le32_nths: "[le32 w ! 0, le32 w ! 1, le32 w ! 2, le32 w ! 3] = le32 w"
  by (simp add: le32_def One_nat_def numeral_2_eq_2 numeral_3_eq_3)

lemma load32_store32_same:
  assumes "unat a mod 4 = 0"
  shows "load32 (store32 m (unat a) w) a = w"
  using le32_nths [of w] by (simp add: load32_aligned [OF assms] store32_def)

lemma load32_cong:
  assumes "unat a mod 4 = 0" and "\<And>n. unat a \<le> n \<Longrightarrow> n < unat a + 4 \<Longrightarrow> m n = m' n"
  shows "load32 m a = load32 m' a"
  using assms(2) by (simp add: load32_aligned [OF assms(1)])

lemma dvd_apart:
  fixes a b k :: nat
  assumes "k dvd a" and "k dvd b" and "a \<noteq> b"
  shows "a + k \<le> b \<or> b + k \<le> a"
proof (cases "a < b")
  case True
  then have "k \<le> b - a" using assms by (intro dvd_imp_le dvd_diff_nat) simp_all
  then show ?thesis using True by simp
next
  case False
  then have "k \<le> a - b" using assms by (intro dvd_imp_le dvd_diff_nat) simp_all
  then show ?thesis using False by linarith
qed

lemma load32_store32_other:
  assumes "unat a mod 4 = 0" and "unat b mod 4 = 0" and "a \<noteq> b"
  shows "load32 (store32 m (unat b) w) a = load32 m a"
proof (rule load32_cong [OF assms(1)])
  fix n
  assume n: "unat a \<le> n" "n < unat a + 4"
  have "unat a \<noteq> unat b" using assms(3) by (simp add: word_unat_eq_iff)
  moreover have "4 dvd unat a" "4 dvd unat b" using assms(1,2) by (simp_all add: dvd_eq_mod_eq_0)
  ultimately have "unat a + 4 \<le> unat b \<or> unat b + 4 \<le> unat a" by (intro dvd_apart)
  then show "store32 m (unat b) w n = m n" using n by (auto simp: store32_def)
qed

lemma load32_zero:
  assumes "unat a mod 4 = 0" and "\<And>n. unat a \<le> n \<Longrightarrow> n < unat a + 4 \<Longrightarrow> m n = 0"
  shows "load32 m a = 0"
  using assms(2) by (simp add: load32_aligned [OF assms(1)] un_le32_def)

lemma V2P_range:
  assumes "V2P v < PHYSTOP"
  shows "unat v = unat (V2P v) + 0x80000000" and "unat v < 0x8E000000"
proof -
  have u: "unat (V2P v) < 0xE000000" using assms by (simp add: word_less_nat_alt PHYSTOP_def)
  have "unat (V2P v + 0x80000000) = unat (V2P v) + unat (0x80000000 :: u32)"
    using u by (intro unat_plus_small) simp
  moreover have "V2P v + 0x80000000 = v" by (simp add: V2P_def KERNBASE_def)
  ultimately show "unat v = unat (V2P v) + 0x80000000" by simp
  then show "unat v < 0x8E000000" using u by simp
qed

subsection \<open>Pages\<close>

text \<open>The bytes of the page at \<open>p\<close>.\<close>

definition page :: "u32 \<Rightarrow> nat set" where
  "page p = {unat p..<unat p + 4096}"

definition page_aligned :: "u32 \<Rightarrow> bool" where
  "page_aligned p \<longleftrightarrow> unat p mod 4096 = 0"

lemma page_aligned_room: "page_aligned p \<Longrightarrow> unat p + 4095 < 2 ^ 32"
  using unat_u32 [of p] dvd_apart [of 4096 "unat p" "2 ^ 32"] by (simp add: page_aligned_def dvd_eq_mod_eq_0)

lemma page_disjoint:
  assumes "page_aligned p" and "page_aligned q" and "p \<noteq> q"
  shows "page p \<inter> page q = {}"
proof -
  have "unat p \<noteq> unat q" using assms(3) by (simp add: word_unat_eq_iff)
  moreover have "4096 dvd unat p" "4096 dvd unat q" using assms(1,2) by (simp_all add: page_aligned_def dvd_eq_mod_eq_0)
  ultimately have "unat p + 4096 \<le> unat q \<or> unat q + 4096 \<le> unat p" by (intro dvd_apart)
  then show ?thesis by (auto simp: page_def)
qed

lemma unat_mask_page: "unat ((a :: u32) AND - 4096) = unat a div 4096 * 4096"
proof -
  have "a AND NOT (mask 12) = push_bit 12 (drop_bit 12 a)"
    by (rule bit_word_eqI) (auto simp: bit_simps)
  then have "a AND - 4096 = a div 4096 * 4096"
    by (simp add: push_bit_eq_mult drop_bit_eq_div mask_eq_exp_minus_1)
  then have "unat (a AND - 4096) = unat a div 4096 * 4096 mod 4294967296"
    by (simp add: unat_word_ariths unat_div mod_mult_left_eq)
  also have "\<dots> = unat a div 4096 * 4096"
    using unat_u32 [of a] by (intro mod_less) (metis div_times_less_eq_dividend le_less_trans)
  finally show ?thesis .
qed

lemma unat_PGROUNDDOWN: "unat (PGROUNDDOWN a) = unat a div 4096 * 4096"
  by (simp add: PGROUNDDOWN_def PGSIZE_def unat_mask_page)

lemma PGROUNDDOWN_aligned [simp]: "page_aligned (PGROUNDDOWN a)"
  by (simp add: page_aligned_def unat_PGROUNDDOWN)

lemma PGROUNDUP_alt: "PGROUNDUP a = PGROUNDDOWN (a + 4095)"
proof -
  have "a + PGSIZE - 1 = a + 4095" by (simp add: PGSIZE_def)
  then show ?thesis by (simp only: PGROUNDUP_def PGROUNDDOWN_def)
qed

lemma unat_PGROUNDUP:
  assumes "unat a + 4095 < 2 ^ 32"
  shows "unat (PGROUNDUP a) = (unat a + 4095) div 4096 * 4096"
proof -
  have "unat (a + 4095) = unat a + 4095" using assms by (subst unat_plus_small) simp_all
  then show ?thesis by (simp add: PGROUNDUP_alt unat_PGROUNDDOWN)
qed

lemma PGROUNDUP_aligned [simp]: "page_aligned (PGROUNDUP a)"
  by (simp add: PGROUNDUP_alt)

lemma PGROUNDDOWN_of_aligned: "page_aligned a \<Longrightarrow> PGROUNDDOWN a = a"
  by (auto simp: word_unat_eq_iff unat_PGROUNDDOWN page_aligned_def)

lemma unat_page_off: "unat (a - PGROUNDDOWN a) = unat a mod 4096"
proof -
  have "unat (PGROUNDDOWN a) \<le> unat a" by (simp add: unat_PGROUNDDOWN)
  then have "unat (a - PGROUNDDOWN a) = unat a - unat (PGROUNDDOWN a)" by (simp add: unat_sub word_le_nat_alt)
  then show ?thesis by (simp add: unat_PGROUNDDOWN minus_div_mult_eq_mod)
qed

lemma aligned_bits: "page_aligned p \<longleftrightarrow> (\<forall>n<12. \<not> bit p n)"
proof -
  have "page_aligned p \<longleftrightarrow> unat (take_bit 12 p) = 0"
    by (simp add: page_aligned_def take_bit_eq_mod unat_mod)
  also have "\<dots> \<longleftrightarrow> (\<forall>n<12. \<not> bit p n)"
  proof -
    have "unat (take_bit 12 p) = 0 \<longleftrightarrow> take_bit 12 p = 0" by (simp only: unat_eq_0)
    also have "\<dots> \<longleftrightarrow> (\<forall>n<12. \<not> bit p n)" by (auto simp: bit_eq_iff [of "take_bit 12 p"] bit_take_bit_iff)
    finally show ?thesis .
  qed
  finally show ?thesis .
qed

lemma small_bits: "unat (f :: u32) < 4096 \<Longrightarrow> bit f n \<Longrightarrow> n < 12"
proof -
  assume a: "unat f < 4096" "bit f n"
  have "take_bit 12 f = f" using a(1) by (simp add: word_unat_eq_iff take_bit_eq_mod unat_mod)
  then show ?thesis using a(2) by (metis bit_take_bit_iff)
qed

lemma aligned_P2V: "page_aligned (P2V p) \<longleftrightarrow> page_aligned p"
proof -
  have "unat (P2V p) mod 4096 = (unat p + 2147483648) mod 4096"
    by (simp add: P2V_def KERNBASE_def unat_word_ariths mod_mod_cancel)
  also have "\<dots> = unat p mod 4096" using mod_mult_self1 [of "unat p" 524288 4096] by simp
  finally show ?thesis by (simp add: page_aligned_def)
qed

lemma aligned_V2P: "page_aligned (V2P p) \<longleftrightarrow> page_aligned p"
proof -
  have "P2V (V2P p) = p" by (simp add: P2V_def V2P_def)
  then show ?thesis using aligned_P2V [of "V2P p"] by simp
qed

end
