(* ===== verification/Spinlock.thy ===== *)
theory Spinlock
  imports Memory
begin

text \<open>
  Spin locks and the nesting of disabled interrupts (\<open>src/xv6/spinlock.c\<close>). A processor is its
  interrupt flag (\<open>FL_IF\<close> of \<open>eflags\<close>) and the two counters of \<open>struct cpu\<close>; a lock keeps
  the processor that holds it. \<open>acquire\<close> is split at its spinning loop, so that the
  processors of the machine interleave between two attempts of \<open>xchg\<close>: the step relation
  \<open>spin_step\<close> runs them, and its invariant says that a lock has at most one holder, that interrupts
  are off on a processor that holds or waits for a lock, and that \<open>ncli\<close> counts its locks.
\<close>

record cpu =
  ncli :: int
  intena :: bool
  cpu_if :: bool

record spinlock =
  lk_locked :: bool
  lk_cpu :: "nat option"
  lk_pcs :: "u32 list"

definition initlock :: "spinlock \<Rightarrow> spinlock" where
  "initlock lk = lk\<lparr>lk_locked := False, lk_cpu := None\<rparr>"

text \<open>The return addresses on the stack, following the saved frame pointers, for \<open>k\<close> more entries.\<close>

fun pcs_from :: "mem \<Rightarrow> u32 \<Rightarrow> nat \<Rightarrow> u32 list" where
  "pcs_from m ebp 0 = []"
| "pcs_from m ebp (Suc k) =
     (if ebp = 0 \<or> ebp < KERNBASE \<or> ebp = 0xFFFFFFFF then replicate (Suc k) 0
      else load32 m (ebp + 4) # pcs_from m (load32 m ebp) k)"

definition getcallerpcs :: "mem \<Rightarrow> u32 \<Rightarrow> u32 list" where
  "getcallerpcs m v = pcs_from m (v - 8) 10"

definition pushcli :: "cpu \<Rightarrow> cpu" where
  "pushcli c =
     (let eflags = cpu_if c;
          c = c\<lparr>cpu_if := False\<rparr>;
          c = (if ncli c = 0 then c\<lparr>intena := eflags\<rparr> else c)
      in c\<lparr>ncli := ncli c + 1\<rparr>)"

definition popcli :: "cpu \<Rightarrow> (unit, cpu) outcome" where
  "popcli c =
     (if cpu_if c then Panic ''popcli - interruptible''
      else
        let c = c\<lparr>ncli := ncli c - 1\<rparr>
        in if ncli c < 0 then Panic ''popcli''
           else if ncli c = 0 \<and> intena c then Ret () (c\<lparr>cpu_if := True\<rparr>)
           else Ret () c)"

definition holding :: "nat \<Rightarrow> spinlock \<Rightarrow> cpu \<Rightarrow> (bool, cpu) outcome" where
  "holding me lk c =
     (let r = (lk_locked lk \<and> lk_cpu lk = Some me)
      in obind (popcli (pushcli c)) (\<lambda>_ c. Ret r c))"

text \<open>\<open>acquire\<close> up to the loop, one turn of the loop, and what follows it.\<close>

definition acquire_enter :: "nat \<Rightarrow> spinlock \<Rightarrow> cpu \<Rightarrow> (unit, cpu) outcome" where
  "acquire_enter me lk c =
     obind (holding me lk (pushcli c)) (\<lambda>h c. if h then Panic ''acquire'' else Ret () c)"

definition xchg_locked :: "spinlock \<Rightarrow> bool \<times> spinlock" where
  "xchg_locked lk = (lk_locked lk, lk\<lparr>lk_locked := True\<rparr>)"

definition acquire_spin :: "nat \<Rightarrow> u32 list \<Rightarrow> spinlock \<Rightarrow> spinlock option" where
  "acquire_spin me pcs lk =
     (case xchg_locked lk of (was, lk) \<Rightarrow> if was then None else Some (lk\<lparr>lk_cpu := Some me, lk_pcs := pcs\<rparr>))"

definition release :: "nat \<Rightarrow> spinlock \<Rightarrow> cpu \<Rightarrow> (spinlock, cpu) outcome" where
  "release me lk c =
     obind (holding me lk c) (\<lambda>h c.
       if \<not> h then Panic ''release''
       else obind (popcli c) (\<lambda>_ c. Ret (lk\<lparr>lk_pcs := (lk_pcs lk)[0 := 0], lk_cpu := None, lk_locked := False\<rparr>) c))"

subsection \<open>The machine\<close>

datatype phase = Running | Spinning nat

record machine =
  m_cpu :: "nat \<Rightarrow> cpu"
  m_phase :: "nat \<Rightarrow> phase"
  m_lock :: "nat \<Rightarrow> spinlock"

text \<open>
  A running processor may start to acquire a lock, release one, or let interrupts in (\<open>sti\<close>, as
  the scheduler does) or keep them out (\<open>cli\<close>) while it holds none; a spinning one tries again.
\<close>

inductive spin_step :: "machine \<Rightarrow> machine \<Rightarrow> bool" where
  enter: "m_phase s i = Running \<Longrightarrow> acquire_enter i (m_lock s l) (m_cpu s i) = Ret () c \<Longrightarrow>
    spin_step s (s\<lparr>m_cpu := (m_cpu s)(i := c), m_phase := (m_phase s)(i := Spinning l)\<rparr>)"
| spin: "m_phase s i = Spinning l \<Longrightarrow> acquire_spin i pcs (m_lock s l) = Some lk \<Longrightarrow>
    spin_step s (s\<lparr>m_lock := (m_lock s)(l := lk), m_phase := (m_phase s)(i := Running)\<rparr>)"
| rel: "m_phase s i = Running \<Longrightarrow> release i (m_lock s l) (m_cpu s i) = Ret lk c \<Longrightarrow>
    spin_step s (s\<lparr>m_cpu := (m_cpu s)(i := c), m_lock := (m_lock s)(l := lk)\<rparr>)"
| flag: "m_phase s i = Running \<Longrightarrow> ncli (m_cpu s i) = 0 \<Longrightarrow>
    spin_step s (s\<lparr>m_cpu := (m_cpu s)(i := (m_cpu s i)\<lparr>cpu_if := b\<rparr>)\<rparr>)"

definition machine_boot :: machine where
  "machine_boot = \<lparr>m_cpu = (\<lambda>_. \<lparr>ncli = 0, intena = False, cpu_if = False\<rparr>), m_phase = (\<lambda>_. Running),
     m_lock = (\<lambda>_. initlock \<lparr>lk_locked = True, lk_cpu = None, lk_pcs = replicate 10 0\<rparr>)\<rparr>"

definition held :: "machine \<Rightarrow> nat \<Rightarrow> nat set" where
  "held s i = {l. lk_locked (m_lock s l) \<and> lk_cpu (m_lock s l) = Some i}"

definition spin_inv :: "machine \<Rightarrow> bool" where
  "spin_inv s \<longleftrightarrow>
     (\<forall>l. lk_locked (m_lock s l) \<longleftrightarrow> lk_cpu (m_lock s l) \<noteq> None) \<and>
     (\<forall>i. finite (held s i) \<and>
        ncli (m_cpu s i) = int (card (held s i)) + (if m_phase s i = Running then 0 else 1) \<and>
        (0 < ncli (m_cpu s i) \<longrightarrow> \<not> cpu_if (m_cpu s i)))"

lemmas spin_defs = pushcli_def popcli_def holding_def acquire_enter_def release_def acquire_spin_def xchg_locked_def

lemma length_pcs_from: "length (pcs_from m ebp k) = k"
  by (induction m ebp k rule: pcs_from.induct) simp_all

subsection \<open>Single operations\<close>

text \<open>A lock taken and given back leaves the interrupt state of a processor as it was.\<close>

lemma acquire_enter_iff:
  assumes "0 \<le> ncli c"
  shows "acquire_enter i lk c =
    (if lk_locked lk \<and> lk_cpu lk = Some i then Panic ''acquire'' else Ret () (pushcli c))"
  using assms by (auto simp: spin_defs Let_def)

lemma release_iff:
  assumes "0 < ncli c" and "\<not> cpu_if c"
  shows "release i lk c =
    (if lk_locked lk \<and> lk_cpu lk = Some i
     then Ret (lk\<lparr>lk_pcs := (lk_pcs lk)[0 := 0], lk_cpu := None, lk_locked := False\<rparr>)
       (c\<lparr>ncli := ncli c - 1, cpu_if := (ncli c = 1 \<and> intena c)\<rparr>)
     else Panic ''release'')"
  using assms by (cases c) (auto simp: spin_defs Let_def)

lemma release_idle:
  assumes "ncli c = 0" and "\<not> (lk_locked lk \<and> lk_cpu lk = Some i)"
  shows "release i lk c = Panic ''release''"
  using assms by (cases c) (auto simp: spin_defs Let_def)

subsection \<open>The invariant\<close>

lemma spin_inv_boot: "spin_inv machine_boot"
  by (simp add: spin_inv_def machine_boot_def held_def initlock_def)

lemma held_cpu [simp]: "held (s\<lparr>m_cpu := f\<rparr>) = held s" "held (s\<lparr>m_phase := g\<rparr>) = held s"
  "held (s\<lparr>m_cpu := f, m_lock := h\<rparr>) = held (s\<lparr>m_lock := h\<rparr>)"
  by (simp_all add: held_def fun_eq_iff)

lemma held_lock:
  "held (s\<lparr>m_lock := (m_lock s)(l := lk)\<rparr>) i =
    (if lk_locked lk \<and> lk_cpu lk = Some i then insert l (held s i) else held s i - {l})"
  by (auto simp: held_def)

lemma spin_inv_step:
  assumes "spin_step s s'" and "spin_inv s"
  shows "spin_inv s'"
  using assms
proof (induction rule: spin_step.induct)
  case (enter s i l c)
  have "0 \<le> ncli (m_cpu s i)" using enter(3) by (simp add: spin_inv_def)
  then have "c = pushcli (m_cpu s i)" using enter(2) by (auto simp: acquire_enter_iff split: if_splits)
  then show ?case using enter(1,3) by (auto simp: spin_inv_def pushcli_def Let_def)
next
  case (spin s i l pcs lk)
  then have lk: "lk_locked lk" "lk_cpu lk = Some i" "\<not> lk_locked (m_lock s l)"
    by (auto simp: acquire_spin_def xchg_locked_def split: if_splits)
  then have "l \<notin> held s j" for j by (simp add: held_def)
  then show ?case using spin(1,3) lk by (auto simp: spin_inv_def held_lock)
next
  case (rel s i l lk c)
  have n: "ncli (m_cpu s i) = int (card (held s i))" using rel(1,3) by (simp add: spin_inv_def)
  have h: "l \<in> held s i"
  proof (rule ccontr)
    assume "l \<notin> held s i"
    then have "release i (m_lock s l) (m_cpu s i) = Panic ''release''"
      using release_idle [of "m_cpu s i" "m_lock s l" i] release_iff [of "m_cpu s i" i "m_lock s l"] rel(3) n
      by (cases "ncli (m_cpu s i) = 0") (auto simp: held_def spin_inv_def)
    then show False using rel(2) by simp
  qed
  have f: "finite (held s i)" using rel(3) by (simp add: spin_inv_def)
  have pos: "0 < ncli (m_cpu s i)" using h f unfolding n by (auto simp: card_gt_0_iff)
  have off: "\<not> cpu_if (m_cpu s i)" using pos rel(3) unfolding spin_inv_def by blast
  have oth: "l \<notin> held s j" if "j \<noteq> i" for j using h that by (auto simp: held_def)
  have c: "lk = (m_lock s l)\<lparr>lk_pcs := (lk_pcs (m_lock s l))[0 := 0], lk_cpu := None, lk_locked := False\<rparr>"
    "c = (m_cpu s i)\<lparr>ncli := ncli (m_cpu s i) - 1, cpu_if := (ncli (m_cpu s i) = 1 \<and> intena (m_cpu s i))\<rparr>"
    using rel(2) release_iff [OF pos off, of i "m_lock s l"] h by (auto simp: held_def)
  have "int (card (held s i - {l})) = int (card (held s i)) - 1"
    using h f card_gt_0_iff [of "held s i"] by (subst card_Diff_singleton) auto
  then show ?case using rel(1,3) c oth f by (auto simp: spin_inv_def held_lock)
next
  case (flag s i b)
  then show ?case by (auto simp: spin_inv_def)
qed

lemma spin_inv_reachable: "spin_step\<^sup>*\<^sup>* machine_boot s \<Longrightarrow> spin_inv s"
  by (induction rule: rtranclp_induct) (auto intro: spin_inv_boot spin_inv_step)

subsection \<open>Properties\<close>

text \<open>
  C7: in every state the processors reach, a processor that holds a lock or waits for one runs
  with interrupts off, and \<open>ncli\<close> is the number of locks it holds, plus one while it spins. So
  acquiring a lock again, and only that, panics; releasing a lock it holds, and only that, succeeds.
\<close>

theorem spinlock_discipline:
  assumes "spin_step\<^sup>*\<^sup>* machine_boot s"
  shows "(held s i \<noteq> {} \<or> m_phase s i \<noteq> Running \<longrightarrow> \<not> cpu_if (m_cpu s i)) \<and>
    ncli (m_cpu s i) = int (card (held s i)) + (if m_phase s i = Running then 0 else 1) \<and>
    (i \<noteq> j \<longrightarrow> held s i \<inter> held s j = {}) \<and>
    (acquire_enter i (m_lock s l) (m_cpu s i) = Panic ''acquire'' \<longleftrightarrow> l \<in> held s i) \<and>
    (returns (release i (m_lock s l) (m_cpu s i)) \<longleftrightarrow> l \<in> held s i)"
proof -
  have I: "spin_inv s" by (rule spin_inv_reachable [OF assms])
  then have n: "ncli (m_cpu s i) = int (card (held s i)) + (if m_phase s i = Running then 0 else 1)"
    and f: "finite (held s i)" and off: "0 < ncli (m_cpu s i) \<Longrightarrow> \<not> cpu_if (m_cpu s i)"
    by (auto simp: spin_inv_def)
  have "0 \<le> ncli (m_cpu s i)" using n by simp
  then have a: "acquire_enter i (m_lock s l) (m_cpu s i) = Panic ''acquire'' \<longleftrightarrow> l \<in> held s i"
    by (simp add: acquire_enter_iff held_def)
  have r: "returns (release i (m_lock s l) (m_cpu s i)) \<longleftrightarrow> l \<in> held s i"
  proof (cases "0 < ncli (m_cpu s i)")
    case True
    then show ?thesis using release_iff [OF True off, of i "m_lock s l"] by (auto simp: held_def)
  next
    case False
    then have 0: "ncli (m_cpu s i) = 0" and "held s i = {}" using n f by (auto split: if_splits simp: not_less card_eq_0_iff)
    then have "l \<notin> held s i" by simp
    then show ?thesis using release_idle [OF 0, of "m_lock s l" i] by (auto simp: held_def)
  qed
  have "0 < ncli (m_cpu s i)" if "held s i \<noteq> {} \<or> m_phase s i \<noteq> Running"
    using that n f by (auto simp: card_gt_0_iff)
  moreover have "i \<noteq> j \<Longrightarrow> held s i \<inter> held s j = {}" by (auto simp: held_def)
  ultimately show ?thesis using n a r off by blast
qed

text \<open>One processor takes lock 3 while another waits for it.\<close>

theorem spinlock_discipline_witness:
  "\<exists>s. spin_step\<^sup>*\<^sup>* machine_boot s \<and> 3 \<in> held s 0 \<and> m_phase s 1 = Spinning 3 \<and> ncli (m_cpu s 0) = 1 \<and>
    \<not> cpu_if (m_cpu s 0) \<and> \<not> cpu_if (m_cpu s 1)"
proof -
  let ?c = "pushcli \<lparr>ncli = 0, intena = False, cpu_if = False\<rparr>"
  let ?lk = "\<lparr>lk_locked = True, lk_cpu = Some 0, lk_pcs = []\<rparr>"
  let ?s1 = "machine_boot\<lparr>m_cpu := (m_cpu machine_boot)(0 := ?c), m_phase := (m_phase machine_boot)(0 := Spinning 3)\<rparr>"
  let ?s2 = "?s1\<lparr>m_lock := (m_lock ?s1)(3 := ?lk), m_phase := (m_phase ?s1)(0 := Running)\<rparr>"
  let ?s3 = "?s2\<lparr>m_cpu := (m_cpu ?s2)(1 := ?c), m_phase := (m_phase ?s2)(1 := Spinning 3)\<rparr>"
  have 1: "spin_step machine_boot ?s1"
    by (rule enter [of machine_boot 0 3]) (simp_all add: machine_boot_def spin_defs Let_def initlock_def)
  have 2: "spin_step ?s1 ?s2"
    by (rule spin [of _ 0 _ "[]"]) (simp_all add: machine_boot_def acquire_spin_def xchg_locked_def initlock_def)
  have 3: "spin_step ?s2 ?s3"
    by (rule enter [of ?s2 1 3]) (simp_all add: machine_boot_def spin_defs Let_def initlock_def)
  have r: "spin_step\<^sup>*\<^sup>* machine_boot ?s3" 
    by (rule converse_rtranclp_into_rtranclp [of spin_step, OF 1],
        rule converse_rtranclp_into_rtranclp [of spin_step, OF 2], rule r_into_rtranclp [of spin_step, OF 3])
  have h: "3 \<in> held ?s3 0" by (simp add: held_def)
  moreover have "\<not> cpu_if (m_cpu ?s3 0)" using spinlock_discipline [OF r, of 0 0 0] h by blast
  moreover have "m_phase ?s3 1 = Spinning 3" by simp
  moreover from this have "\<not> cpu_if (m_cpu ?s3 1)" using spinlock_discipline [OF r, of 1 0 0] by (metis phase.distinct(1))
  moreover have "ncli (m_cpu ?s3 0) = 1" by (simp add: pushcli_def Let_def)
  ultimately show ?thesis using r by blast
qed

end
