(* ===== verification/Page_Allocator.thy ===== *)
theory Page_Allocator
  imports Memory
begin

text \<open>
  What the kernel relies on from its page allocator. A state refines a stack of free pages: the next
  page to be allocated is its top. Freeing a page that is not free pushes it, and writes only to that
  page; writes of the kernel outside the free pages do not disturb the allocator.
\<close>

locale page_allocator =
  fixes alloc :: "'s \<Rightarrow> u32 \<times> 's"
    and free :: "u32 \<Rightarrow> 's \<Rightarrow> (unit, 's) outcome"
    and memory :: "'s \<Rightarrow> mem"
    and set_memory :: "mem \<Rightarrow> 's \<Rightarrow> 's"
    and pages :: "'s \<Rightarrow> u32 list \<Rightarrow> bool"
    and good :: "u32 \<Rightarrow> bool"
  assumes good_page: "good p \<Longrightarrow> page_aligned p \<and> p \<noteq> 0"
    and pages_good: "pages s ps \<Longrightarrow> distinct ps \<and> (\<forall>p\<in>set ps. good p)"
    and pages_unique: "pages s ps \<Longrightarrow> pages s qs \<Longrightarrow> ps = qs"
    and alloc_empty: "pages s [] \<Longrightarrow> alloc s = (0, s)"
    and alloc_top: "pages s (p # ps) \<Longrightarrow> \<exists>s'. alloc s = (p, s') \<and> pages s' ps \<and> memory s' = memory s"
    and free_push: "pages s ps \<Longrightarrow> good p \<Longrightarrow> p \<notin> set ps \<Longrightarrow>
      \<exists>s'. free p s = Ret () s' \<and> pages s' (p # ps) \<and> (\<forall>n. n \<notin> page p \<longrightarrow> memory s' n = memory s n)"
    and free_bad: "\<not> good p \<Longrightarrow> free p s = Panic ''kfree''"
    and frame: "pages s ps \<Longrightarrow> (\<And>p n. p \<in> set ps \<Longrightarrow> n \<in> page p \<Longrightarrow> m n = memory s n) \<Longrightarrow> pages (set_memory m s) ps"
    and memory_set: "memory (set_memory m s) = m"
begin

lemma alloc_cases:
  assumes "pages s ps"
  obtains "ps = []" and "alloc s = (0, s)"
  | p qs s' where "ps = p # qs" and "alloc s = (p, s')" and "p \<noteq> 0" and "page_aligned p" and "good p"
      and "p \<notin> set qs" and "pages s' qs" and "memory s' = memory s"
proof (cases ps)
  case Nil
  then show thesis using assms alloc_empty that(1) by simp
next
  case (Cons p qs)
  obtain s' where "alloc s = (p, s')" "pages s' qs" "memory s' = memory s"
    using alloc_top assms Cons by blast
  moreover have "good p" "p \<notin> set qs" using pages_good [OF assms] Cons by auto
  ultimately show thesis using Cons good_page that(2) by blast
qed

text \<open>A page comes back from the allocator before any other after it was freed.\<close>

lemma free_alloc:
  assumes "pages s ps" and "good p" and "p \<notin> set ps"
  shows "\<exists>s' s''. free p s = Ret () s' \<and> alloc s' = (p, s'') \<and> pages s'' ps"
  using free_push [OF assms] alloc_top by metis

text \<open>A write into one page that is not free keeps the allocator.\<close>

lemma frame_page:
  assumes "pages s ps" and "good p" and "p \<notin> set ps" and "\<And>n. n \<notin> page p \<Longrightarrow> m n = memory s n"
  shows "pages (set_memory m s) ps"
proof (rule frame [OF assms(1)])
  fix q n
  assume q: "q \<in> set ps" "n \<in> page q"
  have "page_aligned q" "page_aligned p" using pages_good [OF assms(1)] q(1) good_page assms(2) by auto
  then have "n \<notin> page p" using page_disjoint [of q p] q assms(3) by auto
  then show "m n = memory s n" by (rule assms(4))
qed

end

end
