(* ===== verification/Kalloc.thy ===== *)
theory Kalloc
  imports Page_Allocator
begin

text \<open>
  The allocator of physical pages (\<open>src/xv6/kalloc.c\<close>). The free list is threaded through the free
  pages themselves: the first word of a free page is the address of the next one. \<open>kend\<close> is
  the address \<open>end\<close> the linker gives. The spin lock makes \<open>kalloc\<close> and \<open>kfree\<close> atomic.
\<close>

record kmem =
  use_lock :: bool
  freelist :: u32
  kmemory :: mem

definition kfree :: "u32 \<Rightarrow> u32 \<Rightarrow> kmem \<Rightarrow> (unit, kmem) outcome" where
  "kfree kend v s =
     (if v mod PGSIZE \<noteq> 0 \<or> v < kend \<or> PHYSTOP \<le> V2P v then Panic ''kfree''
      else
        let s = s\<lparr>kmemory := memset (kmemory s) (unat v) 1 (unat PGSIZE)\<rparr>;
            s = s\<lparr>kmemory := store32 (kmemory s) (unat v) (freelist s)\<rparr>
        in Ret () (s\<lparr>freelist := v\<rparr>))"

definition kalloc :: "kmem \<Rightarrow> u32 \<times> kmem" where
  "kalloc s =
     (let r = freelist s
      in (r, if r \<noteq> 0 then s\<lparr>freelist := load32 (kmemory s) r\<rparr> else s))"

lemma kfree_below: "kfree kend v s = Ret () s' \<Longrightarrow> unat v < 0x8E000000"
  using V2P_range(2) [of v] by (auto simp: kfree_def Let_def not_le split: if_splits)

function freerange_loop :: "u32 \<Rightarrow> u32 \<Rightarrow> u32 \<Rightarrow> kmem \<Rightarrow> (unit, kmem) outcome" where
  "freerange_loop kend p vend s =
     (if p + PGSIZE \<le> vend then obind (kfree kend p s) (\<lambda>_ s. freerange_loop kend (p + PGSIZE) vend s)
      else Ret () s)"
  by auto
termination
proof (relation "measure (\<lambda>(kend, p, vend, s). 2 ^ 32 - unat p)")
  fix kend p vend s a s'
  assume "kfree kend p s = Ret a s'"
  then have "unat p < 0x8E000000" using kfree_below by (cases a) simp
  then have "unat (p + PGSIZE) = unat p + 4096" by (subst unat_plus_small) (simp_all add: PGSIZE_def)
  then show "((kend, p + PGSIZE, vend, s'), (kend, p, vend, s)) \<in> measure (\<lambda>(kend, p, vend, s). 2 ^ 32 - unat p)"
    using unat_u32 [of p] by simp
qed simp

declare freerange_loop.simps [simp del]

definition freerange :: "u32 \<Rightarrow> u32 \<Rightarrow> u32 \<Rightarrow> kmem \<Rightarrow> (unit, kmem) outcome" where
  "freerange kend vstart vend s = freerange_loop kend (PGROUNDUP vstart) vend s"

definition kinit1 :: "u32 \<Rightarrow> u32 \<Rightarrow> u32 \<Rightarrow> kmem \<Rightarrow> (unit, kmem) outcome" where
  "kinit1 kend vstart vend s = freerange kend vstart vend (s\<lparr>use_lock := False\<rparr>)"

definition kinit2 :: "u32 \<Rightarrow> u32 \<Rightarrow> u32 \<Rightarrow> kmem \<Rightarrow> (unit, kmem) outcome" where
  "kinit2 kend vstart vend s =
     obind (freerange kend vstart vend s) (\<lambda>_ s. Ret () (s\<lparr>use_lock := True\<rparr>))"

subsection \<open>The free list\<close>

definition kgood :: "u32 \<Rightarrow> u32 \<Rightarrow> bool" where
  "kgood kend v \<longleftrightarrow> v mod PGSIZE = 0 \<and> kend \<le> v \<and> V2P v < PHYSTOP"

fun flist :: "mem \<Rightarrow> u32 \<Rightarrow> u32 list \<Rightarrow> bool" where
  "flist m h [] \<longleftrightarrow> h = 0"
| "flist m h (p # ps) \<longleftrightarrow> h = p \<and> p \<noteq> 0 \<and> flist m (load32 m p) ps"

definition kpages :: "u32 \<Rightarrow> kmem \<Rightarrow> u32 list \<Rightarrow> bool" where
  "kpages kend s ps \<longleftrightarrow> flist (kmemory s) (freelist s) ps \<and> distinct ps \<and> (\<forall>p\<in>set ps. kgood kend p)"

lemma kgood_page: "kgood kend p \<Longrightarrow> page_aligned p \<and> p \<noteq> 0"
proof -
  assume g: "kgood kend p"
  then have "unat (p mod 4096) = 0" by (simp add: kgood_def PGSIZE_def)
  then have "page_aligned p" by (simp add: page_aligned_def unat_mod)
  moreover have "p \<noteq> 0" using g V2P_range(1) [of p] by (auto simp: kgood_def)
  ultimately show ?thesis by simp
qed

lemma aligned4: "page_aligned p \<Longrightarrow> unat p mod 4 = 0"
proof -
  assume "page_aligned p"
  then have "4096 dvd unat p" by (simp add: page_aligned_def dvd_eq_mod_eq_0)
  then have "4 dvd unat p" by (rule dvd_trans [rotated]) simp
  then show ?thesis by (simp add: dvd_eq_mod_eq_0)
qed

lemma flist_cong:
  assumes "\<And>p n. p \<in> set ps \<Longrightarrow> n \<in> page p \<Longrightarrow> m' n = m n" and "\<And>p. p \<in> set ps \<Longrightarrow> page_aligned p"
  shows "flist m' h ps = flist m h ps"
  using assms
proof (induction ps arbitrary: h)
  case (Cons p ps)
  have "load32 m' p = load32 m p"
    using Cons.prems(1) [of p] Cons.prems(2) [of p] aligned4
    by (intro load32_cong) (auto simp: page_def)
  moreover have "flist m' (load32 m p) ps = flist m (load32 m p) ps"
  proof (rule Cons.IH)
    show "m' n = m n" if "q \<in> set ps" "n \<in> page q" for q n using Cons.prems(1) [of q n] that by simp
    show "page_aligned q" if "q \<in> set ps" for q using Cons.prems(2) [of q] that by simp
  qed
  ultimately show ?case by simp
qed simp

lemma flist_unique: "flist m h ps \<Longrightarrow> flist m h qs \<Longrightarrow> ps = qs"
proof (induction ps arbitrary: h qs)
  case Nil
  then show ?case by (cases qs) auto
next
  case (Cons p ps)
  then show ?case by (cases qs) auto
qed

lemma kfree_ok:
  assumes "kpages kend s ps" and "kgood kend p" and "p \<notin> set ps"
  shows "\<exists>s'. kfree kend p s = Ret () s' \<and> kpages kend s' (p # ps) \<and>
    (\<forall>n. n \<notin> page p \<longrightarrow> kmemory s' n = kmemory s n) \<and> use_lock s' = use_lock s"
proof -
  let ?m = "store32 (memset (kmemory s) (unat p) 1 4096) (unat p) (freelist s)"
  note g = kgood_page [OF assms(2)]
  have run: "kfree kend p s = Ret () (s\<lparr>kmemory := ?m, freelist := p\<rparr>)"
    using assms(2) by (simp add: kfree_def kgood_def Let_def PGSIZE_def not_less not_le)
  have out: "?m n = kmemory s n" if "n \<notin> page p" for n
    using that by (auto simp: page_def store32_def memset_eq)
  have al: "page_aligned q" if "q \<in> set ps" for q using assms(1) that kgood_page by (auto simp: kpages_def)
  have "?m n = kmemory s n" if "q \<in> set ps" "n \<in> page q" for q n
    using page_disjoint [OF al [OF that(1)], of p] g that assms(3) by (intro out) blast
  then have "flist ?m (freelist s) ps = flist (kmemory s) (freelist s) ps" by (intro flist_cong al)
  moreover have "load32 ?m p = freelist s" using g by (intro load32_store32_same aligned4) simp
  ultimately have "kpages kend (s\<lparr>kmemory := ?m, freelist := p\<rparr>) (p # ps)"
    using assms g by (simp add: kpages_def)
  then show ?thesis using run out by simp
qed

interpretation ka: page_allocator kalloc "kfree kend" kmemory "\<lambda>m s. s\<lparr>kmemory := m\<rparr>" "kpages kend" "kgood kend" for kend
proof
  show "page_aligned p \<and> p \<noteq> 0" if "kgood kend p" for p using kgood_page that .
  show "distinct ps \<and> (\<forall>p\<in>set ps. kgood kend p)" if "kpages kend s ps" for s ps using that by (simp add: kpages_def)
  show "ps = qs" if "kpages kend s ps" "kpages kend s qs" for s ps qs
    using that flist_unique by (auto simp: kpages_def)
  show "kalloc s = (0, s)" if "kpages kend s []" for s using that by (simp add: kpages_def kalloc_def)
  show "\<exists>s'. kalloc s = (p, s') \<and> kpages kend s' ps \<and> kmemory s' = kmemory s" if "kpages kend s (p # ps)" for s p ps
    using that by (simp add: kpages_def kalloc_def)
  show "\<exists>s'. kfree kend p s = Ret () s' \<and> kpages kend s' (p # ps) \<and> (\<forall>n. n \<notin> page p \<longrightarrow> kmemory s' n = kmemory s n)"
    if "kpages kend s ps" "kgood kend p" "p \<notin> set ps" for s ps p
    using kfree_ok [OF that] by blast
  show "kfree kend p s = Panic ''kfree''" if "\<not> kgood kend p" for p s
    using that by (auto simp: kfree_def kgood_def not_le not_less)
  show "kpages kend (s\<lparr>kmemory := m\<rparr>) ps"
    if "kpages kend s ps" "\<And>p n. p \<in> set ps \<Longrightarrow> n \<in> page p \<Longrightarrow> m n = kmemory s n" for s ps m
  proof -
    have "page_aligned p" if "p \<in> set ps" for p using \<open>kpages kend s ps\<close> kgood_page that by (auto simp: kpages_def)
    then show ?thesis using that flist_cong [of ps m "kmemory s" "freelist s"] by (auto simp: kpages_def)
  qed
qed simp

subsection \<open>Putting the pages of a range on the list\<close>

lemma page_succ:
  assumes "unat p \<le> 0x8E000000"
  shows "unat (p + PGSIZE) = unat p + 4096"
  using assms by (subst unat_plus_small) (simp_all add: PGSIZE_def)

lemma kgood_iff:
  assumes "page_aligned p" and "0x80000000 \<le> unat kend" and "unat kend \<le> unat p" and "unat p < 0x8E000000"
  shows "kgood kend p"
proof -
  have "unat (p mod 4096) = 0" using assms(1) by (simp add: page_aligned_def unat_mod)
  then have "p mod PGSIZE = 0" by (simp add: PGSIZE_def unat_eq_0)
  moreover have "unat (V2P p) = unat p - 0x80000000"
    using assms(2,3) by (simp add: V2P_def KERNBASE_def unat_sub word_le_nat_alt)
  ultimately show ?thesis using assms by (simp add: kgood_def word_le_nat_alt word_less_nat_alt PHYSTOP_def)
qed

text \<open>The pages from \<open>p\<close> on, \<open>k\<close> of them, the last first: as the loop leaves them on the list.\<close>

fun rev_pages :: "u32 \<Rightarrow> nat \<Rightarrow> u32 list" where
  "rev_pages p 0 = []"
| "rev_pages p (Suc k) = rev_pages (p + PGSIZE) k @ [p]"

lemma rev_pages_bound:
  assumes "unat p + 4096 * k \<le> 0x8E000000" and "q \<in> set (rev_pages p k)"
  shows "unat p \<le> unat q \<and> unat q + 4096 \<le> unat p + 4096 * k"
  using assms
proof (induction k arbitrary: p)
  case (Suc k)
  have s: "unat (p + PGSIZE) = unat p + 4096" using Suc.prems(1) by (intro page_succ) simp
  show ?case
  proof (cases "q = p")
    case False
    then have "q \<in> set (rev_pages (p + PGSIZE) k)" using Suc.prems(2) by simp
    then show ?thesis using Suc.IH [of "p + PGSIZE"] Suc.prems(1) s by simp
  qed simp
qed simp

lemma freerange_loop_ok:
  assumes "0x80000000 \<le> unat kend" and "unat kend \<le> unat p" and "page_aligned p"
    and "unat p + 4096 * k \<le> unat vend" and "unat vend < unat p + 4096 * k + 4096" and "unat vend \<le> 0x8E000000"
    and "kpages kend s ps" and "\<And>q. q \<in> set ps \<Longrightarrow> unat q < unat p \<or> unat vend \<le> unat q"
  shows "\<exists>s'. freerange_loop kend p vend s = Ret () s' \<and> kpages kend s' (rev_pages p k @ ps) \<and> use_lock s' = use_lock s"
  using assms(2-8)
proof (induction k arbitrary: p s ps)
  case 0
  have "\<not> p + PGSIZE \<le> vend" using 0(2-5) page_succ [of p] 0(3) by (auto simp: word_le_nat_alt page_aligned_def)
  then show ?case using 0(6) by (subst freerange_loop.simps) simp
next
  case (Suc k)
  have lt: "unat p < 0x8E000000" using Suc.prems(3,5) by simp
  note sc = page_succ [OF less_imp_le [OF lt]]
  have le: "p + PGSIZE \<le> vend" using sc Suc.prems(3) by (simp add: word_le_nat_alt)
  have g: "kgood kend p" by (rule kgood_iff [OF Suc.prems(2) assms(1) Suc.prems(1) lt])
  have "p \<notin> set ps" using Suc.prems(3) Suc.prems(7) [of p] by auto
  then obtain s1 where 1: "kfree kend p s = Ret () s1" "kpages kend s1 (p # ps)" "use_lock s1 = use_lock s"
    using kfree_ok [OF Suc.prems(6) g] by blast
  have al: "page_aligned (p + PGSIZE)" using Suc.prems(2) sc by (simp add: page_aligned_def)
  have "\<exists>s'. freerange_loop kend (p + PGSIZE) vend s1 = Ret () s' \<and>
      kpages kend s' (rev_pages (p + PGSIZE) k @ p # ps) \<and> use_lock s' = use_lock s1"
  proof (rule Suc.IH)
    show "unat q < unat (p + PGSIZE) \<or> unat vend \<le> unat q" if "q \<in> set (p # ps)" for q
      using that Suc.prems(7) [of q] sc by auto
  qed (use Suc.prems al 1 sc in simp_all)
  then show ?case using le 1 by (subst freerange_loop.simps) auto
qed

lemma rev_pages_set:
  assumes "page_aligned p" and "unat p + 4096 * k \<le> 0x8E000000"
  shows "set (rev_pages p k) = {q. page_aligned q \<and> unat p \<le> unat q \<and> unat q + 4096 \<le> unat p + 4096 * k}"
  using assms
proof (induction k arbitrary: p)
  case (Suc k)
  have s: "unat (p + PGSIZE) = unat p + 4096" using Suc.prems(2) by (intro page_succ) simp
  have al: "page_aligned (p + PGSIZE)" using Suc.prems(1) s by (simp add: page_aligned_def)
  have "unat p + 4096 \<le> unat q" if "page_aligned q" "unat p \<le> unat q" "q \<noteq> p" for q
  proof -
    have "4096 dvd unat q - unat p" using that(1) Suc.prems(1) by (simp add: page_aligned_def mod_eq_dvd_iff_nat [symmetric] that(2))
    moreover have "0 < unat q - unat p" using that(2,3) by (simp add: word_unat_eq_iff)
    ultimately have "4096 \<le> unat q - unat p" by (rule dvd_imp_le)
    then show ?thesis using that(2) by arith
  qed
  then show ?case using Suc.IH [OF al] Suc.prems s by (auto simp: word_unat_eq_iff)
qed auto

lemma aligned_mult:
  assumes "page_aligned q"
  obtains i where "unat q = 4096 * i"
  using that [of "unat q div 4096"] assms mult_div_mod_eq [of 4096 "unat q"] by (simp add: page_aligned_def)

text \<open>The pages inside a range, whose ends need not be page boundaries.\<close>

lemma freerange_ok:
  assumes "0x80000000 \<le> unat kend" and "unat kend \<le> unat v" and "unat v \<le> unat vend" and "unat vend \<le> 0x8E000000"
    and "kpages kend s ps" and "\<And>q. q \<in> set ps \<Longrightarrow> unat q + 4096 \<le> unat v"
  shows "\<exists>s' qs. freerange kend v vend s = Ret () s' \<and> kpages kend s' (qs @ ps) \<and> use_lock s' = use_lock s \<and>
    set qs = {p. page_aligned p \<and> unat v \<le> unat p \<and> unat p + 4096 \<le> unat vend}"
proof -
  let ?p = "PGROUNDUP v"
  define j where "j = (unat v + 4095) div 4096"
  have p: "unat ?p = j * 4096" unfolding j_def using assms(3,4) by (intro unat_PGROUNDUP) simp
  have al: "page_aligned ?p" by (simp add: page_aligned_def p)
  have j: "unat v \<le> j * 4096" "j * 4096 < unat v + 4096"
    using div_mult_mod_eq [of "unat v + 4095" 4096] mod_less_divisor [of 4096 "unat v + 4095"] unfolding j_def by linarith+
  have ge: "unat v \<le> unat q \<longleftrightarrow> j * 4096 \<le> unat q" if "page_aligned q" for q
  proof -
    obtain i where "unat q = 4096 * i" by (rule aligned_mult [OF \<open>page_aligned q\<close>])
    then show ?thesis using j by auto
  qed
  show ?thesis
  proof (cases "unat ?p \<le> unat vend")
    case True
    define k where "k = (unat vend - unat ?p) div 4096"
    have k: "unat ?p + 4096 * k \<le> unat vend" "unat vend < unat ?p + 4096 * k + 4096"
      using True div_mult_mod_eq [of "unat vend - unat ?p" 4096] mod_less_divisor [of 4096 "unat vend - unat ?p"] unfolding k_def by linarith+
    have le: "unat q + 4096 \<le> unat vend \<longleftrightarrow> unat q + 4096 \<le> unat ?p + 4096 * k" if "page_aligned q" for q
    proof -
      obtain i where i: "unat q = 4096 * i" by (rule aligned_mult [OF \<open>page_aligned q\<close>])
      show ?thesis
      proof
        assume "unat q + 4096 \<le> unat vend"
        then have "4096 * (i + 1) < 4096 * (j + k + 1)" using k p i by simp
        then have "i + 1 \<le> j + k" unfolding mult_less_cancel1 by linarith
        then have "4096 * (i + 1) \<le> 4096 * (j + k)" by (rule mult_le_mono2)
        then show "unat q + 4096 \<le> unat ?p + 4096 * k" using p i by simp
      qed (use k in simp)
    qed
    have "\<exists>s'. freerange_loop kend ?p vend s = Ret () s' \<and> kpages kend s' (rev_pages ?p k @ ps) \<and> use_lock s' = use_lock s"
    proof (rule freerange_loop_ok [OF assms(1) _ al k assms(4,5)])
      show "unat kend \<le> unat ?p" using assms(2) j p by simp
      show "unat q < unat ?p \<or> unat vend \<le> unat q" if "q \<in> set ps" for q using assms(6) [OF that] j p by simp
    qed
    moreover have "set (rev_pages ?p k) = {p. page_aligned p \<and> unat v \<le> unat p \<and> unat p + 4096 \<le> unat vend}"
      using rev_pages_set [OF al, of k] k assms(4) ge le p by auto
    ultimately show ?thesis unfolding freerange_def by blast
  next
    case False
    have b: "unat ?p \<le> 0x8E000000" using j p assms(3,4) False by auto
    have "\<not> ?p + PGSIZE \<le> vend" using page_succ [OF b] False by (simp add: word_le_nat_alt)
    then have "freerange kend v vend s = Ret () s" unfolding freerange_def by (subst freerange_loop.simps) simp
    moreover have "{p. page_aligned p \<and> unat v \<le> unat p \<and> unat p + 4096 \<le> unat vend} = {}" using ge p False by force
    ultimately show ?thesis using assms(5) by (intro exI [of _ s] exI [of _ "[]"]) simp
  qed
qed

subsection \<open>Clients\<close>

text \<open>
  What the rest of the kernel does with pages: \<open>own\<close> are the pages allocated and not yet freed.
  It frees only those, and writes only into those.
\<close>

inductive kstep :: "u32 \<Rightarrow> kmem \<times> u32 set \<Rightarrow> kmem \<times> u32 set \<Rightarrow> bool" for kend where
  kalloc: "kalloc s = (p, s') \<Longrightarrow> kstep kend (s, own) (s', if p = 0 then own else insert p own)"
| kfree: "p \<in> own \<Longrightarrow> kfree kend p s = Ret () s' \<Longrightarrow> kstep kend (s, own) (s', own - {p})"
| kwrite: "p \<in> own \<Longrightarrow> (\<forall>n. n \<notin> page p \<longrightarrow> m n = kmemory s n) \<Longrightarrow> kstep kend (s, own) (s\<lparr>kmemory := m\<rparr>, own)"

definition kown_inv :: "u32 \<Rightarrow> u32 set \<Rightarrow> kmem \<times> u32 set \<Rightarrow> bool" where
  "kown_inv kend A = (\<lambda>(s, own). \<exists>ps. kpages kend s ps \<and> own \<inter> set ps = {} \<and> own \<union> set ps = A \<and> (\<forall>p\<in>A. kgood kend p))"

lemma kown_inv_step:
  assumes "kstep kend x y" and "kown_inv kend A x"
  shows "kown_inv kend A y"
  using assms
proof (induction rule: kstep.induct)
  case (kalloc s p s' own)
  then obtain ps where ps: "kpages kend s ps" "own \<inter> set ps = {}" "own \<union> set ps = A" "\<forall>p\<in>A. kgood kend p"
    by (auto simp: kown_inv_def)
  from ps(1) show ?case
    by (rule ka.alloc_cases) (use kalloc(1) ps in \<open>fastforce simp: kown_inv_def\<close>)+
next
  case (kfree p own s s')
  then obtain ps where ps: "kpages kend s ps" "own \<inter> set ps = {}" "own \<union> set ps = A" "\<forall>p\<in>A. kgood kend p"
    by (auto simp: kown_inv_def)
  have "p \<notin> set ps" "kgood kend p" using ps kfree(1) by auto
  then have "kpages kend s' (p # ps)" using ka.free_push [OF ps(1), of p] kfree(2) by auto
  then show ?case using ps kfree(1) by (auto simp: kown_inv_def intro!: exI [of _ "p # ps"])
next
  case (kwrite p own m s)
  then obtain ps where ps: "kpages kend s ps" "own \<inter> set ps = {}" "own \<union> set ps = A" "\<forall>p\<in>A. kgood kend p"
    by (auto simp: kown_inv_def)
  have "kpages kend (s\<lparr>kmemory := m\<rparr>) ps"
    using ps kwrite(1,2) by (intro ka.frame_page [OF ps(1), of p]) auto
  then show ?case using ps by (auto simp: kown_inv_def)
qed

lemma kown_inv_reach: "(kstep kend)\<^sup>*\<^sup>* x y \<Longrightarrow> kown_inv kend A x \<Longrightarrow> kown_inv kend A y"
  by (induction rule: rtranclp_induct) (auto intro: kown_inv_step)

subsection \<open>Properties\<close>

text \<open>
  C6: however the kernel allocates, frees and writes its pages, a page is never both free and
  in use, no page is lost, \<open>kfree\<close> of a page in use does not panic and \<open>kalloc\<close>
  returns a page that is not in use, or 0 exactly when all pages are in use.
\<close>

theorem kalloc_disjoint:
  assumes "kpages kend s0 ps0" and "(kstep kend)\<^sup>*\<^sup>* (s0, {}) (s, own)"
  shows "\<exists>ps. kpages kend s ps \<and> own \<inter> set ps = {} \<and> own \<union> set ps = set ps0 \<and>
    (\<forall>p. p \<in> own \<longrightarrow> returns (kfree kend p s)) \<and> fst (kalloc s) \<notin> own \<and> (fst (kalloc s) = 0 \<longleftrightarrow> own = set ps0)"
proof -
  have "kown_inv kend (set ps0) (s0, {})" using assms(1) by (auto simp: kown_inv_def dest: ka.pages_good)
  from kown_inv_reach [OF assms(2) this] obtain ps where
    ps: "kpages kend s ps" "own \<inter> set ps = {}" "own \<union> set ps = set ps0" "\<forall>p\<in>set ps0. kgood kend p"
    by (auto simp: kown_inv_def)
  have f: "returns (kfree kend p s)" if "p \<in> own" for p
    using ka.free_push [OF ps(1), of p] ps that by (force simp: returns_iff)
  have z: "0 \<notin> own" using ps ka.good_page [of kend 0] by blast
  from ps(1) show ?thesis
  proof (rule ka.alloc_cases)
    assume "ps = []" "kalloc s = (0, s)"
    then show ?thesis using ps f z by (intro exI [of _ ps]) auto
  next
    fix p qs s'
    assume "ps = p # qs" "kalloc s = (p, s')" "p \<noteq> 0"
    then show ?thesis using ps f by (intro exI [of _ ps]) auto
  qed
qed

text \<open>
  C32: \<open>kinit1\<close> on an empty list, and then \<open>kinit2\<close> on the rest of memory, put the pages that lie wholly inside
  their ranges on the free list, each once and no others, also when the ends of the ranges are not page boundaries (as
  \<open>end\<close> is not); \<open>kinit2\<close> turns the lock on. The ranges are above \<open>end\<close> and within physical memory.
\<close>

theorem kinit_frees_memory:
  assumes "KERNBASE \<le> kend" and "kend \<le> v1" and "v1 \<le> v2" and "v2 \<le> v3" and "v3 \<le> P2V PHYSTOP" and "freelist s = 0"
  shows "\<exists>s1 s2 ps1 ps2. kinit1 kend v1 v2 s = Ret () s1 \<and> \<not> use_lock s1 \<and> kpages kend s1 ps1 \<and>
    set ps1 = {p. page_aligned p \<and> unat v1 \<le> unat p \<and> unat p + 4096 \<le> unat v2} \<and>
    kinit2 kend v2 v3 s1 = Ret () s2 \<and> use_lock s2 \<and> kpages kend s2 ps2 \<and>
    set ps2 = set ps1 \<union> {p. page_aligned p \<and> unat v2 \<le> unat p \<and> unat p + 4096 \<le> unat v3}"
proof -
  have u: "0x80000000 \<le> unat kend" "unat kend \<le> unat v1" "unat v1 \<le> unat v2" "unat v2 \<le> unat v3" "unat v3 \<le> 0x8E000000"
    using assms(1-5) by (simp_all add: word_le_nat_alt KERNBASE_def P2V_def PHYSTOP_def)
  let ?s = "s\<lparr>use_lock := False\<rparr>"
  have "kpages kend ?s []" using assms(6) by (simp add: kpages_def)
  then obtain s1 ps1 where 1: "freerange kend v1 v2 ?s = Ret () s1" "kpages kend s1 ps1" "\<not> use_lock s1"
    "set ps1 = {p. page_aligned p \<and> unat v1 \<le> unat p \<and> unat p + 4096 \<le> unat v2}"
    using freerange_ok [OF u(1,2,3), of ?s "[]"] u(4,5) by auto
  obtain s2 qs where 2: "freerange kend v2 v3 s1 = Ret () s2" "kpages kend s2 (qs @ ps1)"
    "set qs = {p. page_aligned p \<and> unat v2 \<le> unat p \<and> unat p + 4096 \<le> unat v3}"
    using freerange_ok [OF u(1) _ u(4,5) 1(2)] u(2,3) 1(4) by auto
  have "kpages kend (s2\<lparr>use_lock := True\<rparr>) (qs @ ps1)" using 2(2) by (simp add: kpages_def)
  moreover have "set (qs @ ps1) = set ps1 \<union> {p. page_aligned p \<and> unat v2 \<le> unat p \<and> unat p + 4096 \<le> unat v3}"
    using 2(3) by auto
  moreover have "kinit1 kend v1 v2 s = Ret () s1" using 1(1) by (simp add: kinit1_def)
  moreover have "kinit2 kend v2 v3 s1 = Ret () (s2\<lparr>use_lock := True\<rparr>)" using 2(1) by (simp add: kinit2_def)
  ultimately show ?thesis using 1(2-4) by (intro exI [of _ s1] exI [of _ "s2\<lparr>use_lock := True\<rparr>"] exI [of _ ps1] exI [of _ "qs @ ps1"]) simp
qed

lemma two_pages: "page_aligned 0x80200000" "page_aligned 0x80201000" "page_aligned 0x80202000"
  by (simp_all add: page_aligned_def)

definition kmem_boot :: kmem where
  "kmem_boot = \<lparr>use_lock = False, freelist = 0, kmemory = (\<lambda>_. 0)\<rparr>"

text \<open>The calls of \<open>main\<close>, with an \<open>end\<close> that is no page boundary.\<close>

theorem kinit_frees_memory_witness:
  "\<exists>s1 s2 ps. kinit1 0x801154A8 0x801154A8 0x80400000 kmem_boot = Ret () s1 \<and>
    kinit2 0x801154A8 0x80400000 0x8E000000 s1 = Ret () s2 \<and> kpages 0x801154A8 s2 ps \<and>
    0x80115000 \<notin> set ps \<and> 0x80116000 \<in> set ps \<and> 0x8DFFF000 \<in> set ps \<and> 0x8E000000 \<notin> set ps"
proof -
  have "KERNBASE \<le> 0x801154A8" "(0x801154A8 :: u32) \<le> 0x801154A8" "(0x801154A8 :: u32) \<le> 0x80400000"
    "(0x80400000 :: u32) \<le> 0x8E000000" "0x8E000000 \<le> P2V PHYSTOP" "freelist kmem_boot = 0"
    by (simp_all add: KERNBASE_def P2V_def PHYSTOP_def kmem_boot_def)
  from kinit_frees_memory [OF this] show ?thesis by (force simp: page_aligned_def)
qed

theorem kalloc_disjoint_witness:
  "\<exists>s0 s. kpages 0x80150000 s0 [0x80200000] \<and> (kstep 0x80150000)\<^sup>*\<^sup>* (s0, {}) (s, {0x80200000}) \<and>
    fst (kalloc s) = 0 \<and> returns (kfree 0x80150000 0x80200000 s)"
proof -
  have g: "kgood 0x80150000 0x80200000" using two_pages(1) by (intro kgood_iff) simp_all
  have "kpages 0x80150000 kmem_boot []" by (simp add: kpages_def kmem_boot_def)
  then obtain s0 where s0: "kpages 0x80150000 s0 [0x80200000]" using kfree_ok [OF _ g, of kmem_boot "[]"] by auto
  then obtain s where s: "kalloc s0 = (0x80200000, s)" using ka.alloc_top by blast
  have st: "(kstep 0x80150000)\<^sup>*\<^sup>* (s0, {}) (s, {0x80200000})"
    using kstep.kalloc [OF s, of "0x80150000" "{}"] by auto
  show ?thesis using kalloc_disjoint [OF s0 st] s0 st by (intro exI [of _ s0] exI [of _ s]) auto
qed

end
