(* ===== verification/Vm.thy ===== *)
theory Vm
  imports Kalloc
begin

text \<open>
  Page tables and user address spaces (\<open>src/xv6/vm.c\<close>). A page directory and its page tables are
  pages of kernel memory that hold 32-bit entries; the routines follow and change them there, and
  take their pages from the allocator. \<open>kdata\<close> is the address \<open>data\<close> the linker gives. The
  segment registers and the loading of \<open>%cr3\<close> are not part of the state. Loops over user addresses
  count them as naturals: the bound of each is at most \<open>KERNBASE\<close>, so the \<open>uint\<close> of the code
  does not wrap.
\<close>

definition PTE_P :: u32 where "PTE_P = 1"
definition PTE_W :: u32 where "PTE_W = 2"
definition PTE_U :: u32 where "PTE_U = 4"
definition NPDENTRIES :: nat where "NPDENTRIES = 1024"

definition PDX :: "u32 \<Rightarrow> u32" where "PDX va = drop_bit 22 va AND 0x3FF"
definition PTX :: "u32 \<Rightarrow> u32" where "PTX va = drop_bit 12 va AND 0x3FF"
definition PGADDR :: "u32 \<Rightarrow> u32 \<Rightarrow> u32 \<Rightarrow> u32" where "PGADDR d t off = push_bit 22 d OR push_bit 12 t OR off"
definition PTE_ADDR :: "u32 \<Rightarrow> u32" where "PTE_ADDR pte = pte AND NOT 0xFFF"
definition PTE_FLAGS :: "u32 \<Rightarrow> u32" where "PTE_FLAGS pte = pte AND 0xFFF"

definition kload :: "u32 \<Rightarrow> kmem \<Rightarrow> u32" where
  "kload a s = load32 (kmemory s) a"

definition kstore :: "u32 \<Rightarrow> u32 \<Rightarrow> kmem \<Rightarrow> kmem" where
  "kstore a w s = s\<lparr>kmemory := store32 (kmemory s) (unat a) w\<rparr>"

definition kmemset :: "u32 \<Rightarrow> u32 \<Rightarrow> nat \<Rightarrow> kmem \<Rightarrow> kmem" where
  "kmemset a c n s = s\<lparr>kmemory := memset (kmemory s) (unat a) c n\<rparr>"

definition walkpgdir :: "u32 \<Rightarrow> u32 \<Rightarrow> bool \<Rightarrow> kmem \<Rightarrow> u32 \<times> kmem" where
  "walkpgdir pgdir va alloc s =
     (let pde = pgdir + 4 * PDX va in
      if kload pde s AND PTE_P \<noteq> 0 then (P2V (PTE_ADDR (kload pde s)) + 4 * PTX va, s)
      else if \<not> alloc then (0, s)
      else
        case kalloc s of (pgtab, s) \<Rightarrow>
          if pgtab = 0 then (0, s)
          else
            let s = kmemset pgtab 0 (unat PGSIZE) s
            in (pgtab + 4 * PTX va, kstore pde (V2P pgtab OR PTE_P OR PTE_W OR PTE_U) s))"

text \<open>\<open>n\<close> is the number of pages after the one at \<open>a\<close>, so \<open>n = 0\<close> is \<open>a == last\<close>.\<close>

fun mappages_loop :: "u32 \<Rightarrow> u32 \<Rightarrow> nat \<Rightarrow> u32 \<Rightarrow> u32 \<Rightarrow> kmem \<Rightarrow> (int, kmem) outcome" where
  "mappages_loop pgdir a n pa perm s =
     (case walkpgdir pgdir a True s of (pte, s) \<Rightarrow>
        if pte = 0 then Ret (-1) s
        else if kload pte s AND PTE_P \<noteq> 0 then Panic ''remap''
        else
          let s = kstore pte (pa OR perm OR PTE_P) s
          in case n of 0 \<Rightarrow> Ret 0 s | Suc n \<Rightarrow> mappages_loop pgdir (a + PGSIZE) n (pa + PGSIZE) perm s)"

declare mappages_loop.simps [simp del]

definition mappages :: "u32 \<Rightarrow> u32 \<Rightarrow> u32 \<Rightarrow> u32 \<Rightarrow> u32 \<Rightarrow> kmem \<Rightarrow> (int, kmem) outcome" where
  "mappages pgdir va sz pa perm s =
     (let a = PGROUNDDOWN va; last = PGROUNDDOWN (va + sz - 1)
      in mappages_loop pgdir a (unat (last - a) div 4096) pa perm s)"

subsection \<open>Releasing user memory\<close>

lemma unat_PDX: "unat (PDX va) = unat va div 4194304" and unat_PTX: "unat (PTX va) = unat va div 4096 mod 1024"
proof -
  have m: "x AND 0x3FF = take_bit 10 x" for x :: u32 by (simp add: take_bit_eq_mask mask_eq_exp_minus_1)
  have "unat (PDX va) = unat va div 4194304 mod 1024"
    by (simp add: PDX_def m take_bit_eq_mod drop_bit_eq_div unat_mod unat_div)
  then show "unat (PDX va) = unat va div 4194304" using unat_u32 [of va] by simp
  show "unat (PTX va) = unat va div 4096 mod 1024"
    by (simp add: PTX_def m take_bit_eq_mod drop_bit_eq_div unat_mod unat_div)
qed

lemma PGADDR_next:
  assumes "a < 2 ^ 32"
  shows "a < unat (PGADDR (PDX (of_nat a) + 1) 0 0 - PGSIZE) + 4096"
proof -
  let ?k = "a div 4194304 + 1"
  have k: "?k \<le> 1024" "a < ?k * 4194304" using assms by auto
  have "PDX (of_nat a) = of_nat (a div 4194304)"
    using assms k by (simp add: word_unat_eq_iff unat_PDX unat_of_nat take_bit_eq_mod)
  then have "PGADDR (PDX (of_nat a) + 1) 0 0 = of_nat (?k * 4194304)"
    by (simp add: PGADDR_def push_bit_eq_mult)
  then have "PGADDR (PDX (of_nat a) + 1) 0 0 - PGSIZE = of_nat (?k * 4194304 - 4096)"
    by (subst of_nat_diff) (simp_all add: PGSIZE_def)
  moreover have "?k * 4194304 - 4096 < 4294967296" using mult_le_mono1 [OF k(1), of 4194304] by simp
  ultimately have "unat (PGADDR (PDX (of_nat a) + 1) 0 0 - PGSIZE) = ?k * 4194304 - 4096"
    by (simp only: unat_of_nat) (simp add: take_bit_eq_mod)
  then show ?thesis using k by linarith
qed

function deallocuvm_loop :: "u32 \<Rightarrow> u32 \<Rightarrow> nat \<Rightarrow> u32 \<Rightarrow> kmem \<Rightarrow> (unit, kmem) outcome" where
  "deallocuvm_loop kend pgdir a oldsz s =
     (if a < unat oldsz then
        (case walkpgdir pgdir (of_nat a) False s of (pte, s) \<Rightarrow>
          if pte = 0 then
            deallocuvm_loop kend pgdir (unat (PGADDR (PDX (of_nat a) + 1) 0 0 - PGSIZE) + 4096) oldsz s
          else if kload pte s AND PTE_P \<noteq> 0 then
            (let pa = PTE_ADDR (kload pte s)
             in if pa = 0 then Panic ''kfree''
                else obind (kfree kend (P2V pa) s) (\<lambda>_ s.
                  deallocuvm_loop kend pgdir (a + 4096) oldsz (kstore pte 0 s)))
          else deallocuvm_loop kend pgdir (a + 4096) oldsz s)
      else Ret () s)"
  by auto
termination
proof (relation "measure (\<lambda>(kend, pgdir, a, oldsz, s). unat oldsz - a)")
  fix kend pgdir :: u32 and a and oldsz :: u32 and s x pte s'
  assume a: "a < unat oldsz"
  then have "a < 2 ^ 32" using unat_u32 [of oldsz] by simp
  then show "((kend, pgdir, unat (PGADDR (PDX (of_nat a) + 1) 0 0 - PGSIZE) + 4096, oldsz, s'), kend, pgdir, a, oldsz, s)
     \<in> measure (\<lambda>(kend, pgdir, a, oldsz, s). unat oldsz - a)"
    using PGADDR_next a by fastforce
qed auto

declare deallocuvm_loop.simps [simp del]

definition deallocuvm :: "u32 \<Rightarrow> u32 \<Rightarrow> u32 \<Rightarrow> u32 \<Rightarrow> kmem \<Rightarrow> (u32, kmem) outcome" where
  "deallocuvm kend pgdir oldsz newsz s =
     (if oldsz \<le> newsz then Ret oldsz s
      else obind (deallocuvm_loop kend pgdir (unat (PGROUNDUP newsz)) oldsz s) (\<lambda>_ s. Ret newsz s))"

definition freevm :: "u32 \<Rightarrow> u32 \<Rightarrow> kmem \<Rightarrow> (unit, kmem) outcome" where
  "freevm kend pgdir s =
     (if pgdir = 0 then Panic ''freevm: no pgdir''
      else
        obind (deallocuvm kend pgdir KERNBASE 0 s) (\<lambda>_ s.
        obind (ofor [0..<NPDENTRIES] (\<lambda>i s.
          let pde = kload (pgdir + 4 * of_nat i) s
          in if pde AND PTE_P \<noteq> 0 then kfree kend (P2V (PTE_ADDR pde)) s else Ret () s) s) (\<lambda>_ s.
        kfree kend pgdir s)))"

subsection \<open>Setting up an address space\<close>

record kmap =
  k_virt :: u32
  k_phys_start :: u32
  k_phys_end :: u32
  k_perm :: u32

definition kmap_table :: "u32 \<Rightarrow> kmap list" where
  "kmap_table kdata =
     [\<lparr>k_virt = KERNBASE, k_phys_start = 0, k_phys_end = EXTMEM, k_perm = PTE_W\<rparr>,
      \<lparr>k_virt = KERNLINK, k_phys_start = V2P KERNLINK, k_phys_end = V2P kdata, k_perm = 0\<rparr>,
      \<lparr>k_virt = kdata, k_phys_start = V2P kdata, k_phys_end = PHYSTOP, k_perm = PTE_W\<rparr>,
      \<lparr>k_virt = DEVSPACE, k_phys_start = DEVSPACE, k_phys_end = 0, k_perm = PTE_W\<rparr>]"

fun setupkvm_loop :: "u32 \<Rightarrow> u32 \<Rightarrow> kmap list \<Rightarrow> kmem \<Rightarrow> (u32, kmem) outcome" where
  "setupkvm_loop kend pgdir [] s = Ret pgdir s"
| "setupkvm_loop kend pgdir (k # ks) s =
     obind (mappages pgdir (k_virt k) (k_phys_end k - k_phys_start k) (k_phys_start k) (k_perm k) s) (\<lambda>r s.
       if r < 0 then obind (freevm kend pgdir s) (\<lambda>_ s. Ret 0 s)
       else setupkvm_loop kend pgdir ks s)"

definition setupkvm :: "u32 \<Rightarrow> u32 \<Rightarrow> kmem \<Rightarrow> (u32, kmem) outcome" where
  "setupkvm kend kdata s =
     (case kalloc s of (pgdir, s) \<Rightarrow>
        if pgdir = 0 then Ret 0 s
        else
          let s = kmemset pgdir 0 (unat PGSIZE) s
          in if DEVSPACE < P2V PHYSTOP then Panic ''PHYSTOP too high''
             else setupkvm_loop kend pgdir (kmap_table kdata) s)"

text \<open>The bytes \<open>init\<close> are copied to the start of the first page.\<close>

definition kmemput :: "u32 \<Rightarrow> byte list \<Rightarrow> kmem \<Rightarrow> kmem" where
  "kmemput a bs s = s\<lparr>kmemory := (\<lambda>n. if unat a \<le> n \<and> n < unat a + length bs then bs ! (n - unat a) else kmemory s n)\<rparr>"

definition inituvm :: "u32 \<Rightarrow> byte list \<Rightarrow> kmem \<Rightarrow> (unit, kmem) outcome" where
  "inituvm pgdir init s =
     (if unat PGSIZE \<le> length init then Panic ''inituvm: more than a page''
      else
        case kalloc s of (mem, s) \<Rightarrow>
          let s = kmemset mem 0 (unat PGSIZE) s
          in obind (mappages pgdir 0 PGSIZE (V2P mem) (PTE_W OR PTE_U) s) (\<lambda>_ s. Ret () (kmemput mem init s)))"

function allocuvm_loop :: "u32 \<Rightarrow> u32 \<Rightarrow> u32 \<Rightarrow> nat \<Rightarrow> u32 \<Rightarrow> kmem \<Rightarrow> (u32, kmem) outcome" where
  "allocuvm_loop kend pgdir oldsz a newsz s =
     (if a < unat newsz then
        (case kalloc s of (mem, s) \<Rightarrow>
          if mem = 0 then obind (deallocuvm kend pgdir newsz oldsz s) (\<lambda>_ s. Ret 0 s)
          else
            obind (mappages pgdir (of_nat a) PGSIZE (V2P mem) (PTE_W OR PTE_U) (kmemset mem 0 (unat PGSIZE) s)) (\<lambda>r s.
              if r < 0 then
                obind (deallocuvm kend pgdir newsz oldsz s) (\<lambda>_ s.
                obind (kfree kend mem s) (\<lambda>_ s. Ret 0 s))
              else allocuvm_loop kend pgdir oldsz (a + 4096) newsz s))
      else Ret newsz s)"
  by auto
termination
  by (relation "measure (\<lambda>(kend, pgdir, oldsz, a, newsz, s). unat newsz - a)") auto

declare allocuvm_loop.simps [simp del]

definition allocuvm :: "u32 \<Rightarrow> u32 \<Rightarrow> u32 \<Rightarrow> u32 \<Rightarrow> kmem \<Rightarrow> (u32, kmem) outcome" where
  "allocuvm kend pgdir oldsz newsz s =
     (if KERNBASE \<le> newsz then Ret 0 s
      else if newsz < oldsz then Ret oldsz s
      else allocuvm_loop kend pgdir oldsz (unat (PGROUNDUP oldsz)) newsz s)"

definition clearpteu :: "u32 \<Rightarrow> u32 \<Rightarrow> kmem \<Rightarrow> (unit, kmem) outcome" where
  "clearpteu pgdir uva s =
     (case walkpgdir pgdir uva False s of (pte, s) \<Rightarrow>
        if pte = 0 then Panic ''clearpteu'' else Ret () (kstore pte (kload pte s AND NOT PTE_U) s))"

function copyuvm_loop :: "u32 \<Rightarrow> u32 \<Rightarrow> u32 \<Rightarrow> nat \<Rightarrow> u32 \<Rightarrow> kmem \<Rightarrow> (u32, kmem) outcome" where
  "copyuvm_loop kend pgdir d i sz s =
     (if i < unat sz then
        (case walkpgdir pgdir (of_nat i) False s of (pte, s) \<Rightarrow>
          if pte = 0 then Panic ''copyuvm: pte should exist''
          else if kload pte s AND PTE_P = 0 then Panic ''copyuvm: page not present''
          else
            let pa = PTE_ADDR (kload pte s); flags = PTE_FLAGS (kload pte s) in
            case kalloc s of (mem, s) \<Rightarrow>
              if mem = 0 then obind (freevm kend d s) (\<lambda>_ s. Ret 0 s)
              else
                let s = s\<lparr>kmemory := memmove (kmemory s) (unat mem) (unat (P2V pa)) (unat PGSIZE)\<rparr>
                in obind (mappages d (of_nat i) PGSIZE (V2P mem) flags s) (\<lambda>r s.
                     if r < 0 then
                       obind (kfree kend mem s) (\<lambda>_ s. obind (freevm kend d s) (\<lambda>_ s. Ret 0 s))
                     else copyuvm_loop kend pgdir d (i + 4096) sz s))
      else Ret d s)"
  by auto
termination
  by (relation "measure (\<lambda>(kend, pgdir, d, i, sz, s). unat sz - i)") auto

declare copyuvm_loop.simps [simp del]

definition copyuvm :: "u32 \<Rightarrow> u32 \<Rightarrow> u32 \<Rightarrow> u32 \<Rightarrow> kmem \<Rightarrow> (u32, kmem) outcome" where
  "copyuvm kend kdata pgdir sz s =
     obind (setupkvm kend kdata s) (\<lambda>d s. if d = 0 then Ret 0 s else copyuvm_loop kend pgdir d 0 sz s)"

text \<open>
  \<open>uva2ka\<close> does not check the pointer \<open>walkpgdir\<close> gives it: without a page table it reads the
  word at virtual address 0, which the page table \<open>cur\<close> of the processor translates. Without a page there
  the kernel takes a page fault, and \<open>trap\<close> panics.
\<close>

definition null_word :: "u32 \<Rightarrow> kmem \<Rightarrow> u32 option" where
  "null_word cur s =
     (let pte = fst (walkpgdir cur 0 False s)
      in if pte = 0 \<or> kload pte s AND PTE_P = 0 then None else Some (kload (P2V (PTE_ADDR (kload pte s))) s))"

definition uva2ka :: "u32 \<Rightarrow> u32 \<Rightarrow> u32 \<Rightarrow> kmem \<Rightarrow> (u32, kmem) outcome" where
  "uva2ka cur pgdir uva s =
     (case walkpgdir pgdir uva False s of (pte, s) \<Rightarrow>
      case (if pte = 0 then null_word cur s else Some (kload pte s)) of
        None \<Rightarrow> Panic ''trap''
      | Some e \<Rightarrow> Ret (if e AND PTE_P = 0 then 0 else if e AND PTE_U = 0 then 0 else P2V (PTE_ADDR e)) s)"

function copyout :: "u32 \<Rightarrow> u32 \<Rightarrow> u32 \<Rightarrow> byte list \<Rightarrow> kmem \<Rightarrow> (int, kmem) outcome" where
  "copyout cur pgdir va p s =
     (if p = [] then Ret 0 s
      else
        let va0 = PGROUNDDOWN va in
        obind (uva2ka cur pgdir va0 s) (\<lambda>pa0 s.
          if pa0 = 0 then Ret (-1) s
          else
            let n = min (length p) (unat (PGSIZE - (va - va0)))
            in copyout cur pgdir (va0 + PGSIZE) (drop n p) (kmemput (pa0 + (va - va0)) (take n p) s)))"
  by auto
termination
proof (relation "measure (\<lambda>(cur, pgdir, va, p, s). length p)")
  fix va :: u32
  have "0 < unat (PGSIZE - (va - PGROUNDDOWN va))"
    using unat_page_off [of va] by (simp add: PGSIZE_def unat_sub word_le_nat_alt)
  then show "p \<noteq> [] \<Longrightarrow> x = PGROUNDDOWN va \<Longrightarrow> uva2ka cur pgdir x s = Ret xa s' \<Longrightarrow> xa \<noteq> 0 \<Longrightarrow>
    xb = min (length p) (unat (PGSIZE - (va - x))) \<Longrightarrow>
    ((cur, pgdir, x + PGSIZE, drop xb p, kmemput (xa + (va - x)) (take xb p) s'), cur, pgdir, va, p, s)
      \<in> measure (\<lambda>(cur, pgdir, va, p, s). length p)" for p x xa xb cur pgdir s s'
    by auto
qed simp

declare copyout.simps [simp del]

subsection \<open>Page table entries\<close>

lemma PTE_or:
  assumes "page_aligned p" and "unat f < 4096"
  shows "PTE_ADDR (p OR f) = p" and "PTE_FLAGS (p OR f) = f"
proof -
  have m: "(0xFFF :: u32) = mask 12" by (simp add: mask_eq_exp_minus_1)
  have p: "\<not> bit p n" if "n < 12" for n using assms(1) that by (simp add: aligned_bits)
  have f: "n < 12" if "bit f n" for n using small_bits [OF assms(2) that] .
  show "PTE_ADDR (p OR f) = p"
    unfolding PTE_ADDR_def m by (rule bit_word_eqI) (use p f in \<open>auto simp: bit_simps\<close>)
  show "PTE_FLAGS (p OR f) = f"
    unfolding PTE_FLAGS_def m by (rule bit_word_eqI) (use p f in \<open>auto simp: bit_simps\<close>)
qed

lemma PTE_P_bit: "w AND PTE_P = 0 \<longleftrightarrow> \<not> bit w 0"
  by (simp add: PTE_P_def and_one_eq bit_0 even_iff_mod_2_eq_zero)

lemma PTE_U_bit: "w AND PTE_U = 0 \<longleftrightarrow> \<not> bit w 2"
proof -
  have "PTE_U = 2 ^ 2" by (simp add: PTE_U_def)
  then show ?thesis by (metis and_exp_eq_0_iff_not_bit)
qed

lemma entry_addr:
  assumes "page_aligned p" and "unat i < 1024"
  shows "unat (p + 4 * i) = unat p + 4 * unat i" and "unat (p + 4 * i) mod 4 = 0"
    and "{unat (p + 4 * i)..<unat (p + 4 * i) + 4} \<subseteq> page p"
proof -
  have i: "unat (4 * i) = 4 * unat i" using assms(2) by (simp add: unat_word_ariths)
  show u: "unat (p + 4 * i) = unat p + 4 * unat i"
    using page_aligned_room [OF assms(1)] i assms(2) by (subst unat_plus_small) simp_all
  have "4 dvd unat p" using aligned4 [OF assms(1)] by (simp add: dvd_eq_mod_eq_0)
  then show "unat (p + 4 * i) mod 4 = 0" unfolding u by (simp add: dvd_eq_mod_eq_0 mod_add_left_eq [symmetric])
  show "{unat (p + 4 * i)..<unat (p + 4 * i) + 4} \<subseteq> page p" unfolding u page_def using assms(2) by auto
qed

lemma entry_inj:
  assumes "page_aligned p" and "page_aligned q" and "unat i < 1024" and "unat j < 1024" and "p + 4 * i = q + 4 * j"
  shows "p = q" and "i = j"
proof -
  have "unat p + 4 * unat i \<in> page p" "unat p + 4 * unat i = unat q + 4 * unat j" "unat q + 4 * unat j \<in> page q"
    using entry_addr(1) [OF assms(1,3)] entry_addr(1) [OF assms(2,4)] assms by (auto simp: page_def)
  then show "p = q" using page_disjoint [OF assms(1,2)] by auto
  then show "i = j" using \<open>unat p + 4 * unat i = unat q + 4 * unat j\<close> by (simp add: word_unat_eq_iff)
qed

lemma PDX_bound [simp]: "unat (PDX va) < 1024" using unat_u32 [of va] by (simp add: unat_PDX)
lemma PTX_bound [simp]: "unat (PTX va) < 1024" by (simp add: unat_PTX)

lemma same_page: "PDX va = PDX va' \<and> PTX va = PTX va' \<longleftrightarrow> PGROUNDDOWN va = PGROUNDDOWN va'"
proof -
  have d: "x div 4194304 = x div 4096 div 1024" for x :: nat by (simp add: div_mult2_eq [symmetric])
  have "unat va div 4096 div 1024 = unat va' div 4096 div 1024 \<and>
      unat va div 4096 mod 1024 = unat va' div 4096 mod 1024 \<longleftrightarrow> unat va div 4096 = unat va' div 4096"
    by (metis div_mod_decomp)
  then show ?thesis by (simp add: word_unat_eq_iff unat_PDX unat_PTX unat_PGROUNDDOWN d)
qed

end
