(* ===== verification/Vm_Map.thy ===== *)
theory Vm_Map
  imports Vm
begin

text \<open>
  What the page tables mean. \<open>vmap\<close> is the function from virtual addresses to page table entries
  that a directory stands for; \<open>vm_ok\<close> says that the directory and its tables are pages of their
  own, none of them free. The lemmas lift \<open>walkpgdir\<close>, \<open>mappages\<close>, \<open>allocuvm\<close> and \<open>copyout\<close> from
  stores into page tables to updates of that function.
\<close>

definition pde_p :: "u32 \<Rightarrow> u32 \<Rightarrow> kmem \<Rightarrow> bool" where
  "pde_p pgdir i s \<longleftrightarrow> kload (pgdir + 4 * i) s AND PTE_P \<noteq> 0"

definition pgtab :: "u32 \<Rightarrow> u32 \<Rightarrow> kmem \<Rightarrow> u32" where
  "pgtab pgdir i s = P2V (PTE_ADDR (kload (pgdir + 4 * i) s))"

definition vmap :: "u32 \<Rightarrow> kmem \<Rightarrow> u32 \<Rightarrow> u32" where
  "vmap pgdir s va = (if pde_p pgdir (PDX va) s then kload (pgtab pgdir (PDX va) s + 4 * PTX va) s else 0)"

text \<open>The pages of a page table: the directory and the tables it names.\<close>

definition vm_pages :: "u32 \<Rightarrow> kmem \<Rightarrow> u32 set" where
  "vm_pages pgdir s = insert pgdir ((\<lambda>i. pgtab pgdir i s) ` {i. unat i < 1024 \<and> pde_p pgdir i s})"

definition vm_ok :: "u32 \<Rightarrow> u32 \<Rightarrow> kmem \<Rightarrow> u32 list \<Rightarrow> bool" where
  "vm_ok kend pgdir s ps \<longleftrightarrow> kpages kend s ps \<and>
     (\<forall>p\<in>vm_pages pgdir s. kgood kend p \<and> p \<notin> set ps) \<and>
     (\<forall>i. unat i < 1024 \<and> pde_p pgdir i s \<longrightarrow> pgtab pgdir i s \<noteq> pgdir) \<and>
     (\<forall>i j. unat i < 1024 \<and> unat j < 1024 \<and> pde_p pgdir i s \<and> pde_p pgdir j s \<and>
        pgtab pgdir i s = pgtab pgdir j s \<longrightarrow> i = j)"

lemma vm_okD:
  assumes "vm_ok kend pgdir s ps"
  shows "kpages kend s ps" and "kgood kend pgdir" and "page_aligned pgdir" and "pgdir \<notin> set ps"
    and "unat i < 1024 \<Longrightarrow> pde_p pgdir i s \<Longrightarrow>
      kgood kend (pgtab pgdir i s) \<and> page_aligned (pgtab pgdir i s) \<and> pgtab pgdir i s \<notin> set ps \<and> pgtab pgdir i s \<noteq> pgdir"
    and "unat i < 1024 \<Longrightarrow> unat j < 1024 \<Longrightarrow> pde_p pgdir i s \<Longrightarrow> pde_p pgdir j s \<Longrightarrow>
      pgtab pgdir i s = pgtab pgdir j s \<Longrightarrow> i = j"
proof -
  show "kpages kend s ps" "kgood kend pgdir" "pgdir \<notin> set ps" using assms by (auto simp: vm_ok_def vm_pages_def)
  then show "page_aligned pgdir" using kgood_page by blast
  show "kgood kend (pgtab pgdir i s) \<and> page_aligned (pgtab pgdir i s) \<and> pgtab pgdir i s \<notin> set ps \<and> pgtab pgdir i s \<noteq> pgdir"
    if "unat i < 1024" "pde_p pgdir i s"
  proof -
    have "pgtab pgdir i s \<in> vm_pages pgdir s" using that by (auto simp: vm_pages_def)
    then show ?thesis using assms that kgood_page by (auto simp: vm_ok_def)
  qed
  show "unat i < 1024 \<Longrightarrow> unat j < 1024 \<Longrightarrow> pde_p pgdir i s \<Longrightarrow> pde_p pgdir j s \<Longrightarrow>
      pgtab pgdir i s = pgtab pgdir j s \<Longrightarrow> i = j" using assms by (auto simp: vm_ok_def)
qed

subsection \<open>Loads and stores\<close>

lemma kload_cong:
  assumes "page_aligned p" and "unat i < 1024" and "\<And>n. n \<in> page p \<Longrightarrow> kmemory s n = kmemory s' n"
  shows "kload (p + 4 * i) s = kload (p + 4 * i) s'"
  unfolding kload_def using entry_addr(2,3) [OF assms(1,2)] assms(3)
  by (intro load32_cong) auto

lemma kload_kstore:
  assumes "page_aligned p" and "page_aligned q" and "unat i < 1024" and "unat j < 1024"
  shows "kload (p + 4 * i) (kstore (q + 4 * j) w s) = (if p = q \<and> i = j then w else kload (p + 4 * i) s)"
proof (cases "p = q \<and> i = j")
  case True
  then show ?thesis using entry_addr(2) [OF assms(1,3)] by (simp add: kload_def kstore_def load32_store32_same)
next
  case False
  then have "p + 4 * i \<noteq> q + 4 * j" using entry_inj [OF assms] by blast
  then show ?thesis
    using False entry_addr(2) [OF assms(1,3)] entry_addr(2) [OF assms(2,4)]
    by (auto simp: kload_def kstore_def load32_store32_other)
qed

lemma kstore_out:
  assumes "page_aligned q" and "unat j < 1024" and "n \<notin> page q"
  shows "kmemory (kstore (q + 4 * j) w s) n = kmemory s n"
  using entry_addr(3) [OF assms(1,2)] assms(3) by (auto simp: kstore_def store32_def)

lemma kpages_kstore:
  assumes "kpages kend s ps" and "kgood kend q" and "q \<notin> set ps" and "unat j < 1024"
  shows "kpages kend (kstore (q + 4 * j) w s) ps"
  unfolding kstore_def
proof (rule ka.frame_page [OF assms(1-3)])
  show "store32 (kmemory s) (unat (q + 4 * j)) w n = kmemory s n" if "n \<notin> page q" for n
    using kstore_out [OF _ assms(4) that, of w s] kgood_page [OF assms(2)] by (simp add: kstore_def)
qed

text \<open>A store into a page table changes one entry of the map.\<close>

lemma store_pte:
  fixes w :: u32
  assumes ok: "vm_ok kend pgdir s ps" and p: "pde_p pgdir (PDX va) s"
  defines "s' \<equiv> kstore (pgtab pgdir (PDX va) s + 4 * PTX va) w s"
  shows "vm_ok kend pgdir s' ps"
    and "vmap pgdir s' va' = (if PGROUNDDOWN va' = PGROUNDDOWN va then w else vmap pgdir s va')"
    and "vm_pages pgdir s' = vm_pages pgdir s"
    and "n \<notin> page (pgtab pgdir (PDX va) s) \<Longrightarrow> kmemory s' n = kmemory s n"
proof -
  let ?t = "pgtab pgdir (PDX va) s"
  note D = vm_okD [OF ok]
  note T = D(5) [OF PDX_bound p]
  have "kload (pgdir + 4 * i) s' = kload (pgdir + 4 * i) s" if "unat i < 1024" for i
    unfolding s'_def using kload_kstore [OF D(3) _ that PTX_bound, of ?t va w s] T by auto
  then have same: "pde_p pgdir i s' = pde_p pgdir i s" "pgtab pgdir i s' = pgtab pgdir i s" if "unat i < 1024" for i
    using that by (simp_all add: pde_p_def pgtab_def)
  have "{i. unat i < 1024 \<and> pde_p pgdir i s'} = {i. unat i < 1024 \<and> pde_p pgdir i s}" using same by blast
  then show pg: "vm_pages pgdir s' = vm_pages pgdir s"
    unfolding vm_pages_def using same by (simp cong: image_cong_simp)
  have "kpages kend s' ps" unfolding s'_def using D(1) T by (intro kpages_kstore) simp_all
  then show "vm_ok kend pgdir s' ps" using ok unfolding vm_ok_def pg by (metis same)
  show "vmap pgdir s' va' = (if PGROUNDDOWN va' = PGROUNDDOWN va then w else vmap pgdir s va')"
  proof (cases "pde_p pgdir (PDX va') s")
    case True
    let ?t' = "pgtab pgdir (PDX va') s"
    note T' = D(5) [OF PDX_bound True]
    have "kload (?t' + 4 * PTX va') s' = (if ?t' = ?t \<and> PTX va' = PTX va then w else kload (?t' + 4 * PTX va') s)"
      unfolding s'_def using T T' by (intro kload_kstore) simp_all
    moreover have "?t' = ?t \<longleftrightarrow> PDX va' = PDX va" using D(6) [OF PDX_bound PDX_bound True p] by auto
    ultimately show ?thesis using True same [of "PDX va'"] same_page [of va' va] by (simp add: vmap_def)
  next
    case False
    then show ?thesis using same [of "PDX va'"] same_page [of va' va] p by (auto simp: vmap_def)
  qed
  show "n \<notin> page ?t \<Longrightarrow> kmemory s' n = kmemory s n" unfolding s'_def using T by (intro kstore_out) simp_all
qed

subsection \<open>Walking the directory\<close>

lemma good_nonzero: "kgood kend p \<Longrightarrow> unat i < 1024 \<Longrightarrow> p + 4 * i \<noteq> 0"
proof -
  assume a: "kgood kend p" "unat i < 1024"
  have "unat (p + 4 * i) = unat p + 4 * unat i" using entry_addr(1) kgood_page a by blast
  moreover have "0 < unat p" using V2P_range(1) [of p] a(1) by (simp add: kgood_def)
  ultimately show ?thesis by auto
qed

lemma walk_look:
  "walkpgdir pgdir va False s = (if pde_p pgdir (PDX va) s then pgtab pgdir (PDX va) s + 4 * PTX va else 0, s)"
  by (simp add: walkpgdir_def pde_p_def pgtab_def Let_def)

lemma new_pde:
  assumes "kgood kend p"
  shows "PTE_ADDR (V2P p OR PTE_P OR PTE_W OR PTE_U) = V2P p" and "(V2P p OR PTE_P OR PTE_W OR PTE_U) AND PTE_P \<noteq> 0"
proof -
  have "page_aligned (V2P p)" using kgood_page [OF assms] by (simp add: aligned_V2P)
  moreover have e: "V2P p OR PTE_P OR PTE_W OR PTE_U = V2P p OR 7" by (simp add: PTE_P_def PTE_W_def PTE_U_def or.assoc)
  ultimately show "PTE_ADDR (V2P p OR PTE_P OR PTE_W OR PTE_U) = V2P p" using PTE_or(1) [of "V2P p" 7] by simp
  show "(V2P p OR PTE_P OR PTE_W OR PTE_U) AND PTE_P \<noteq> 0" 
    unfolding PTE_P_bit by (simp add: bit_or_iff PTE_P_def)
qed

lemma kmemset_page:
  assumes "kgood kend p"
  shows "kmemory (kmemset p c (unat PGSIZE) s) = (\<lambda>n. if n \<in> page p then ucast c else kmemory s n)"
  by (auto simp: kmemset_def memset_eq page_def PGSIZE_def fun_eq_iff)

lemma kpages_kmemset:
  assumes "kpages kend s ps" and "kgood kend p" and "p \<notin> set ps"
  shows "kpages kend (kmemset p c (unat PGSIZE) s) ps"
  unfolding kmemset_def
  by (rule ka.frame_page [OF assms]) (auto simp: memset_eq page_def PGSIZE_def)

text \<open>A new table, all its entries empty, changes no entry of the map.\<close>

lemma new_table:
  fixes va :: u32
  assumes ok: "vm_ok kend pgdir s (p # ps)" and np: "\<not> pde_p pgdir (PDX va) s"
    and s1: "kpages kend s1 ps" "kmemory s1 = kmemory s"
  defines "s2 \<equiv> kmemset p 0 (unat PGSIZE) s1"
  defines "s3 \<equiv> kstore (pgdir + 4 * PDX va) (V2P p OR PTE_P OR PTE_W OR PTE_U) s2"
  shows "vm_ok kend pgdir s3 ps" and "vmap pgdir s3 va' = vmap pgdir s va'"
    and "vm_pages pgdir s3 = insert p (vm_pages pgdir s)" and "pde_p pgdir (PDX va) s3" and "pgtab pgdir (PDX va) s3 = p"
    and "n \<notin> page p \<Longrightarrow> n \<notin> page pgdir \<Longrightarrow> kmemory s3 n = kmemory s n"
proof -
  note D = vm_okD [OF ok]
  have g: "kgood kend p" "page_aligned p" "p \<notin> set ps" "p \<noteq> pgdir"
    using ka.pages_good [OF D(1)] kgood_page D(4) by auto
  note mem2 = kmemset_page [OF g(1), of 0 s1, folded s2_def, unfolded s1(2)]
  have k2: "kpages kend s2 ps" unfolding s2_def by (rule kpages_kmemset [OF s1(1) g(1,3)])
  have k3: "kpages kend s3 ps" unfolding s3_def using D(2,4) by (intro kpages_kstore k2) simp_all
  have l2: "kload (q + 4 * i) s2 = kload (q + 4 * i) s" if "page_aligned q" "q \<noteq> p" "unat i < 1024" for q i
    using page_disjoint [OF that(1) g(2) that(2)] by (intro kload_cong that) (auto simp: mem2)
  have l3: "kload (q + 4 * i) s3 = (if q = pgdir \<and> i = PDX va then V2P p OR PTE_P OR PTE_W OR PTE_U else kload (q + 4 * i) s2)"
    if "page_aligned q" "unat i < 1024" for q i
    unfolding s3_def using that D(3) by (intro kload_kstore) simp_all
  have pd: "pde_p pgdir i s3 \<longleftrightarrow> i = PDX va \<or> pde_p pgdir i s"
    and pt: "pgtab pgdir i s3 = (if i = PDX va then p else pgtab pgdir i s)" if "unat i < 1024" for i
    using l3 [OF D(3) that] l2 [OF D(3) g(4) [symmetric] that] new_pde [OF g(1)] by (auto simp: pde_p_def pgtab_def P2V_def V2P_def)
  show "pde_p pgdir (PDX va) s3" "pgtab pgdir (PDX va) s3 = p" by (simp_all add: pd pt)
  have pg: "vm_pages pgdir s3 = insert p (vm_pages pgdir s)"
  proof -
    let ?I = "{i. unat i < 1024 \<and> pde_p pgdir i s}"
    have "{i. unat i < 1024 \<and> pde_p pgdir i s3} = insert (PDX va) ?I" using pd PDX_bound [of va] by blast
    moreover have "(\<lambda>i. pgtab pgdir i s3) ` ?I = (\<lambda>i. pgtab pgdir i s) ` ?I"
      using pt np by (intro image_cong) auto
    ultimately show ?thesis using pt [OF PDX_bound, of va] by (auto simp: vm_pages_def)
  qed
  then show "vm_pages pgdir s3 = insert p (vm_pages pgdir s)" .
  have old: "\<forall>q\<in>vm_pages pgdir s. kgood kend q \<and> q \<notin> set (p # ps)" using ok by (simp add: vm_ok_def)
  have tp: "pgtab pgdir i s \<noteq> p" if "unat i < 1024" "pde_p pgdir i s" for i using D(5) [OF that] by auto
  show "vm_ok kend pgdir s3 ps"
    unfolding vm_ok_def pg
  proof (intro conjI ballI allI impI k3)
    show "kgood kend q" "q \<notin> set ps" if "q \<in> insert p (vm_pages pgdir s)" for q using that old g by auto
    show "pgtab pgdir i s3 \<noteq> pgdir" if "unat i < 1024 \<and> pde_p pgdir i s3" for i
      using that pd pt D(5) [of i] g(4) by auto
    show "i = j" if "unat i < 1024 \<and> unat j < 1024 \<and> pde_p pgdir i s3 \<and> pde_p pgdir j s3 \<and> pgtab pgdir i s3 = pgtab pgdir j s3" for i j
      using that pd pt tp D(6) by (auto split: if_splits) metis+
  qed
  show "vmap pgdir s3 va' = vmap pgdir s va'"
  proof (cases "PDX va' = PDX va")
    case True
    have "kload (p + 4 * PTX va') s3 = kload (p + 4 * PTX va') s2" using l3 [OF g(2)] g(4) by simp
    also have "\<dots> = 0"
      unfolding kload_def using entry_addr(2,3) [OF g(2) PTX_bound, of va']
      by (intro load32_zero) (auto simp: mem2)
    finally show ?thesis using True np pd pt by (simp add: vmap_def)
  next
    case False
    show ?thesis
    proof (cases "pde_p pgdir (PDX va') s")
      case True
      note T = D(5) [OF PDX_bound True]
      have "kload (pgtab pgdir (PDX va') s + 4 * PTX va') s3 = kload (pgtab pgdir (PDX va') s + 4 * PTX va') s"
        using l3 [of "pgtab pgdir (PDX va') s" "PTX va'"] l2 [of "pgtab pgdir (PDX va') s" "PTX va'"] T by auto
      then show ?thesis using True False pd pt by (simp add: vmap_def)
    qed (use False pd in \<open>simp add: vmap_def\<close>)
  qed
  show "kmemory s3 n = kmemory s n" if "n \<notin> page p" "n \<notin> page pgdir"
    using that kstore_out [OF D(3) PDX_bound that(2)] by (simp add: s3_def mem2)
qed

text \<open>
  The free pages \<open>ps\<close> after a routine that takes \<open>ks\<close> of them for page tables, and what it leaves alone.
\<close>

definition vm_step :: "u32 \<Rightarrow> u32 \<Rightarrow> kmem \<Rightarrow> u32 list \<Rightarrow> u32 list \<Rightarrow> kmem \<Rightarrow> u32 list \<Rightarrow> bool" where
  "vm_step kend pgdir s ps ks s' ps' \<longleftrightarrow> ps = ks @ ps' \<and> vm_ok kend pgdir s' ps' \<and>
     vm_pages pgdir s' = vm_pages pgdir s \<union> set ks \<and>
     (\<forall>n. (\<forall>p\<in>vm_pages pgdir s \<union> set ks. n \<notin> page p) \<longrightarrow> kmemory s' n = kmemory s n)"

lemma vm_step_refl: "vm_ok kend pgdir s ps \<Longrightarrow> vm_step kend pgdir s ps [] s ps"
  by (simp add: vm_step_def)

lemma vm_step_trans:
  "vm_step kend pgdir s ps ks s' ps' \<Longrightarrow> vm_step kend pgdir s' ps' ks' s'' ps'' \<Longrightarrow>
   vm_step kend pgdir s ps (ks @ ks') s'' ps''"
  by (auto simp: vm_step_def)

lemma walk_alloc:
  assumes ok: "vm_ok kend pgdir s ps"
  shows "(\<not> pde_p pgdir (PDX va) s \<and> ps = [] \<and> walkpgdir pgdir va True s = (0, s)) \<or>
    (\<exists>s' ks ps'. walkpgdir pgdir va True s = (pgtab pgdir (PDX va) s' + 4 * PTX va, s') \<and>
      pde_p pgdir (PDX va) s' \<and> (\<forall>va'. vmap pgdir s' va' = vmap pgdir s va') \<and>
      vm_step kend pgdir s ps ks s' ps' \<and> length ks \<le> 1)"
proof (cases "pde_p pgdir (PDX va) s")
  case True
  then have "walkpgdir pgdir va True s = (pgtab pgdir (PDX va) s + 4 * PTX va, s)"
    by (simp add: walkpgdir_def pde_p_def pgtab_def Let_def)
  then show ?thesis using True vm_step_refl [OF ok] by (intro disjI2 exI [of _ s] exI [of _ "[]"] exI [of _ ps]) simp
next
  case False
  note D = vm_okD [OF ok]
  from D(1) show ?thesis
  proof (rule ka.alloc_cases)
    assume "ps = []" "kalloc s = (0, s)"
    then show ?thesis using False by (simp add: walkpgdir_def pde_p_def Let_def)
  next
    fix p qs s1
    assume a: "ps = p # qs" "kalloc s = (p, s1)" "p \<noteq> 0" "kpages kend s1 qs" "kmemory s1 = kmemory s"
    note N = new_table [OF ok [unfolded a(1)] False a(4,5)]
    let ?s2 = "kmemset p 0 (unat PGSIZE) s1"
    let ?s3 = "kstore (pgdir + 4 * PDX va) (V2P p OR PTE_P OR PTE_W OR PTE_U) ?s2"
    have "walkpgdir pgdir va True s = (pgtab pgdir (PDX va) ?s3 + 4 * PTX va, ?s3)"
      using False a(2,3) N(5) by (simp add: walkpgdir_def pde_p_def Let_def)
    moreover have "vm_step kend pgdir s ps [p] ?s3 qs"
      using a(1) N(1,3,6) by (auto simp: vm_step_def vm_pages_def)
    ultimately show ?thesis using N(2,4) by (intro disjI2 exI [of _ ?s3] exI [of _ "[p]"] exI [of _ qs]) simp
  qed
qed

lemma vm_step_store:
  assumes "vm_step kend pgdir s ps ks s' ps'" and "pde_p pgdir (PDX va) s'"
  shows "vm_step kend pgdir s ps ks (kstore (pgtab pgdir (PDX va) s' + 4 * PTX va) w s') ps'"
proof -
  have ok: "vm_ok kend pgdir s' ps'" and pg: "vm_pages pgdir s' = vm_pages pgdir s \<union> set ks"
    using assms(1) by (simp_all add: vm_step_def)
  have "pgtab pgdir (PDX va) s' \<in> vm_pages pgdir s'" using assms(2) by (auto simp: vm_pages_def)
  then show ?thesis
    using assms(1) store_pte [OF ok assms(2), where w = w] unfolding vm_step_def pg by auto
qed

subsection \<open>Mapping pages\<close>

definition in_range :: "u32 \<Rightarrow> nat \<Rightarrow> u32 \<Rightarrow> bool" where
  "in_range a n va \<longleftrightarrow> unat a \<le> unat va \<and> unat va < unat a + 4096 * n"

lemma page_iff:
  assumes "page_aligned a"
  shows "PGROUNDDOWN va = a \<longleftrightarrow> unat a \<le> unat va \<and> unat va < unat a + 4096"
proof -
  obtain k where k: "unat a = 4096 * k" using assms by (auto simp: page_aligned_def elim: dvdE simp flip: dvd_eq_mod_eq_0)
  have "PGROUNDDOWN va = a \<longleftrightarrow> unat va div 4096 = k" by (auto simp: word_unat_eq_iff unat_PGROUNDDOWN k)
  also have "\<dots> \<longleftrightarrow> 4096 * k \<le> unat va \<and> unat va < 4096 * k + 4096"
  proof
    assume "unat va div 4096 = k"
    then show "4096 * k \<le> unat va \<and> unat va < 4096 * k + 4096"
      using div_mult_mod_eq [of "unat va" 4096] mod_less_divisor [of 4096 "unat va"] by linarith
  next
    assume "4096 * k \<le> unat va \<and> unat va < 4096 * k + 4096"
    then show "unat va div 4096 = k" by (intro div_nat_eqI) auto
  qed
  finally show ?thesis by (simp add: k)
qed

lemma in_range_Suc:
  assumes "page_aligned a" and "unat a + 4096 * n < 2 ^ 32" and "0 < n"
  shows "in_range a (Suc n) va \<longleftrightarrow> PGROUNDDOWN va = a \<or> in_range (a + PGSIZE) n va"
    and "unat (a + PGSIZE) = unat a + 4096" and "page_aligned (a + PGSIZE)"
    and "PGROUNDDOWN va = a \<Longrightarrow> \<not> in_range (a + PGSIZE) n va"
proof -
  show u: "unat (a + PGSIZE) = unat a + 4096" using assms(2,3) by (subst unat_plus_small) (simp_all add: PGSIZE_def)
  then show "page_aligned (a + PGSIZE)" using assms(1) by (simp add: page_aligned_def)
  show "in_range a (Suc n) va \<longleftrightarrow> PGROUNDDOWN va = a \<or> in_range (a + PGSIZE) n va"
    "PGROUNDDOWN va = a \<Longrightarrow> \<not> in_range (a + PGSIZE) n va"
    unfolding page_iff [OF assms(1)] in_range_def u by auto
qed

lemma in_range_1: "page_aligned a \<Longrightarrow> in_range a (Suc 0) va \<longleftrightarrow> PGROUNDDOWN va = a"
  by (simp add: page_iff in_range_def)

text \<open>One turn of the loop of \<open>mappages\<close>.\<close>

lemma map_one:
  assumes ok: "vm_ok kend pgdir s ps" and free: "vmap pgdir s a AND PTE_P = 0"
  obtains "walkpgdir pgdir a True s = (0, s)" and "ps = []"
  | pte s1 ks ps' where "walkpgdir pgdir a True s = (pte, s1)" and "pte \<noteq> 0" and "kload pte s1 AND PTE_P = 0"
    and "vm_step kend pgdir s ps ks (kstore pte w s1) ps'" and "length ks \<le> 1"
    and "\<forall>va. vmap pgdir (kstore pte w s1) va = (if PGROUNDDOWN va = PGROUNDDOWN a then w else vmap pgdir s va)"
proof -
  consider "ps = []" "walkpgdir pgdir a True s = (0, s)"
    | s1 ks ps' where "walkpgdir pgdir a True s = (pgtab pgdir (PDX a) s1 + 4 * PTX a, s1)" "pde_p pgdir (PDX a) s1"
      "\<forall>va. vmap pgdir s1 va = vmap pgdir s va" "vm_step kend pgdir s ps ks s1 ps'" "length ks \<le> 1"
    using walk_alloc [OF ok, of a] by blast
  then show thesis
  proof cases
    case 1
    then show thesis using that(1) by blast
  next
    case 2
    let ?pte = "pgtab pgdir (PDX a) s1 + 4 * PTX a"
    have ok1: "vm_ok kend pgdir s1 ps'" using 2(4) by (simp add: vm_step_def)
    have "?pte \<noteq> 0" using vm_okD(5) [OF ok1 PDX_bound 2(2)] good_nonzero [OF _ PTX_bound] by blast
    moreover have "kload ?pte s1 = vmap pgdir s1 a" using 2(2) by (simp add: vmap_def)
    ultimately show thesis
      using free 2(3) store_pte(2) [OF ok1 2(2)] by (intro that(2) [OF 2(1) _ _ vm_step_store [OF 2(4,2)] 2(5)]) simp_all
  qed
qed

lemma mappages_loop_ok:
  assumes "vm_ok kend pgdir s ps" and "page_aligned a" and "unat a + 4096 * n < 2 ^ 32"
    and "\<And>va. in_range a (Suc n) va \<Longrightarrow> vmap pgdir s va AND PTE_P = 0"
  shows "\<exists>r s' ks ps'. mappages_loop pgdir a n pa perm s = Ret r s' \<and> vm_step kend pgdir s ps ks s' ps' \<and>
    length ks \<le> Suc n \<and> (r = 0 \<or> r = -1 \<and> length ps \<le> n) \<and>
    (\<forall>va. \<not> in_range a (Suc n) va \<longrightarrow> vmap pgdir s' va = vmap pgdir s va) \<and>
    (r = 0 \<longrightarrow> (\<forall>va. in_range a (Suc n) va \<longrightarrow>
      vmap pgdir s' va = (pa + (PGROUNDDOWN va - a)) OR perm OR PTE_P))"
  using assms
proof (induction n arbitrary: a pa s ps)
  case 0
  have "in_range a (Suc 0) a" by (simp add: in_range_def)
  then have f: "vmap pgdir s a AND PTE_P = 0" using 0(4) by blast
  show ?case
  proof (rule map_one [OF 0(1) f, where w = "pa OR perm OR PTE_P"])
    assume "walkpgdir pgdir a True s = (0, s)" "ps = []"
    then show ?thesis using vm_step_refl [OF 0(1)]
      by (subst mappages_loop.simps) (auto intro!: exI [of _ "[]"])
  next
    fix pte s1 ks ps'
    assume "walkpgdir pgdir a True s = (pte, s1)" "pte \<noteq> 0" "kload pte s1 AND PTE_P = 0"
      "vm_step kend pgdir s ps ks (kstore pte (pa OR perm OR PTE_P) s1) ps'" "length ks \<le> 1"
      "\<forall>va. vmap pgdir (kstore pte (pa OR perm OR PTE_P) s1) va = (if PGROUNDDOWN va = PGROUNDDOWN a then pa OR perm OR PTE_P else vmap pgdir s va)"
    then show ?thesis
      using PGROUNDDOWN_of_aligned [OF 0(2)] in_range_1 [OF 0(2)]
      by (intro exI [of _ 0] exI [of _ "kstore pte (pa OR perm OR PTE_P) s1"] exI [of _ ks] exI [of _ ps'])
        (subst mappages_loop.simps, auto simp: Let_def One_nat_def)
  qed
next
  case (Suc n)
  have "in_range a (Suc (Suc n)) a" by (simp add: in_range_def)
  then have f: "vmap pgdir s a AND PTE_P = 0" using Suc.prems(4) by blast
  note R = in_range_Suc [OF Suc.prems(2,3) zero_less_Suc]
  note al = PGROUNDDOWN_of_aligned [OF Suc.prems(2)]
  let ?w = "pa OR perm OR PTE_P"
  show ?case
  proof (rule map_one [OF Suc.prems(1) f, where w = ?w])
    assume "walkpgdir pgdir a True s = (0, s)" "ps = []"
    then show ?thesis using vm_step_refl [OF Suc.prems(1)]
      by (subst mappages_loop.simps) (auto intro!: exI [of _ "[]"])
  next
    fix pte s1 ks ps1
    let ?s2 = "kstore pte ?w s1"
    assume 1: "walkpgdir pgdir a True s = (pte, s1)" "pte \<noteq> 0" "kload pte s1 AND PTE_P = 0"
      "vm_step kend pgdir s ps ks ?s2 ps1" "length ks \<le> 1"
      "\<forall>va. vmap pgdir ?s2 va = (if PGROUNDDOWN va = PGROUNDDOWN a then ?w else vmap pgdir s va)"
    have ok2: "vm_ok kend pgdir ?s2 ps1" and ps: "ps = ks @ ps1" using 1(4) by (simp_all add: vm_step_def)
    have lt: "unat (a + PGSIZE) + 4096 * n < 2 ^ 32" using Suc.prems(3) R(2) by simp
    have un: "vmap pgdir ?s2 va AND PTE_P = 0" if "in_range (a + PGSIZE) (Suc n) va" for va
      using that 1(6) R(1,4) Suc.prems(4) al by auto
    obtain r s' ks' ps' where 2: "mappages_loop pgdir (a + PGSIZE) n (pa + PGSIZE) perm ?s2 = Ret r s'"
      "vm_step kend pgdir ?s2 ps1 ks' s' ps'" "length ks' \<le> Suc n" "r = 0 \<or> r = -1 \<and> length ps1 \<le> n"
      "\<forall>va. \<not> in_range (a + PGSIZE) (Suc n) va \<longrightarrow> vmap pgdir s' va = vmap pgdir ?s2 va"
      "r = 0 \<longrightarrow> (\<forall>va. in_range (a + PGSIZE) (Suc n) va \<longrightarrow>
        vmap pgdir s' va = (pa + PGSIZE + (PGROUNDDOWN va - (a + PGSIZE))) OR perm OR PTE_P)"
      using Suc.IH [OF ok2 R(3) lt un] by blast
    have run: "mappages_loop pgdir a (Suc n) pa perm s = Ret r s'"
      using 1(1-3) 2(1) by (subst mappages_loop.simps) (simp add: Let_def)
    have st: "vm_step kend pgdir s ps (ks @ ks') s' ps'" by (rule vm_step_trans [OF 1(4) 2(2)])
    have out: "vmap pgdir s' va = vmap pgdir s va" if "\<not> in_range a (Suc (Suc n)) va" for va
      using that R(1) [of va] 2(5) 1(6) al by auto
    have ins: "vmap pgdir s' va = (pa + (PGROUNDDOWN va - a)) OR perm OR PTE_P" if "r = 0" "in_range a (Suc (Suc n)) va" for va
    proof (cases "PGROUNDDOWN va = a")
      case True
      then show ?thesis using 2(5) 1(6) R(4) al by auto
    next
      case False
      then have "in_range (a + PGSIZE) (Suc n) va" using that(2) R(1) by blast
      moreover have "pa + PGSIZE + (PGROUNDDOWN va - (a + PGSIZE)) = pa + (PGROUNDDOWN va - a)" by simp
      ultimately show ?thesis using 2(6) that(1) by metis
    qed
    show ?thesis
      using run st out ins 2(3,4) 1(5) ps
      by (intro exI [of _ r] exI [of _ s'] exI [of _ "ks @ ks'"] exI [of _ ps']) auto
  qed
qed

lemma mappages_ok:
  assumes "vm_ok kend pgdir s ps" and "0 < unat sz" and "unat va + unat sz \<le> 2 ^ 32"
  defines "a \<equiv> PGROUNDDOWN va" and "n \<equiv> (unat va + unat sz - 1) div 4096 - unat va div 4096"
  assumes "\<And>x. in_range a (Suc n) x \<Longrightarrow> vmap pgdir s x AND PTE_P = 0"
  shows "\<exists>r s' ks ps'. mappages pgdir va sz pa perm s = Ret r s' \<and> vm_step kend pgdir s ps ks s' ps' \<and>
    length ks \<le> Suc n \<and> (r = 0 \<or> r = -1 \<and> length ps \<le> n) \<and>
    (\<forall>x. \<not> in_range a (Suc n) x \<longrightarrow> vmap pgdir s' x = vmap pgdir s x) \<and>
    (r = 0 \<longrightarrow> (\<forall>x. in_range a (Suc n) x \<longrightarrow> vmap pgdir s' x = (pa + (PGROUNDDOWN x - a)) OR perm OR PTE_P))"
proof -
  have "unat (va + (sz - 1)) = unat va + unat (sz - 1)" and s1: "unat (sz - 1) = unat sz - 1"
  proof -
    show s1: "unat (sz - 1) = unat sz - 1" using assms(2) by (subst unat_sub) (simp_all add: word_le_nat_alt)
    show "unat (va + (sz - 1)) = unat va + unat (sz - 1)" using assms(2,3) s1 by (intro unat_plus_small) simp
  qed
  then have l: "unat (PGROUNDDOWN (va + sz - 1)) = (unat va + unat sz - 1) div 4096 * 4096"
    using assms(2) by (simp add: unat_PGROUNDDOWN add_diff_eq)
  have le: "unat va div 4096 \<le> (unat va + unat sz - 1) div 4096" using assms(2) by (intro div_le_mono) simp
  then have "unat (PGROUNDDOWN (va + sz - 1) - a) = 4096 * n"
    using l by (subst unat_sub) (simp_all add: word_le_nat_alt a_def n_def unat_PGROUNDDOWN diff_mult_distrib2 mult.commute)
  then have run: "mappages pgdir va sz pa perm s = mappages_loop pgdir a n pa perm s"
    by (simp add: mappages_def a_def Let_def)
  have "unat a + 4096 * n = (unat va + unat sz - 1) div 4096 * 4096"
    using le by (simp add: a_def n_def unat_PGROUNDDOWN diff_mult_distrib2)
  also have "\<dots> < 2 ^ 32" using assms(2,3) div_times_less_eq_dividend [of "unat va + unat sz - 1" 4096] by linarith
  finally show ?thesis
    unfolding run using assms(1,6) by (intro mappages_loop_ok) (simp_all add: a_def)
qed

lemma mappages_page:
  assumes "vm_ok kend pgdir s ps" and "page_aligned a" and "vmap pgdir s a AND PTE_P = 0"
    and "\<And>x. PGROUNDDOWN x = a \<Longrightarrow> vmap pgdir s x = vmap pgdir s a"
  shows "\<exists>r s' ks ps'. mappages pgdir a PGSIZE pa perm s = Ret r s' \<and> vm_step kend pgdir s ps ks s' ps' \<and>
    length ks \<le> 1 \<and> (r = 0 \<or> r = -1 \<and> ps = []) \<and>
    (\<forall>x. PGROUNDDOWN x \<noteq> a \<longrightarrow> vmap pgdir s' x = vmap pgdir s x) \<and>
    (r = 0 \<longrightarrow> (\<forall>x. PGROUNDDOWN x = a \<longrightarrow> vmap pgdir s' x = pa OR perm OR PTE_P))"
proof -
  have n: "(unat a + unat PGSIZE - 1) div 4096 - unat a div 4096 = 0"
    using assms(2) by (auto simp: PGSIZE_def page_aligned_def elim!: dvdE simp flip: dvd_eq_mod_eq_0)
  note al = PGROUNDDOWN_of_aligned [OF assms(2)]
  have b: "0 < unat PGSIZE" "unat a + unat PGSIZE \<le> 2 ^ 32" using page_aligned_room [OF assms(2)] by (simp_all add: PGSIZE_def)
  have u: "vmap pgdir s x AND PTE_P = 0" if "PGROUNDDOWN x = a" for x using assms(3,4) that by simp
  show ?thesis
    using mappages_ok [OF assms(1) b, unfolded n al in_range_1 [OF assms(2)], of pa perm] u
    by (auto simp: One_nat_def)
qed

subsection \<open>Growing a process\<close>

lemma vmap_PGROUNDDOWN: "PGROUNDDOWN x = PGROUNDDOWN y \<Longrightarrow> vmap pgdir s x = vmap pgdir s y"
  using same_page [of x y] by (simp add: vmap_def)

text \<open>The page tables depend on their own pages only.\<close>

lemma vm_cong:
  assumes ok: "vm_ok kend pgdir s ps" and eq: "\<And>q n. q \<in> vm_pages pgdir s \<Longrightarrow> n \<in> page q \<Longrightarrow> kmemory s' n = kmemory s n"
  shows "vmap pgdir s' x = vmap pgdir s x" and "vm_pages pgdir s' = vm_pages pgdir s"
    and "kpages kend s' ps' \<Longrightarrow> (\<And>q. q \<in> vm_pages pgdir s \<Longrightarrow> q \<notin> set ps') \<Longrightarrow> vm_ok kend pgdir s' ps'"
proof -
  note D = vm_okD [OF ok]
  have "pgdir \<in> vm_pages pgdir s" by (simp add: vm_pages_def)
  then have "kload (pgdir + 4 * i) s' = kload (pgdir + 4 * i) s" if "unat i < 1024" for i
    using that eq D(3) by (intro kload_cong) auto
  then have same: "pde_p pgdir i s' = pde_p pgdir i s" "pgtab pgdir i s' = pgtab pgdir i s" if "unat i < 1024" for i
    using that by (simp_all add: pde_p_def pgtab_def)
  have "{i. unat i < 1024 \<and> pde_p pgdir i s'} = {i. unat i < 1024 \<and> pde_p pgdir i s}" using same by blast
  then show pg: "vm_pages pgdir s' = vm_pages pgdir s"
    unfolding vm_pages_def using same by (simp cong: image_cong_simp)
  show "vmap pgdir s' x = vmap pgdir s x"
  proof (cases "pde_p pgdir (PDX x) s")
    case True
    then have "pgtab pgdir (PDX x) s \<in> vm_pages pgdir s" by (auto simp: vm_pages_def)
    then have "kload (pgtab pgdir (PDX x) s + 4 * PTX x) s' = kload (pgtab pgdir (PDX x) s + 4 * PTX x) s"
      using eq D(5) [OF PDX_bound True] by (intro kload_cong) auto
    then show ?thesis using same [of "PDX x"] by (simp add: vmap_def)
  qed (use same [of "PDX x"] in \<open>simp add: vmap_def\<close>)
  show "vm_ok kend pgdir s' ps'" if "kpages kend s' ps'" "\<And>q. q \<in> vm_pages pgdir s \<Longrightarrow> q \<notin> set ps'"
    using ok that unfolding vm_ok_def pg by (metis same)
qed

text \<open>Taking a page from the free list and clearing it, with the tables as they were.\<close>

lemma fresh_page:
  assumes ok: "vm_ok kend pgdir s (p # ps)"
  obtains s1 where "kalloc s = (p, s1)" and "p \<noteq> 0" and "kgood kend p" and "p \<notin> vm_pages pgdir s" and "p \<notin> set ps"
    and "vm_ok kend pgdir (kmemset p 0 (unat PGSIZE) s1) ps"
    and "\<forall>x. vmap pgdir (kmemset p 0 (unat PGSIZE) s1) x = vmap pgdir s x"
    and "vm_pages pgdir (kmemset p 0 (unat PGSIZE) s1) = vm_pages pgdir s"
    and "kmemory (kmemset p 0 (unat PGSIZE) s1) = (\<lambda>n. if n \<in> page p then 0 else kmemory s n)"
proof -
  note D = vm_okD [OF ok]
  obtain s1 where s1: "kalloc s = (p, s1)" "kpages kend s1 ps" "kmemory s1 = kmemory s" using ka.alloc_top [OF D(1)] by blast
  have g: "kgood kend p" "p \<notin> set ps" "p \<noteq> 0" "page_aligned p" using ka.pages_good [OF D(1)] kgood_page by auto
  have np: "p \<notin> vm_pages pgdir s" and others: "q \<notin> set ps" "kgood kend q" if "q \<in> vm_pages pgdir s" for q
    using ok that by (auto simp: vm_ok_def)
  let ?s2 = "kmemset p 0 (unat PGSIZE) s1"
  have m: "kmemory ?s2 = (\<lambda>n. if n \<in> page p then 0 else kmemory s n)" 
    unfolding kmemset_page [OF g(1)] s1(3) by (simp only: unsigned_0)
  have eq: "kmemory ?s2 n = kmemory s n" if "q \<in> vm_pages pgdir s" "n \<in> page q" for q n
    using page_disjoint [of q p] kgood_page [OF others(2) [OF that(1)]] np [OF that(1)] that g(4) by (auto simp: m)
  have C1: "\<forall>x. vmap pgdir ?s2 x = vmap pgdir s x" and C2: "vm_pages pgdir ?s2 = vm_pages pgdir s"
    using vm_cong(1,2) [OF ok] eq by blast+
  have "vm_ok kend pgdir ?s2 ps"
    by (rule vm_cong(3) [OF ok]) (use eq others kpages_kmemset [OF s1(2) g(1,2)] in auto)
  moreover have "p \<notin> vm_pages pgdir s" using ok by (auto simp: vm_ok_def)
  ultimately show thesis using C1 C2 m by (intro that [OF s1(1) g(3,1) _ g(2)])
qed

text \<open>
  One page more for a process: a fresh page of zeros, mapped at \<open>a\<close>. \<open>us\<close> are user pages that
  the process has already; they keep their contents.
\<close>

lemma grow_page:
  assumes ok: "vm_ok kend pgdir s ps" and a: "page_aligned a" and free: "vmap pgdir s a AND PTE_P = 0"
    and len: "2 \<le> length ps"
  obtains p s1 s2 ks ps2 where "kalloc s = (p, s1)" and "p \<noteq> 0"
    and "mappages pgdir a PGSIZE (V2P p) (PTE_W OR PTE_U) (kmemset p 0 (unat PGSIZE) s1) = Ret 0 s2"
    and "ps = p # ks @ ps2" and "length ks \<le> 1" and "vm_ok kend pgdir s2 ps2"
    and "vm_pages pgdir s2 = vm_pages pgdir s \<union> set ks" and "kgood kend p" and "p \<notin> vm_pages pgdir s2"
    and "\<forall>x. vmap pgdir s2 x = (if PGROUNDDOWN x = a then V2P p OR (PTE_W OR PTE_U) OR PTE_P else vmap pgdir s x)"
    and "\<forall>n\<in>page p. kmemory s2 n = 0"
    and "\<forall>n. (\<forall>q\<in>vm_pages pgdir s \<union> set (p # ks). n \<notin> page q) \<longrightarrow> kmemory s2 n = kmemory s n"
proof -
  obtain p qs where pq: "ps = p # qs" and qs: "qs \<noteq> []" using len by (cases ps; cases "tl ps") (auto simp: One_nat_def)
  obtain s1 where F: "kalloc s = (p, s1)" "p \<noteq> 0" "kgood kend p" "p \<notin> vm_pages pgdir s" "p \<notin> set qs"
    "vm_ok kend pgdir (kmemset p 0 (unat PGSIZE) s1) qs"
    "\<forall>x. vmap pgdir (kmemset p 0 (unat PGSIZE) s1) x = vmap pgdir s x"
    "vm_pages pgdir (kmemset p 0 (unat PGSIZE) s1) = vm_pages pgdir s"
    "kmemory (kmemset p 0 (unat PGSIZE) s1) = (\<lambda>n. if n \<in> page p then 0 else kmemory s n)"
    by (rule fresh_page [OF ok [unfolded pq]])
  let ?z = "kmemset p 0 (unat PGSIZE) s1"
  have za: "vmap pgdir ?z a AND PTE_P = 0" using F(7) free by simp
  have zx: "vmap pgdir ?z x = vmap pgdir ?z a" if "PGROUNDDOWN x = a" for x
    using that PGROUNDDOWN_of_aligned [OF a] by (intro vmap_PGROUNDDOWN) simp
  from mappages_page [OF F(6) a za zx, of "V2P p" "PTE_W OR PTE_U"] obtain r s2 ks ps2 where
    M': "mappages pgdir a PGSIZE (V2P p) (PTE_W OR PTE_U) ?z = Ret r s2" "vm_step kend pgdir ?z qs ks s2 ps2" "length ks \<le> 1"
    "r = 0 \<or> r = -1 \<and> qs = []"
    "\<forall>x. PGROUNDDOWN x \<noteq> a \<longrightarrow> vmap pgdir s2 x = vmap pgdir ?z x"
    "r = 0 \<longrightarrow> (\<forall>x. PGROUNDDOWN x = a \<longrightarrow> vmap pgdir s2 x = V2P p OR (PTE_W OR PTE_U) OR PTE_P)" by blast
  have r: "r = 0" using M'(4) qs by blast
  note M = M'(1) [unfolded r] M'(2,3,5) M'(6) [rule_format, OF r]
  have st: "qs = ks @ ps2" "vm_ok kend pgdir s2 ps2" "vm_pages pgdir s2 = vm_pages pgdir s \<union> set ks"
    "\<forall>n. (\<forall>q\<in>vm_pages pgdir s \<union> set ks. n \<notin> page q) \<longrightarrow> kmemory s2 n = kmemory ?z n"
    using M(2) F(8) by (simp_all add: vm_step_def)
  have np: "p \<notin> vm_pages pgdir s2" using st(1,3) F(4,5) by auto
  have g2: "kgood kend q" if "q \<in> vm_pages pgdir s2" for q using st(2) that by (auto simp: vm_ok_def)
  have "kmemory s2 n = 0" if "n \<in> page p" for n
  proof -
    have "n \<notin> page q" if "q \<in> vm_pages pgdir s2" for q
      using page_disjoint [of q p] kgood_page [OF g2 [OF that]] kgood_page [OF F(3)] np that \<open>n \<in> page p\<close> by auto
    then show ?thesis using st(3,4) F(9) that by auto
  qed
  then have z: "\<forall>n\<in>page p. kmemory s2 n = 0" by blast
  have v: "\<forall>x. vmap pgdir s2 x = (if PGROUNDDOWN x = a then V2P p OR (PTE_W OR PTE_U) OR PTE_P else vmap pgdir s x)"
    using M(4,5) F(7) by metis
  have m: "\<forall>n. (\<forall>q\<in>vm_pages pgdir s \<union> set (p # ks). n \<notin> page q) \<longrightarrow> kmemory s2 n = kmemory s n"
    using st(4) by (simp add: F(9))
  show thesis by (rule that [OF F(1,2) M(1) _ M(3) st(2,3) F(3) np v z m]) (simp add: pq st(1))
qed

lemma allocuvm_loop_ok:
  assumes "vm_ok kend pgdir s ps" and "a mod 4096 = 0" and "a + 4096 * k < 2 ^ 32"
    and "unat newsz \<le> a + 4096 * k" and "a + 4096 * k < unat newsz + 4096 \<or> k = 0" and "2 * k \<le> length ps"
    and "\<And>x. a \<le> unat x \<Longrightarrow> unat x < a + 4096 * k \<Longrightarrow> vmap pgdir s x AND PTE_P = 0"
  shows "\<exists>s' us ks ps'. allocuvm_loop kend pgdir oldsz a newsz s = Ret newsz s' \<and> vm_ok kend pgdir s' ps' \<and>
    length us = k \<and> distinct us \<and> set us \<inter> (vm_pages pgdir s' \<union> set ps') = {} \<and>
    set ps = set us \<union> set ks \<union> set ps' \<and> vm_pages pgdir s' = vm_pages pgdir s \<union> set ks \<and>
    (\<forall>u\<in>set us. kgood kend u \<and> (\<forall>n\<in>page u. kmemory s' n = 0)) \<and>
    (\<forall>i x. i < k \<longrightarrow> unat x div 4096 = a div 4096 + i \<longrightarrow> vmap pgdir s' x = V2P (us ! i) OR (PTE_W OR PTE_U) OR PTE_P) \<and>
    (\<forall>x. \<not> (a \<le> unat x \<and> unat x < a + 4096 * k) \<longrightarrow> vmap pgdir s' x = vmap pgdir s x) \<and>
    (\<forall>n. (\<forall>q\<in>vm_pages pgdir s \<union> set ps. n \<notin> page q) \<longrightarrow> kmemory s' n = kmemory s n)"
  using assms
proof (induction k arbitrary: a s ps)
  case 0
  then have "\<not> a < unat newsz" by simp
  then show ?case using 0(1) by (intro exI [of _ s] exI [of _ "[]"] exI [of _ "[]"] exI [of _ ps]) (subst allocuvm_loop.simps, simp)
next
  case (Suc k)
  let ?a = "of_nat a :: u32"
  have lt: "a < unat newsz" using Suc.prems(5) by auto
  have ua: "unat ?a = a" using Suc.prems(3) by (simp add: unat_of_nat take_bit_eq_mod)
  have al: "page_aligned ?a" using Suc.prems(2) by (simp add: page_aligned_def ua)
  have pg: "PGROUNDDOWN x = ?a \<longleftrightarrow> a \<le> unat x \<and> unat x < a + 4096" for x using page_iff [OF al] by (simp add: ua)
  have fr: "vmap pgdir s ?a AND PTE_P = 0" using Suc.prems(7) [of ?a] by (simp add: ua)
  have "2 \<le> length ps" using Suc.prems(6) by simp
  from grow_page [OF Suc.prems(1) al fr this] obtain p s1 s2 ks ps2 where
    G: "kalloc s = (p, s1)" "p \<noteq> 0"
    "mappages pgdir ?a PGSIZE (V2P p) (PTE_W OR PTE_U) (kmemset p 0 (unat PGSIZE) s1) = Ret 0 s2"
    "ps = p # ks @ ps2" "length ks \<le> 1" "vm_ok kend pgdir s2 ps2"
    "vm_pages pgdir s2 = vm_pages pgdir s \<union> set ks" "kgood kend p" "p \<notin> vm_pages pgdir s2"
    "\<forall>x. vmap pgdir s2 x = (if PGROUNDDOWN x = ?a then V2P p OR (PTE_W OR PTE_U) OR PTE_P else vmap pgdir s x)"
    "\<forall>n\<in>page p. kmemory s2 n = 0"
    "\<forall>n. (\<forall>q\<in>vm_pages pgdir s \<union> set (p # ks). n \<notin> page q) \<longrightarrow> kmemory s2 n = kmemory s n" .
  have d: "distinct ps" using ka.pages_good vm_okD(1) [OF Suc.prems(1)] by blast
  have run: "allocuvm_loop kend pgdir oldsz a newsz s = allocuvm_loop kend pgdir oldsz (a + 4096) newsz s2"
    using lt G(1-3) by (subst allocuvm_loop.simps) simp
  have "\<exists>s' us ks' ps'. allocuvm_loop kend pgdir oldsz (a + 4096) newsz s2 = Ret newsz s' \<and> vm_ok kend pgdir s' ps' \<and>
    length us = k \<and> distinct us \<and> set us \<inter> (vm_pages pgdir s' \<union> set ps') = {} \<and>
    set ps2 = set us \<union> set ks' \<union> set ps' \<and> vm_pages pgdir s' = vm_pages pgdir s2 \<union> set ks' \<and>
    (\<forall>u\<in>set us. kgood kend u \<and> (\<forall>n\<in>page u. kmemory s' n = 0)) \<and>
    (\<forall>i x. i < k \<longrightarrow> unat x div 4096 = (a + 4096) div 4096 + i \<longrightarrow> vmap pgdir s' x = V2P (us ! i) OR (PTE_W OR PTE_U) OR PTE_P) \<and>
    (\<forall>x. \<not> (a + 4096 \<le> unat x \<and> unat x < a + 4096 + 4096 * k) \<longrightarrow> vmap pgdir s' x = vmap pgdir s2 x) \<and>
    (\<forall>n. (\<forall>q\<in>vm_pages pgdir s2 \<union> set ps2. n \<notin> page q) \<longrightarrow> kmemory s' n = kmemory s2 n)"
  proof (rule Suc.IH [OF G(6)])
    show "vmap pgdir s2 x AND PTE_P = 0" if "a + 4096 \<le> unat x" "unat x < a + 4096 + 4096 * k" for x
      using that Suc.prems(7) [of x] G(10) pg [of x] by simp
    show "2 * k \<le> length ps2" using Suc.prems(6) G(4,5) by simp
  qed (use Suc.prems in auto)
  then obtain s' us ks' ps' where I: "allocuvm_loop kend pgdir oldsz (a + 4096) newsz s2 = Ret newsz s'" "vm_ok kend pgdir s' ps'"
    "length us = k" "distinct us" "set us \<inter> (vm_pages pgdir s' \<union> set ps') = {}"
    "set ps2 = set us \<union> set ks' \<union> set ps'" "vm_pages pgdir s' = vm_pages pgdir s2 \<union> set ks'"
    "\<forall>u\<in>set us. kgood kend u \<and> (\<forall>n\<in>page u. kmemory s' n = 0)"
    "\<forall>i x. i < k \<longrightarrow> unat x div 4096 = (a + 4096) div 4096 + i \<longrightarrow> vmap pgdir s' x = V2P (us ! i) OR (PTE_W OR PTE_U) OR PTE_P"
    "\<forall>x. \<not> (a + 4096 \<le> unat x \<and> unat x < a + 4096 + 4096 * k) \<longrightarrow> vmap pgdir s' x = vmap pgdir s2 x"
    "\<forall>n. (\<forall>q\<in>vm_pages pgdir s2 \<union> set ps2. n \<notin> page q) \<longrightarrow> kmemory s' n = kmemory s2 n" by blast
  have p2: "p \<notin> set ps2" "p \<notin> set ks" using d G(4) by auto
  have gq: "kgood kend q \<and> q \<noteq> p" if "q \<in> vm_pages pgdir s2 \<union> set ps2" for q
    using that G(6,9) p2(1) ka.pages_good [OF vm_okD(1) [OF G(6)]] by (auto simp: vm_ok_def)
  have zero: "kmemory s' n = 0" if "n \<in> page p" for n
  proof -
    have "n \<notin> page q" if "q \<in> vm_pages pgdir s2 \<union> set ps2" for q
      using page_disjoint [of q p] gq [OF that] kgood_page G(8) \<open>n \<in> page p\<close> by blast
    then show ?thesis using I(11) G(11) that by simp
  qed
  have map: "vmap pgdir s' x = V2P ((p # us) ! i) OR (PTE_W OR PTE_U) OR PTE_P"
    if "i < Suc k" "unat x div 4096 = a div 4096 + i" for i x
  proof (cases i)
    case 0
    then have "a \<le> unat x \<and> unat x < a + 4096"
      using that(2) Suc.prems(2) div_mult_mod_eq [of "unat x" 4096] div_mult_mod_eq [of a 4096] mod_less_divisor [of 4096 "unat x"]
      by linarith
    then show ?thesis using I(10) G(10) pg [of x] 0 by simp
  next
    case (Suc j)
    then show ?thesis using I(9) that Suc.prems(2) by auto
  qed
  have out: "vmap pgdir s' x = vmap pgdir s x" if "\<not> (a \<le> unat x \<and> unat x < a + 4096 * Suc k)" for x
    using that I(10) G(10) pg [of x] by auto
  have mem: "kmemory s' n = kmemory s n" if "\<forall>q\<in>vm_pages pgdir s \<union> set ps. n \<notin> page q" for n
    using that I(11) G(12) G(4,7) by auto
  have un: "set (p # us) \<inter> (vm_pages pgdir s' \<union> set ps') = {}" using I(5-7) G(9) p2(1) by auto
  have set: "set ps = set (p # us) \<union> set (ks @ ks') \<union> set ps'" using I(6) G(4) by auto
  have vp: "vm_pages pgdir s' = vm_pages pgdir s \<union> set (ks @ ks')" using I(7) G(7) by auto
  have dis: "length (p # us) = Suc k" "distinct (p # us)" using I(3,4,6) p2(1) by auto
  have zeros: "\<forall>u\<in>set (p # us). kgood kend u \<and> (\<forall>n\<in>page u. kmemory s' n = 0)" using I(8) G(8) zero by simp
  have map': "\<forall>i x. i < Suc k \<longrightarrow> unat x div 4096 = a div 4096 + i \<longrightarrow> vmap pgdir s' x = V2P ((p # us) ! i) OR (PTE_W OR PTE_U) OR PTE_P"
    using map by blast
  have out': "\<forall>x. \<not> (a \<le> unat x \<and> unat x < a + 4096 * Suc k) \<longrightarrow> vmap pgdir s' x = vmap pgdir s x" using out by blast
  have mem': "\<forall>n. (\<forall>q\<in>vm_pages pgdir s \<union> set ps. n \<notin> page q) \<longrightarrow> kmemory s' n = kmemory s n" using mem by blast
  show ?case
    by (rule exI [of _ s'], rule exI [of _ "p # us"], rule exI [of _ "ks @ ks'"], rule exI [of _ ps'],
        intro conjI run [unfolded I(1)] I(2) dis un set vp zeros map' out' mem')
qed

text \<open>What a process reads at a user address: the byte its page table leads to.\<close>

definition ubyte :: "u32 \<Rightarrow> kmem \<Rightarrow> u32 \<Rightarrow> byte" where
  "ubyte pgdir s x = kmemory s (unat (P2V (PTE_ADDR (vmap pgdir s x))) + unat x mod 4096)"

lemma user_pte:
  assumes "kgood kend p"
  shows "P2V (PTE_ADDR (V2P p OR (PTE_W OR PTE_U) OR PTE_P)) = p" and "PTE_FLAGS (V2P p OR (PTE_W OR PTE_U) OR PTE_P) = 7"
proof -
  have "page_aligned (V2P p)" using kgood_page [OF assms] by (simp add: aligned_V2P)
  moreover have "V2P p OR (PTE_W OR PTE_U) OR PTE_P = V2P p OR 7" by (simp add: PTE_P_def PTE_W_def PTE_U_def or.assoc)
  ultimately show "P2V (PTE_ADDR (V2P p OR (PTE_W OR PTE_U) OR PTE_P)) = p" "PTE_FLAGS (V2P p OR (PTE_W OR PTE_U) OR PTE_P) = 7"
    using PTE_or [of "V2P p" 7] by (simp_all add: P2V_def V2P_def)
qed

subsection \<open>Copying to user memory\<close>

definition uframe :: "u32 \<Rightarrow> kmem \<Rightarrow> u32 \<Rightarrow> u32" where
  "uframe pgdir s x = P2V (PTE_ADDR (vmap pgdir s x))"

text \<open>
  The addresses \<open>U\<close> are user memory: present, accessible to the user, in pages that are neither
  free nor page tables, and no two pages of \<open>U\<close> share a frame.
\<close>

definition user_mem :: "u32 \<Rightarrow> u32 \<Rightarrow> kmem \<Rightarrow> u32 list \<Rightarrow> u32 set \<Rightarrow> bool" where
  "user_mem kend pgdir s ps U \<longleftrightarrow>
     (\<forall>x\<in>U. bit (vmap pgdir s x) 0 \<and> bit (vmap pgdir s x) 2 \<and> kgood kend (uframe pgdir s x) \<and>
        uframe pgdir s x \<notin> vm_pages pgdir s \<union> set ps) \<and>
     (\<forall>x\<in>U. \<forall>y\<in>U. uframe pgdir s x = uframe pgdir s y \<longrightarrow> PGROUNDDOWN x = PGROUNDDOWN y)"

lemma user_memD:
  assumes "user_mem kend pgdir s ps U" and "x \<in> U"
  shows "bit (vmap pgdir s x) 0" and "bit (vmap pgdir s x) 2" and "kgood kend (uframe pgdir s x)"
    and "page_aligned (uframe pgdir s x)" and "uframe pgdir s x \<notin> vm_pages pgdir s" and "uframe pgdir s x \<notin> set ps"
    and "y \<in> U \<Longrightarrow> uframe pgdir s x = uframe pgdir s y \<Longrightarrow> PGROUNDDOWN x = PGROUNDDOWN y"
  using assms kgood_page unfolding user_mem_def by blast+

lemma uva2ka_vmap:
  assumes "vm_ok kend pgdir s ps" and "vmap pgdir s x \<noteq> 0"
  shows "uva2ka cur pgdir x s = Ret (if bit (vmap pgdir s x) 0 \<and> bit (vmap pgdir s x) 2 then uframe pgdir s x else 0) s"
proof -
  have p: "pde_p pgdir (PDX x) s" using assms(2) by (auto simp: vmap_def split: if_splits)
  have "pgtab pgdir (PDX x) s + 4 * PTX x \<noteq> 0"
    using vm_okD(5) [OF assms(1) PDX_bound p] good_nonzero [OF _ PTX_bound] by blast
  then show ?thesis using p by (auto simp: uva2ka_def walk_look PTE_P_bit PTE_U_bit uframe_def vmap_def)
qed

lemma ubyte_uframe: "ubyte pgdir s x = kmemory s (unat (uframe pgdir s x) + unat x mod 4096)"
  by (simp add: ubyte_def uframe_def)

lemma same_base:
  fixes x v b xm vm l :: nat
  assumes "x = b + xm" and "v = b + vm"
  shows "v \<le> x \<longleftrightarrow> vm \<le> xm" and "x < v + l \<longleftrightarrow> xm < vm + l" and "x - v = xm - vm"
  using assms by auto

lemma outside_page:
  fixes x v b vm l :: nat
  assumes "v = b + vm" and "vm + l \<le> 4096" and "v \<le> x" and "x < v + l"
  shows "b \<le> x \<and> x < b + 4096"
  using assms by auto

text \<open>Storing bytes in one user page.\<close>

lemma user_put:
  assumes ok: "vm_ok kend pgdir s ps" and um: "user_mem kend pgdir s ps U" and va: "va \<in> U"
    and fit: "unat va mod 4096 + length bs \<le> 4096"
  defines "s' \<equiv> kmemput (uframe pgdir s va + (va - PGROUNDDOWN va)) bs s"
  shows "vm_ok kend pgdir s' ps" and "vmap pgdir s' x = vmap pgdir s x" and "user_mem kend pgdir s' ps U"
    and "x \<in> U \<Longrightarrow> ubyte pgdir s' x =
      (if unat va \<le> unat x \<and> unat x < unat va + length bs then bs ! (unat x - unat va) else ubyte pgdir s x)"
proof -
  let ?f = "uframe pgdir s va"
  have f: "kgood kend ?f" "?f \<notin> vm_pages pgdir s" "?f \<notin> set ps" "page_aligned ?f"
    using user_memD [OF um va] by blast+
  have off: "unat (va - PGROUNDDOWN va) = unat va mod 4096" by (rule unat_page_off)
  have addr: "unat (?f + (va - PGROUNDDOWN va)) = unat ?f + unat va mod 4096"
    using page_aligned_room [OF f(4)] off mod_less_divisor [of 4096 "unat va"] by (subst unat_plus_small) (simp_all add: off)
  have m: "kmemory s' n = (if unat ?f + unat va mod 4096 \<le> n \<and> n < unat ?f + unat va mod 4096 + length bs
      then bs ! (n - (unat ?f + unat va mod 4096)) else kmemory s n)" for n
    by (simp add: s'_def kmemput_def addr)
  have out: "kmemory s' n = kmemory s n" if "n \<notin> page ?f" for n using that fit by (auto simp: m page_def)
  have g: "kgood kend q \<and> q \<notin> set ps" if "q \<in> vm_pages pgdir s" for q using ok that by (auto simp: vm_ok_def)
  have eq: "kmemory s' n = kmemory s n" if "q \<in> vm_pages pgdir s" "n \<in> page q" for q n
  proof (rule out)
    have "q \<noteq> ?f" using f(2) that(1) by blast
    then show "n \<notin> page ?f" using page_disjoint [of q ?f] kgood_page [of kend q] g [OF that(1)] f(4) that(2) by blast
  qed
  have v: "vmap pgdir s' x = vmap pgdir s x" and pg: "vm_pages pgdir s' = vm_pages pgdir s" for x
    using vm_cong(1,2) [OF ok] eq by blast+
  then show "vmap pgdir s' x = vmap pgdir s x" by blast
  have "kpages kend s' ps"
    unfolding s'_def kmemput_def
    by (rule ka.frame_page [OF vm_okD(1) [OF ok] f(1,3)]) (use out in \<open>simp add: s'_def kmemput_def\<close>)
  then show "vm_ok kend pgdir s' ps" by (intro vm_cong(3) [OF ok]) (use eq g in auto)
  have uf: "uframe pgdir s' y = uframe pgdir s y" for y by (simp add: uframe_def v)
  have vb: "unat va = unat (PGROUNDDOWN va) + unat va mod 4096" by (simp add: unat_PGROUNDDOWN)
  show "user_mem kend pgdir s' ps U" using um unfolding user_mem_def v pg uf .
  show "ubyte pgdir s' x = (if unat va \<le> unat x \<and> unat x < unat va + length bs then bs ! (unat x - unat va) else ubyte pgdir s x)"
    if x: "x \<in> U"
  proof (cases "PGROUNDDOWN x = PGROUNDDOWN va")
    case True
    have fx: "uframe pgdir s x = ?f" unfolding uframe_def vmap_PGROUNDDOWN [OF True] ..
    have xo: "unat x = unat (PGROUNDDOWN va) + unat x mod 4096"
      unfolding True [symmetric] by (simp add: unat_PGROUNDDOWN)
    note e = same_base [OF xo vb]
    show ?thesis unfolding e ubyte_uframe uf fx m by simp
  next
    case False
    then have "uframe pgdir s x \<noteq> ?f" using user_memD(7) [OF um x va] by blast
    moreover note user_memD(4) [OF um x]
    moreover have "unat (uframe pgdir s x) + unat x mod 4096 \<in> page (uframe pgdir s x)" by (simp add: page_def)
    ultimately have 1: "ubyte pgdir s' x = ubyte pgdir s x" using page_disjoint f(4) by (auto simp: ubyte_uframe uf intro!: out)
    have "\<not> (unat va \<le> unat x \<and> unat x < unat va + length bs)"
      using outside_page [OF vb fit] False page_iff [OF PGROUNDDOWN_aligned, of x va] by blast
    then show ?thesis using 1 by auto
  qed
qed

lemma next_arith:
  fixes v b m k N :: nat
  assumes "v = b + m" and "m < 4096" and "v + k \<le> N" and "4096 - m < k"
  shows "b + 4096 < N" and "b + 4096 = v + (4096 - m)"
  using assms by linarith+

lemma next_page:
  assumes "unat va + k \<le> 2 ^ 32" and "4096 - unat va mod 4096 < k"
  shows "unat (PGROUNDDOWN va + PGSIZE) = unat va + (4096 - unat va mod 4096)"
proof -
  have "unat va = unat (PGROUNDDOWN va) + unat va mod 4096" and "unat va mod 4096 < 4096" by (simp_all add: unat_PGROUNDDOWN)
  note N = next_arith [OF this assms]
  have p: "unat PGSIZE = 4096" by (simp add: PGSIZE_def)
  have "unat (PGROUNDDOWN va + PGSIZE) = unat (PGROUNDDOWN va) + 4096"
    using unat_plus_small [of "PGROUNDDOWN va" PGSIZE, unfolded p, OF N(1)] .
  then show ?thesis using N(2) by (rule trans)
qed

lemma copyout_ok:
  assumes "vm_ok kend pgdir s ps" and "user_mem kend pgdir s ps U" and "unat va + length bs \<le> 2 ^ 32"
    and "\<And>x. unat va \<le> unat x \<Longrightarrow> unat x < unat va + length bs \<Longrightarrow> x \<in> U"
  shows "\<exists>s'. copyout cur pgdir va bs s = Ret 0 s' \<and> vm_ok kend pgdir s' ps \<and> (\<forall>x. vmap pgdir s' x = vmap pgdir s x) \<and>
    (\<forall>x\<in>U. ubyte pgdir s' x =
      (if unat va \<le> unat x \<and> unat x < unat va + length bs then bs ! (unat x - unat va) else ubyte pgdir s x))"
  using assms
proof (induction "length bs" arbitrary: va bs s rule: less_induct)
  case less
  show ?case
  proof (cases "bs = []")
    case True
    then show ?thesis using less.prems(1) by (intro exI [of _ s]) (subst copyout.simps, auto)
  next
    case False
    let ?n = "min (length bs) (4096 - unat va mod 4096)" and ?va0 = "PGROUNDDOWN va"
    have m: "unat va mod 4096 < 4096" by simp
    have n: "0 < ?n" "unat va mod 4096 + length (take ?n bs) \<le> 4096" using False m by auto
    have va: "va \<in> U" using less.prems(4) [of va] False by simp
    have v0: "vmap pgdir s ?va0 = vmap pgdir s va" by (intro vmap_PGROUNDDOWN PGROUNDDOWN_of_aligned) simp
    have bits: "bit (vmap pgdir s va) 0" "bit (vmap pgdir s va) 2" "kgood kend (uframe pgdir s va)"
      using user_memD [OF less.prems(2) va] by blast+
    then have nz: "vmap pgdir s ?va0 \<noteq> 0" "uframe pgdir s va \<noteq> 0" using v0 kgood_page by auto
    have ka: "uva2ka cur pgdir ?va0 s = Ret (uframe pgdir s va) s"
      using uva2ka_vmap [OF less.prems(1) nz(1)] bits v0 by (simp add: uframe_def)
    have un: "unat (PGSIZE - (va - ?va0)) = 4096 - unat va mod 4096"
      using unat_page_off [of va] by (subst unat_sub) (simp_all add: word_le_nat_alt PGSIZE_def)
    note P = user_put [OF less.prems(1,2) va n(2)]
    let ?s1 = "kmemput (uframe pgdir s va + (va - ?va0)) (take ?n bs) s"
    have run: "copyout cur pgdir va bs s = copyout cur pgdir (?va0 + PGSIZE) (drop ?n bs) ?s1"
      using False by (subst copyout.simps) (simp add: Let_def ka nz un)
    show ?thesis
    proof (cases "length bs \<le> 4096 - unat va mod 4096")
      case True
      then have e: "take ?n bs = bs" "drop ?n bs = []" by simp_all
      have "copyout cur pgdir va bs s = Ret 0 ?s1" unfolding run e(2) by (subst copyout.simps) simp
      then show ?thesis using P(1,2,4) unfolding e(1) by blast
    next
      case big: False
      then have nn: "?n = 4096 - unat va mod 4096" by simp
      have kb: "4096 - unat va mod 4096 < length bs" using big by simp
      note N = next_page [OF less.prems(3) kb]
      have len: "unat (?va0 + PGSIZE) + length (drop ?n bs) = unat va + length bs" using N(1) nn kb by simp
      have "\<exists>s'. copyout cur pgdir (?va0 + PGSIZE) (drop ?n bs) ?s1 = Ret 0 s' \<and> vm_ok kend pgdir s' ps \<and>
        (\<forall>x. vmap pgdir s' x = vmap pgdir ?s1 x) \<and>
        (\<forall>x\<in>U. ubyte pgdir s' x = (if unat (?va0 + PGSIZE) \<le> unat x \<and> unat x < unat (?va0 + PGSIZE) + length (drop ?n bs)
          then drop ?n bs ! (unat x - unat (?va0 + PGSIZE)) else ubyte pgdir ?s1 x))"
      proof (rule less.hyps [OF _ P(1) P(3)])
        show "length (drop ?n bs) < length bs" using n(1) False by simp
        show "unat (?va0 + PGSIZE) + length (drop ?n bs) \<le> 2 ^ 32" using less.prems(3) len by simp
        show "x \<in> U" if "unat (?va0 + PGSIZE) \<le> unat x" "unat x < unat (?va0 + PGSIZE) + length (drop ?n bs)" for x
          using that less.prems(4) [of x] len N(1) by simp
      qed
      then obtain s' where I: "copyout cur pgdir (?va0 + PGSIZE) (drop ?n bs) ?s1 = Ret 0 s'" "vm_ok kend pgdir s' ps"
        "\<forall>x. vmap pgdir s' x = vmap pgdir ?s1 x"
        "\<forall>x\<in>U. ubyte pgdir s' x = (if unat (?va0 + PGSIZE) \<le> unat x \<and> unat x < unat (?va0 + PGSIZE) + length (drop ?n bs)
          then drop ?n bs ! (unat x - unat (?va0 + PGSIZE)) else ubyte pgdir ?s1 x)" by blast
      have "ubyte pgdir s' x = (if unat va \<le> unat x \<and> unat x < unat va + length bs then bs ! (unat x - unat va) else ubyte pgdir s x)"
        if x: "x \<in> U" for x
      proof (cases "unat va + ?n \<le> unat x \<and> unat x < unat va + length bs")
        case True
        then have "ubyte pgdir s' x = drop ?n bs ! (unat x - (unat va + ?n))" using I(4) x len N(1) nn by simp
        also have "\<dots> = bs ! (?n + (unat x - (unat va + ?n)))" by (intro nth_drop) simp
        also have "?n + (unat x - (unat va + ?n)) = unat x - unat va" using True by arith
        finally show ?thesis using True by simp
      next
        case F: False
        then have "ubyte pgdir s' x = ubyte pgdir ?s1 x" using I(4) x len N(1) nn by auto
        also have "\<dots> = (if unat va \<le> unat x \<and> unat x < unat va + ?n then take ?n bs ! (unat x - unat va) else ubyte pgdir s x)"
          using P(4) [OF x] by simp
        also have "\<dots> = (if unat va \<le> unat x \<and> unat x < unat va + length bs then bs ! (unat x - unat va) else ubyte pgdir s x)"
        proof (cases "unat va \<le> unat x \<and> unat x < unat va + ?n")
          case True
          then have "take ?n bs ! (unat x - unat va) = bs ! (unat x - unat va)" by (intro nth_take) arith
          moreover have "unat x < unat va + length bs" using True by arith
          ultimately show ?thesis using True by simp
        qed (use F in auto)
        finally show ?thesis .
      qed
      moreover have "\<forall>x. vmap pgdir s' x = vmap pgdir s x" using I(3) P(2) by metis
      ultimately show ?thesis unfolding run using I(1,2) by blast
    qed
  qed
qed

subsection \<open>A fresh directory\<close>

lemma empty_dir:
  assumes "kpages kend s (p # ps)"
  obtains s1 where "kalloc s = (p, s1)" and "vm_ok kend p (kmemset p 0 (unat PGSIZE) s1) ps"
    and "\<forall>x. vmap p (kmemset p 0 (unat PGSIZE) s1) x = 0" and "vm_pages p (kmemset p 0 (unat PGSIZE) s1) = {p}"
proof -
  obtain s1 where s1: "kalloc s = (p, s1)" "kpages kend s1 ps" using ka.alloc_top [OF assms] by blast
  have g: "kgood kend p" "p \<notin> set ps" "page_aligned p" using ka.pages_good [OF assms] kgood_page by auto
  let ?s = "kmemset p 0 (unat PGSIZE) s1"
  have m: "kmemory ?s n = 0" if "n \<in> page p" for n unfolding kmemset_page [OF g(1)] using that by simp
  have z: "kload (p + 4 * i) ?s = 0" if "unat i < 1024" for i
    unfolding kload_def using entry_addr(2,3) [OF g(3) that] m by (intro load32_zero) auto
  have np: "\<not> pde_p p i ?s" if "unat i < 1024" for i using z [OF that] by (simp add: pde_p_def)
  then have "vm_pages p ?s = {p}" "\<forall>x. vmap p ?s x = 0" by (auto simp: vm_pages_def vmap_def)
  moreover have "kpages kend ?s ps" by (rule kpages_kmemset [OF s1(2) g(1,2)])
  ultimately have "vm_ok kend p ?s ps" using g np by (auto simp: vm_ok_def)
  then show thesis using \<open>vm_pages p ?s = {p}\<close> \<open>\<forall>x. vmap p ?s x = 0\<close> by (intro that [OF s1(1)])
qed

text \<open>Six free pages, of which the highest becomes a directory.\<close>

definition ex_top :: u32 where "ex_top = 0x80405000"

lemma ex_dir:
  obtains s ps where "vm_ok 0x80150000 ex_top s ps" and "\<forall>x. vmap ex_top s x = 0" and "length ps = 5"
proof -
  have "kpages 0x80150000 kmem_boot []" by (simp add: kpages_def kmem_boot_def)
  moreover have "page_aligned 0x80400000" by (simp add: page_aligned_def)
  ultimately obtain s where "kpages 0x80150000 s (rev_pages 0x80400000 6)"
    using freerange_loop_ok [of "0x80150000" "0x80400000" 6 "0x80406000" kmem_boot "[]"] by auto
  moreover have "rev_pages 0x80400000 6 = [ex_top, 0x80404000, 0x80403000, 0x80402000, 0x80401000, 0x80400000]"
    by code_simp
  ultimately have "kpages 0x80150000 s (ex_top # [0x80404000, 0x80403000, 0x80402000, 0x80401000, 0x80400000])" by simp
  from empty_dir [OF this] show thesis using that [of _ "[0x80404000, 0x80403000, 0x80402000, 0x80401000, 0x80400000]"] by auto
qed

subsection \<open>Properties\<close>

lemma user_page_zero:
  assumes "vmap pgdir s x = V2P u OR (PTE_W OR PTE_U) OR PTE_P" and "kgood kend u" and "\<forall>n\<in>page u. kmemory s n = 0"
  shows "P2V (PTE_ADDR (vmap pgdir s x)) = u \<and> PTE_FLAGS (vmap pgdir s x) = PTE_P OR PTE_W OR PTE_U \<and> ubyte pgdir s x = 0"
proof -
  have "unat u + unat x mod 4096 \<in> page u" by (simp add: page_def)
  then have "ubyte pgdir s x = 0" using assms(3) by (simp add: ubyte_def assms(1) user_pte [OF assms(2)])
  moreover have "(7 :: u32) = PTE_P OR PTE_W OR PTE_U" by (simp add: PTE_P_def PTE_W_def PTE_U_def)
  ultimately show ?thesis unfolding assms(1) user_pte [OF assms(2)] by simp
qed

text \<open>
  C8: \<open>mappages\<close> on pages that are not mapped succeeds when there are enough free pages for the page
  tables it needs, and fails only when there are not. On success every address of the range leads to
  the corresponding physical address with the given permissions; the addresses outside the pages of
  the range lead where they did before, the tables stay well-formed, and nothing but them is written.
\<close>

theorem mappages_maps:
  assumes "vm_ok kend pgdir s ps" and "0 < unat sz" and "unat va + unat sz \<le> 2 ^ 32"
    and "\<And>x. unat va div 4096 \<le> unat x div 4096 \<Longrightarrow> unat x div 4096 \<le> (unat va + unat sz - 1) div 4096 \<Longrightarrow>
      vmap pgdir s x AND PTE_P = 0"
  shows "\<exists>r s' ks ps'. mappages pgdir va sz pa perm s = Ret r s' \<and> vm_step kend pgdir s ps ks s' ps' \<and>
    (r = 0 \<or> r = -1 \<and> length ps \<le> (unat va + unat sz - 1) div 4096 - unat va div 4096) \<and>
    (\<forall>x. \<not> (unat va div 4096 \<le> unat x div 4096 \<and> unat x div 4096 \<le> (unat va + unat sz - 1) div 4096) \<longrightarrow>
      vmap pgdir s' x = vmap pgdir s x) \<and>
    (r = 0 \<longrightarrow> (\<forall>x. unat va div 4096 \<le> unat x div 4096 \<and> unat x div 4096 \<le> (unat va + unat sz - 1) div 4096 \<longrightarrow>
      vmap pgdir s' x = (pa + (PGROUNDDOWN x - PGROUNDDOWN va)) OR perm OR PTE_P))"
proof -
  let ?n = "(unat va + unat sz - 1) div 4096 - unat va div 4096"
  have le: "unat va div 4096 \<le> (unat va + unat sz - 1) div 4096" using assms(2) by (intro div_le_mono) simp
  have r: "in_range (PGROUNDDOWN va) (Suc ?n) x \<longleftrightarrow>
      unat va div 4096 \<le> unat x div 4096 \<and> unat x div 4096 \<le> (unat va + unat sz - 1) div 4096" for x
  proof -
    have "in_range (PGROUNDDOWN va) (Suc ?n) x \<longleftrightarrow>
        unat va div 4096 * 4096 \<le> unat x \<and> unat x < ((unat va + unat sz - 1) div 4096 + 1) * 4096"
      using le by (auto simp: in_range_def unat_PGROUNDDOWN algebra_simps)
    also have "\<dots> \<longleftrightarrow> unat va div 4096 \<le> unat x div 4096 \<and> unat x div 4096 \<le> (unat va + unat sz - 1) div 4096"
      using div_less_iff_less_mult [of 4096 "unat x" "(unat va + unat sz - 1) div 4096 + 1"]
        less_eq_div_iff_mult_less_eq [of 4096 "unat va div 4096" "unat x"] by auto
    finally show ?thesis .
  qed
  show ?thesis using mappages_ok [OF assms(1-3), unfolded r, OF assms(4), of pa perm] by blast
qed

text \<open>
  C15: \<open>allocuvm\<close>, when two free pages are left for each page to add, returns the new size; every
  page between the old and the new size is then mapped, writable by the user, to a page of its own
  that holds zeros; the mapping of every other address, and all memory but the pages taken from the
  free list and the page tables, is as before.
\<close>

theorem allocuvm_grows:
  assumes "vm_ok kend pgdir s ps" and "oldsz \<le> newsz" and "newsz < KERNBASE"
    and "2 * ((unat newsz + 4095) div 4096 - (unat oldsz + 4095) div 4096) \<le> length ps"
    and "\<And>x. unat (PGROUNDUP oldsz) \<le> unat x \<Longrightarrow> unat x < unat (PGROUNDUP newsz) \<Longrightarrow> vmap pgdir s x AND PTE_P = 0"
  shows "\<exists>s' us ps'. allocuvm kend pgdir oldsz newsz s = Ret newsz s' \<and> vm_ok kend pgdir s' ps' \<and> distinct us \<and>
    length us = (unat newsz + 4095) div 4096 - (unat oldsz + 4095) div 4096 \<and> set us \<subseteq> set ps \<and> set us \<inter> (vm_pages pgdir s' \<union> set ps') = {} \<and>
    (\<forall>x. unat (PGROUNDUP oldsz) \<le> unat x \<and> unat x < unat (PGROUNDUP newsz) \<longrightarrow>
      P2V (PTE_ADDR (vmap pgdir s' x)) = us ! ((unat x - unat (PGROUNDUP oldsz)) div 4096) \<and>
      PTE_FLAGS (vmap pgdir s' x) = PTE_P OR PTE_W OR PTE_U \<and> ubyte pgdir s' x = 0) \<and>
    (\<forall>x. \<not> (unat (PGROUNDUP oldsz) \<le> unat x \<and> unat x < unat (PGROUNDUP newsz)) \<longrightarrow> vmap pgdir s' x = vmap pgdir s x) \<and>
    (\<forall>n. (\<forall>q\<in>vm_pages pgdir s \<union> set ps. n \<notin> page q) \<longrightarrow> kmemory s' n = kmemory s n)"
proof -
  have b: "unat oldsz \<le> unat newsz" "unat newsz < 2147483648"
    using assms(2,3) by (simp_all add: word_le_nat_alt word_less_nat_alt KERNBASE_def)
  let ?o = "(unat oldsz + 4095) div 4096" and ?n = "(unat newsz + 4095) div 4096"
  have O: "unat (PGROUNDUP oldsz) = ?o * 4096" and N: "unat (PGROUNDUP newsz) = ?n * 4096"
    using b by (auto intro!: unat_PGROUNDUP)
  let ?k = "?n - ?o"
  have le: "?o \<le> ?n" using b(1) by (intro div_le_mono) simp
  then have on: "?o * 4096 + 4096 * ?k = ?n * 4096" by (simp add: diff_mult_distrib2)
  have nb: "unat newsz \<le> ?n * 4096" "?n * 4096 < unat newsz + 4096"
    using div_mult_mod_eq [of "unat newsz + 4095" 4096] mod_less_divisor [of 4096 "unat newsz + 4095"] by linarith+
  have "\<exists>s' us ks ps'. allocuvm_loop kend pgdir oldsz (?o * 4096) newsz s = Ret newsz s' \<and> vm_ok kend pgdir s' ps' \<and>
    length us = ?k \<and> distinct us \<and> set us \<inter> (vm_pages pgdir s' \<union> set ps') = {} \<and>
    set ps = set us \<union> set ks \<union> set ps' \<and> vm_pages pgdir s' = vm_pages pgdir s \<union> set ks \<and>
    (\<forall>u\<in>set us. kgood kend u \<and> (\<forall>n\<in>page u. kmemory s' n = 0)) \<and>
    (\<forall>i x. i < ?k \<longrightarrow> unat x div 4096 = ?o * 4096 div 4096 + i \<longrightarrow> vmap pgdir s' x = V2P (us ! i) OR (PTE_W OR PTE_U) OR PTE_P) \<and>
    (\<forall>x. \<not> (?o * 4096 \<le> unat x \<and> unat x < ?o * 4096 + 4096 * ?k) \<longrightarrow> vmap pgdir s' x = vmap pgdir s x) \<and>
    (\<forall>n. (\<forall>q\<in>vm_pages pgdir s \<union> set ps. n \<notin> page q) \<longrightarrow> kmemory s' n = kmemory s n)"
    by (rule allocuvm_loop_ok [OF assms(1)]) (use on nb b assms(4,5) O N in simp_all)
  then obtain s' us ks ps' where L: "allocuvm_loop kend pgdir oldsz (?o * 4096) newsz s = Ret newsz s'" "vm_ok kend pgdir s' ps'"
    "length us = ?k" "distinct us" "set us \<inter> (vm_pages pgdir s' \<union> set ps') = {}" "set ps = set us \<union> set ks \<union> set ps'"
    "\<forall>u\<in>set us. kgood kend u \<and> (\<forall>n\<in>page u. kmemory s' n = 0)"
    "\<forall>i x. i < ?k \<longrightarrow> unat x div 4096 = ?o * 4096 div 4096 + i \<longrightarrow> vmap pgdir s' x = V2P (us ! i) OR (PTE_W OR PTE_U) OR PTE_P"
    "\<forall>x. \<not> (?o * 4096 \<le> unat x \<and> unat x < ?o * 4096 + 4096 * ?k) \<longrightarrow> vmap pgdir s' x = vmap pgdir s x"
    "\<forall>n. (\<forall>q\<in>vm_pages pgdir s \<union> set ps. n \<notin> page q) \<longrightarrow> kmemory s' n = kmemory s n" by blast
  have run: "allocuvm kend pgdir oldsz newsz s = Ret newsz s'"
    using L(1) O leD [OF assms(2)] assms(3) [unfolded not_le [symmetric]] by (simp add: allocuvm_def)
  have new: "P2V (PTE_ADDR (vmap pgdir s' x)) = us ! ((unat x - ?o * 4096) div 4096) \<and>
      PTE_FLAGS (vmap pgdir s' x) = PTE_P OR PTE_W OR PTE_U \<and> ubyte pgdir s' x = 0"
    if x: "?o * 4096 \<le> unat x" "unat x < ?n * 4096" for x
  proof -
    let ?i = "(unat x - ?o * 4096) div 4096"
    have d: "unat x div 4096 = ?o + ?i"
      using div_mult_self2 [of 4096 "unat x - ?o * 4096" ?o] x(1) by (simp add: mult.commute)
    have i: "?i < ?k" using x on by (simp add: div_less_iff_less_mult less_diff_conv2) 
    have v: "vmap pgdir s' x = V2P (us ! ?i) OR (PTE_W OR PTE_U) OR PTE_P" using L(8) i d by simp
    have u: "us ! ?i \<in> set us" using i L(3) by simp
    then have g: "kgood kend (us ! ?i)" using L(7) by blast
    show ?thesis using user_page_zero [OF v g] L(7) u by blast
  qed
  have us: "set us \<subseteq> set ps" using L(6) by blast
  show ?thesis
    unfolding O N
    by (rule exI [of _ s'], rule exI [of _ us], rule exI [of _ ps'])
      (use run L(2,3,4,5) us new L(9) [unfolded on] L(10) in blast)
qed

text \<open>
  C16: \<open>copyout\<close> to user memory that is mapped returns 0, and the process then reads the bytes at
  those addresses; every other byte of its memory, and its mapping, is as before.
\<close>

theorem copyout_reads_back:
  assumes "vm_ok kend pgdir s ps" and "user_mem kend pgdir s ps U" and "unat va + length bs \<le> 2 ^ 32"
    and "\<And>x. unat va \<le> unat x \<Longrightarrow> unat x < unat va + length bs \<Longrightarrow> x \<in> U"
  shows "\<exists>s'. copyout cur pgdir va bs s = Ret 0 s' \<and> vm_ok kend pgdir s' ps \<and> (\<forall>x. vmap pgdir s' x = vmap pgdir s x) \<and>
    (\<forall>x. x \<in> U \<longrightarrow> ubyte pgdir s' x =
      (if unat va \<le> unat x \<and> unat x < unat va + length bs then bs ! (unat x - unat va) else ubyte pgdir s x))"
  using copyout_ok [OF assms] by blast

theorem mappages_maps_witness:
  "\<exists>s s' ps ks ps'. vm_ok 0x80150000 ex_top s ps \<and> mappages ex_top 0x1000 0x2000 0x5000 PTE_W s = Ret 0 s' \<and>
    vm_step 0x80150000 ex_top s ps ks s' ps' \<and> vmap ex_top s' 0x2ABC = 0x6003"
proof -
  obtain s ps where s: "vm_ok 0x80150000 ex_top s ps" "\<forall>x. vmap ex_top s x = 0" "length ps = 5" by (rule ex_dir)
  obtain r s' ks ps' where r: "mappages ex_top 0x1000 0x2000 0x5000 PTE_W s = Ret r s'" "vm_step 0x80150000 ex_top s ps ks s' ps'"
    "r = 0" "vmap ex_top s' 0x2ABC = (0x5000 + (PGROUNDDOWN 0x2ABC - PGROUNDDOWN 0x1000)) OR PTE_W OR PTE_P"
    using mappages_maps [OF s(1), of "0x2000" "0x1000" "0x5000" PTE_W] s(2,3) by auto
  have "vmap ex_top s' 0x2ABC = 0x6003" using r(4) by (simp add: PGROUNDDOWN_def PGSIZE_def PTE_W_def PTE_P_def)
  then show ?thesis using r s(1) by blast
qed

theorem allocuvm_grows_witness:
  "\<exists>s s' ps ps'. vm_ok 0x80150000 ex_top s ps \<and> allocuvm 0x80150000 ex_top 0 0x1800 s = Ret 0x1800 s' \<and>
    vm_ok 0x80150000 ex_top s' ps' \<and> PTE_FLAGS (vmap ex_top s' 0x17FF) = 7 \<and> ubyte ex_top s' 0x17FF = 0"
proof -
  obtain s ps where s: "vm_ok 0x80150000 ex_top s ps" "\<forall>x. vmap ex_top s x = 0" "length ps = 5" by (rule ex_dir)
  have up: "unat (PGROUNDUP 0) = 0" "unat (PGROUNDUP 0x1800) = 0x2000" by (simp_all add: unat_PGROUNDUP)
  obtain s' ps' where "allocuvm 0x80150000 ex_top 0 0x1800 s = Ret 0x1800 s'" "vm_ok 0x80150000 ex_top s' ps'"
    "PTE_FLAGS (vmap ex_top s' 0x17FF) = PTE_P OR PTE_W OR PTE_U" "ubyte ex_top s' 0x17FF = 0"
    using allocuvm_grows [OF s(1), of 0 "0x1800"] s(2,3) by (auto simp: up KERNBASE_def)
  then show ?thesis using s(1) by (auto simp: PTE_P_def PTE_W_def PTE_U_def)
qed

lemma ex_user:
  obtains s' ps' where "vm_ok 0x80150000 ex_top s' ps'" and "user_mem 0x80150000 ex_top s' ps' {x. unat x < 0x2000}"
proof -
  obtain s ps where s: "vm_ok 0x80150000 ex_top s ps" "\<forall>x. vmap ex_top s x = 0" "length ps = 5" by (rule ex_dir)
  have "\<exists>s' us ks ps'. allocuvm_loop 0x80150000 ex_top 0 0 0x2000 s = Ret 0x2000 s' \<and> vm_ok 0x80150000 ex_top s' ps' \<and>
    length us = 2 \<and> distinct us \<and> set us \<inter> (vm_pages ex_top s' \<union> set ps') = {} \<and>
    set ps = set us \<union> set ks \<union> set ps' \<and> vm_pages ex_top s' = vm_pages ex_top s \<union> set ks \<and>
    (\<forall>u\<in>set us. kgood 0x80150000 u \<and> (\<forall>n\<in>page u. kmemory s' n = 0)) \<and>
    (\<forall>i x. i < 2 \<longrightarrow> unat x div 4096 = 0 div 4096 + i \<longrightarrow> vmap ex_top s' x = V2P (us ! i) OR (PTE_W OR PTE_U) OR PTE_P) \<and>
    (\<forall>x. \<not> (0 \<le> unat x \<and> unat x < 0 + 4096 * 2) \<longrightarrow> vmap ex_top s' x = vmap ex_top s x) \<and>
    (\<forall>n. (\<forall>q\<in>vm_pages ex_top s \<union> set ps. n \<notin> page q) \<longrightarrow> kmemory s' n = kmemory s n)"
    by (rule allocuvm_loop_ok [OF s(1)]) (use s(2,3) in simp_all)
  then obtain s' us ps' where r: "vm_ok 0x80150000 ex_top s' ps'" "length us = 2" "distinct us"
    "set us \<inter> (vm_pages ex_top s' \<union> set ps') = {}" "\<forall>u\<in>set us. kgood 0x80150000 u"
    "\<forall>i x. i < 2 \<longrightarrow> unat x div 4096 = i \<longrightarrow> vmap ex_top s' x = V2P (us ! i) OR (PTE_W OR PTE_U) OR PTE_P"
    by (auto simp del: One_nat_def)
  have v: "vmap ex_top s' x = V2P (us ! (unat x div 4096)) OR (PTE_W OR PTE_U) OR PTE_P"
    and u: "us ! (unat x div 4096) \<in> set us" and f: "uframe ex_top s' x = us ! (unat x div 4096)" if "unat x < 0x2000" for x
  proof -
    have i: "unat x div 4096 < 2" using that by (simp add: div_less_iff_less_mult)
    show v: "vmap ex_top s' x = V2P (us ! (unat x div 4096)) OR (PTE_W OR PTE_U) OR PTE_P" using r(6) i by blast
    show u: "us ! (unat x div 4096) \<in> set us" using i r(2) by simp
    then have "kgood 0x80150000 (us ! (unat x div 4096))" using r(5) by blast
    then show "uframe ex_top s' x = us ! (unat x div 4096)" unfolding uframe_def v by (rule user_pte)
  qed
  have b: "bit (w OR (PTE_W OR PTE_U) OR PTE_P) 0 \<and> bit (w OR (PTE_W OR PTE_U) OR PTE_P) 2" for w
  proof -
    have "bit PTE_P 0" "bit PTE_U 2" by code_simp+
    then show ?thesis by (simp add: bit_or_iff)
  qed
  have inj: "PGROUNDDOWN x = PGROUNDDOWN y" if "unat x < 0x2000" "unat y < 0x2000" "uframe ex_top s' x = uframe ex_top s' y" for x y
  proof -
    have "unat x div 4096 < 2" "unat y div 4096 < 2" using that by (simp_all add: div_less_iff_less_mult)
    then have "unat x div 4096 = unat y div 4096" using that f r(2,3) by (simp add: nth_eq_iff_index_eq)
    then show ?thesis by (simp add: word_unat_eq_iff unat_PGROUNDDOWN)
  qed
  have good: "bit (vmap ex_top s' x) 0 \<and> bit (vmap ex_top s' x) 2 \<and> kgood 0x80150000 (uframe ex_top s' x) \<and>
      uframe ex_top s' x \<notin> vm_pages ex_top s' \<union> set ps'" if "unat x < 0x2000" for x
    unfolding f [OF that] v [OF that] using u [OF that] r(4,5) b by blast
  have "user_mem 0x80150000 ex_top s' ps' {x. unat x < 0x2000}"
    unfolding user_mem_def using good inj by blast
  then show thesis using that r(1) by blast
qed

theorem copyout_reads_back_witness:
  "\<exists>s ps s'. vm_ok 0x80150000 ex_top s ps \<and> user_mem 0x80150000 ex_top s ps {x. unat x < 0x2000} \<and>
    copyout ex_top ex_top 0xFFF [1, 2] s = Ret 0 s' \<and> ubyte ex_top s' 0xFFF = 1 \<and> ubyte ex_top s' 0x1000 = 2"
proof -
  obtain s ps where s: "vm_ok 0x80150000 ex_top s ps" "user_mem 0x80150000 ex_top s ps {x. unat x < 0x2000}" by (rule ex_user)
  obtain s' where "copyout ex_top ex_top 0xFFF [1, 2] s = Ret 0 s'" "\<forall>x. x \<in> {x. unat x < 0x2000} \<longrightarrow> ubyte ex_top s' x =
      (if 0xFFF \<le> unat x \<and> unat x < 0xFFF + 2 then [1, 2] ! (unat x - 0xFFF) else ubyte ex_top s x)"
    using copyout_reads_back [OF s, of "0xFFF" "[1, 2]" ex_top] by auto
  moreover from this(2) have "ubyte ex_top s' 0xFFF = 1" "ubyte ex_top s' 0x1000 = 2" by (simp_all add: One_nat_def)
  ultimately show ?thesis using s by blast
qed

end
