(* ===== verification/Ring.thy ===== *)
theory Ring
  imports Memory
begin

text \<open>
  Ring buffers indexed by counters that only grow and wrap at 32 bits, as in pipes and in the input
  buffer of the console: element \<open>i\<close> is stored at \<open>i % N\<close>. Because \<open>N\<close> divides \<open>2 ^ 32\<close> the
  wrap-around of the counters does not disturb the order of the elements.
\<close>

definition ring_q :: "nat \<Rightarrow> 'a list \<Rightarrow> u32 \<Rightarrow> u32 \<Rightarrow> 'a list" where
  "ring_q N buf r w = map (\<lambda>k. buf ! ((unat r + k) mod N)) [0..<unat (w - r)]"

lemma length_ring_q [simp]: "length (ring_q N buf r w) = unat (w - r)"
  by (simp add: ring_q_def)

lemma ring_q_empty_iff: "ring_q N buf r w = [] \<longleftrightarrow> r = w"
proof -
  have "ring_q N buf r w = [] \<longleftrightarrow> unat (w - r) = 0" by (simp add: ring_q_def)
  also have "\<dots> \<longleftrightarrow> w - r = 0" by (simp only: unat_eq_0)
  also have "\<dots> \<longleftrightarrow> r = w" by auto
  finally show ?thesis .
qed

locale ring_buffer =
  fixes N :: nat
  assumes pos: "0 < N" and bound: "N < 4294967296" and divides: "N dvd 4294967296"
begin

lemma idx: "unat (r + 1 :: u32) mod N = (unat r + 1) mod N"
proof -
  have "unat (r + 1) = (unat r + 1) mod 4294967296" by (simp add: unat_word_ariths)
  then show ?thesis using divides by (simp add: mod_mod_cancel)
qed

lemma wr: "(unat r + unat (w - r)) mod N = unat (w :: u32) mod N"
proof -
  have "unat (r + (w - r)) = (unat r + unat (w - r)) mod 4294967296" by (simp only: unat_word_ariths) simp
  then have "unat w = (unat r + unat (w - r)) mod 4294967296" by simp
  then show ?thesis using divides by (simp add: mod_mod_cancel)
qed

lemma cnt_push: "unat (w - r) < N \<Longrightarrow> unat (w + 1 - r :: u32) = unat (w - r) + 1"
proof -
  assume a: "unat (w - r) < N"
  have e: "w + 1 - r = (w - r) + 1" by simp
  show ?thesis unfolding e using a bound unat_plus_small [of "w - r" 1] by simp
qed

lemma cnt_pop: "r \<noteq> w \<Longrightarrow> unat (w - r) = unat (w - (r + 1) :: u32) + 1"
proof -
  assume a: "r \<noteq> w"
  then have "0 < unat (w - r)" by (simp add: unat_gt_0)
  then have "unat (w - r - 1) = unat (w - r) - 1" by (subst unat_sub) (simp_all add: word_le_nat_alt)
  moreover have "w - r - 1 = w - (r + 1)" by simp
  ultimately show ?thesis using \<open>0 < unat (w - r)\<close> by simp
qed

lemma push:
  assumes "length buf = N" and "unat (w - r) < N"
  shows "ring_q N (buf[unat w mod N := c]) r (w + 1) = ring_q N buf r w @ [c]"
proof -
  let ?n = "unat (w - r)"
  have i: "unat w mod N = (unat r + ?n) mod N" by (simp add: wr)
  have neq: "(unat r + k) mod N \<noteq> (unat r + ?n) mod N" if "k < ?n" for k
  proof
    assume "(unat r + k) mod N = (unat r + ?n) mod N"
    then have "N dvd (unat r + ?n) - (unat r + k)" by (intro mod_eq_dvd_iff_nat [THEN iffD1]) (use that in auto)
    then have "N dvd ?n - k" by simp
    then show False using that assms(2) by (auto dest!: dvd_imp_le)
  qed
  have "ring_q N (buf[unat w mod N := c]) r (w + 1) =
      map (\<lambda>k. buf[(unat r + ?n) mod N := c] ! ((unat r + k) mod N)) ([0..<?n] @ [?n])"
    unfolding ring_q_def cnt_push [OF assms(2)] i by (simp add: One_nat_def)
  also have "\<dots> = ring_q N buf r w @ [c]"
    using neq [THEN not_sym] pos assms(1) by (simp add: ring_q_def)
  finally show ?thesis .
qed

lemma pop:
  assumes "r \<noteq> w"
  shows "ring_q N buf r w = buf ! (unat r mod N) # ring_q N buf (r + 1) w"
proof -
  let ?n = "unat (w - (r + 1))"
  have e: "(unat (r + 1) + k) mod N = (unat r + Suc k) mod N" for k
    using idx [of r] by (metis mod_add_left_eq add.assoc plus_1_eq_Suc)
  have "[0..<?n + 1] = 0 # map Suc [0..<?n]" by (simp add: upt_conv_Cons map_Suc_upt One_nat_def)
  then show ?thesis unfolding ring_q_def cnt_pop [OF assms] by (simp add: e comp_def)
qed

lemma unpush:
  assumes "r \<noteq> w"
  shows "unat (w - r) = unat (w - 1 - r :: u32) + 1"
    and "ring_q N buf r w = ring_q N buf r (w - 1) @ [buf ! (unat (w - 1) mod N)]"
proof -
  have "w - r \<noteq> 0" using assms by auto
  then have "0 < unat (w - r)" by (simp add: unat_gt_0)
  then have "unat (w - r - 1) = unat (w - r) - 1" by (subst unat_sub) (simp_all add: word_le_nat_alt)
  moreover have "w - r - 1 = w - 1 - r" by simp
  ultimately show c: "unat (w - r) = unat (w - 1 - r) + 1" using \<open>0 < unat (w - r)\<close> by simp
  have "[0..<unat (w - r)] = [0..<unat (w - 1 - r)] @ [unat (w - 1 - r)]" unfolding c by (simp add: One_nat_def)
  then show "ring_q N buf r w = ring_q N buf r (w - 1) @ [buf ! (unat (w - 1) mod N)]"
    by (simp add: ring_q_def wr)
qed

lemma full_iff: "unat (w - r) \<le> N \<Longrightarrow> (w :: u32) = r + of_nat N \<longleftrightarrow> unat (w - r) = N"
proof -
  have "w = r + of_nat N \<longleftrightarrow> w - r = of_nat N" by (auto simp: algebra_simps)
  also have "\<dots> \<longleftrightarrow> unat (w - r) = N" using bound by (auto simp: word_unat_eq_iff unat_of_nat take_bit_eq_mod)
  finally show ?thesis by simp
qed

end

end
