(* ===== verification/Pipe.thy ===== *)
theory Pipe
  imports Ring
begin

text \<open>
  The buffer of a pipe (\<open>src/xv6/pipe.c\<close>): a ring of 512 bytes with two counters. The spin lock of
  the pipe is held except while a process sleeps, so a call runs from one \<open>sleep\<close> to the next as
  one step. A call that goes to sleep is the value \<open>PWait\<close> with what it still has to do; it
  continues from there when it is woken up, and looks at the state of the pipe again. \<open>killed\<close> is
  \<open>myproc()->killed\<close> when the loop looks at it. Both results list the addresses on which the call wakes processes,
  \<open>&p->nread\<close> or \<open>&p->nwrite\<close>; theory \<open>File\<close> applies these wakeups to the process table, and
  allocates and releases the page that holds a pipe.
\<close>

definition PIPESIZE :: nat where "PIPESIZE = 512"

record pipe =
  p_data :: "byte list"
  p_nread :: u32
  p_nwrite :: u32
  p_readopen :: bool
  p_writeopen :: bool

datatype pipe_chan = Nread | Nwrite

datatype ('a, 'w) pipe_result =
    PDone 'a "pipe_chan list" pipe
  | PWait 'w "pipe_chan list" pipe

definition pipe_new :: "byte list \<Rightarrow> pipe" where
  "pipe_new junk = \<lparr>p_data = junk, p_nread = 0, p_nwrite = 0, p_readopen = True, p_writeopen = True\<rparr>"

text \<open>The pipe after one end is closed, the wakeup, and whether the page of the pipe is to be freed.\<close>

definition pipeclose_buf :: "bool \<Rightarrow> pipe \<Rightarrow> pipe \<times> pipe_chan list \<times> bool" where
  "pipeclose_buf writable p =
     (let (p, wk) = (if writable then (p\<lparr>p_writeopen := False\<rparr>, [Nread]) else (p\<lparr>p_readopen := False\<rparr>, [Nwrite]))
      in (p, wk, \<not> p_readopen p \<and> \<not> p_writeopen p))"

text \<open>\<open>addr\<close> are the bytes from index \<open>i\<close> on, \<open>n\<close> the number passed to \<open>pipewrite\<close>.\<close>

fun pipewrite_loop :: "bool \<Rightarrow> byte list \<Rightarrow> int \<Rightarrow> pipe \<Rightarrow> (int, byte list) pipe_result" where
  "pipewrite_loop killed [] n p = PDone n [Nread] p"
| "pipewrite_loop killed (c # addr) n p =
     (if p_nwrite p = p_nread p + of_nat PIPESIZE then
        (if \<not> p_readopen p \<or> killed then PDone (-1) [] p else PWait (c # addr) [Nread] p)
      else
        pipewrite_loop killed addr n
          (p\<lparr>p_data := (p_data p)[unat (p_nwrite p) mod PIPESIZE := c], p_nwrite := p_nwrite p + 1\<rparr>))"

definition pipewrite :: "bool \<Rightarrow> byte list \<Rightarrow> pipe \<Rightarrow> (int, byte list) pipe_result" where
  "pipewrite killed addr p = pipewrite_loop killed addr (int (length addr)) p"

fun piperead_copy :: "nat \<Rightarrow> pipe \<Rightarrow> byte list \<times> pipe" where
  "piperead_copy 0 p = ([], p)"
| "piperead_copy (Suc n) p =
     (if p_nread p = p_nwrite p then ([], p)
      else
        case piperead_copy n (p\<lparr>p_nread := p_nread p + 1\<rparr>) of
          (bs, q) \<Rightarrow> (p_data p ! (unat (p_nread p) mod PIPESIZE) # bs, q))"

text \<open>The result is the number returned and the bytes stored at \<open>addr\<close>; a waiting reader starts over.\<close>

definition piperead :: "bool \<Rightarrow> int \<Rightarrow> pipe \<Rightarrow> (int \<times> byte list, int) pipe_result" where
  "piperead killed n p =
     (if p_nread p = p_nwrite p \<and> p_writeopen p then
        (if killed then PDone (-1, []) [] p else PWait n [] p)
      else case piperead_copy (nat n) p of (bs, p) \<Rightarrow> PDone (int (length bs), bs) [Nwrite] p)"

subsection \<open>The queue of bytes\<close>

interpretation pr: ring_buffer PIPESIZE
  by unfold_locales (simp_all add: PIPESIZE_def)

definition pipe_q :: "pipe \<Rightarrow> byte list" where
  "pipe_q p = ring_q PIPESIZE (p_data p) (p_nread p) (p_nwrite p)"

definition pipe_ok :: "pipe \<Rightarrow> bool" where
  "pipe_ok p \<longleftrightarrow> length (p_data p) = PIPESIZE \<and> unat (p_nwrite p - p_nread p) \<le> PIPESIZE"

lemma pipe_full: "pipe_ok p \<Longrightarrow> p_nwrite p = p_nread p + of_nat PIPESIZE \<longleftrightarrow> length (pipe_q p) = PIPESIZE"
  using pr.full_iff by (simp add: pipe_ok_def pipe_q_def)

lemma pipe_empty: "p_nread p = p_nwrite p \<longleftrightarrow> pipe_q p = []"
  by (simp add: pipe_q_def ring_q_empty_iff)

lemma pipe_push:
  fixes c :: byte
  assumes "pipe_ok p" and "length (pipe_q p) \<noteq> PIPESIZE"
  defines "p' \<equiv> p\<lparr>p_data := (p_data p)[unat (p_nwrite p) mod PIPESIZE := c], p_nwrite := p_nwrite p + 1\<rparr>"
  shows "pipe_ok p'" and "pipe_q p' = pipe_q p @ [c]"
proof -
  have n: "length (p_data p) = PIPESIZE" "unat (p_nwrite p - p_nread p) < PIPESIZE"
    using assms(1,2) by (auto simp: pipe_ok_def pipe_q_def)
  show "pipe_ok p'" using n pr.cnt_push [OF n(2)] by (simp add: pipe_ok_def p'_def)
  show "pipe_q p' = pipe_q p @ [c]" using pr.push [OF n] by (simp add: pipe_q_def p'_def)
qed

lemma pipe_pop:
  assumes "pipe_ok p" and "p_nread p \<noteq> p_nwrite p"
  defines "p' \<equiv> p\<lparr>p_nread := p_nread p + 1\<rparr>"
  shows "pipe_ok p'" and "pipe_q p = p_data p ! (unat (p_nread p) mod PIPESIZE) # pipe_q p'"
  using assms(1) pr.cnt_pop [OF assms(2)] pr.pop [OF assms(2)] by (simp_all add: pipe_ok_def pipe_q_def p'_def)

text \<open>
  What a call of \<open>pipewrite\<close> does to the queue before it returns or sleeps: it appends a prefix of its
  bytes, all of them if it returns their number.
\<close>

lemma pipewrite_loop_q:
  assumes "pipe_ok p"
  shows "case pipewrite_loop killed addr n p of
      PDone r wk p' \<Rightarrow> pipe_ok p' \<and> p_readopen p' = p_readopen p \<and> p_writeopen p' = p_writeopen p \<and>
        (if length addr \<le> PIPESIZE - length (pipe_q p) then r = n \<and> wk = [Nread] \<and> pipe_q p' = pipe_q p @ addr
         else r = -1 \<and> wk = [] \<and> (\<not> p_readopen p \<or> killed) \<and> pipe_q p' = pipe_q p @ take (PIPESIZE - length (pipe_q p)) addr)
    | PWait rest wk p' \<Rightarrow> pipe_ok p' \<and> p_readopen p \<and> \<not> killed \<and> p_readopen p' = p_readopen p \<and> p_writeopen p' = p_writeopen p \<and>
        rest \<noteq> [] \<and> wk = [Nread] \<and> length (pipe_q p') = PIPESIZE \<and> (\<exists>pre. addr = pre @ rest \<and> pipe_q p' = pipe_q p @ pre)"
  using assms
proof (induction killed addr n p rule: pipewrite_loop.induct)
  case (2 killed c addr n p)
  have le: "length (pipe_q p) \<le> PIPESIZE" using 2(2) by (simp add: pipe_ok_def pipe_q_def)
  show ?case
  proof (cases "p_nwrite p = p_nread p + of_nat PIPESIZE")
    case True
    then have f: "length (pipe_q p) = PIPESIZE" using pipe_full [OF 2(2)] by simp
    show ?thesis using True 2(2) f by auto
  next
    case False
    then have nf: "length (pipe_q p) \<noteq> PIPESIZE" using pipe_full [OF 2(2)] by simp
    then obtain k where k: "PIPESIZE - length (pipe_q p) = Suc k" using le by (metis Suc_diff_Suc le_neq_implies_less)
    note P = pipe_push [OF 2(2) nf, of c]
    let ?p = "p\<lparr>p_data := (p_data p)[unat (p_nwrite p) mod PIPESIZE := c], p_nwrite := p_nwrite p + 1\<rparr>"
    have k': "PIPESIZE - length (pipe_q p @ [c]) = k" using k by simp
    note IH = 2(1) [OF False P(1), unfolded P(2) k']
    show ?thesis
    proof (cases "pipewrite_loop killed addr n ?p")
      case (PDone r wk p')
      then show ?thesis using False IH k by (cases "length addr \<le> k") auto
    next
      case (PWait rest wk p')
      then show ?thesis using False IH by auto
    qed
  qed
qed simp

lemma piperead_copy_q:
  assumes "pipe_ok p" and "piperead_copy n p = (bs, p')"
  shows "pipe_ok p'" and "bs = take n (pipe_q p)" and "pipe_q p' = drop n (pipe_q p)"
    and "p_readopen p' = p_readopen p" and "p_writeopen p' = p_writeopen p"
proof -
  have "pipe_ok p' \<and> bs = take n (pipe_q p) \<and> pipe_q p' = drop n (pipe_q p) \<and>
    p_readopen p' = p_readopen p \<and> p_writeopen p' = p_writeopen p"
    using assms
  proof (induction n p arbitrary: bs rule: piperead_copy.induct)
    case (2 n p)
    show ?case
    proof (cases "p_nread p = p_nwrite p")
      case True
      then have "pipe_q p = []" by (simp add: pipe_empty)
      then show ?thesis using 2 True by simp
    next
      case False
      obtain cs where cs: "piperead_copy n (p\<lparr>p_nread := p_nread p + 1\<rparr>) = (cs, p')"
        "bs = p_data p ! (unat (p_nread p) mod PIPESIZE) # cs"
        using 2(3) False by (auto split: prod.splits)
      show ?thesis using 2(1) [OF False pipe_pop(1) [OF 2(2) False] cs(1)] pipe_pop(2) [OF 2(2) False] cs(2) by simp
    qed
  qed simp
  then show "pipe_ok p'" "bs = take n (pipe_q p)" "pipe_q p' = drop n (pipe_q p)"
    "p_readopen p' = p_readopen p" "p_writeopen p' = p_writeopen p" by simp_all
qed

subsection \<open>Readers and writers\<close>

text \<open>
  A pipe in use: the bytes accepted from writers so far, the bytes given to readers, and the pipe.
  A writer enters the pipe with the bytes it has left, at the start of its call or after a sleep; the
  bytes accepted from it are the first of those, as many as the counter of bytes written advances.
\<close>

inductive pipe_run :: "byte list \<Rightarrow> byte list \<Rightarrow> pipe \<Rightarrow> bool" where
  pstart: "length junk = PIPESIZE \<Longrightarrow> pipe_run [] [] (pipe_new junk)"
| pwrite: "pipe_run ws rs p \<Longrightarrow> pipewrite_loop killed addr n p = PDone r wk p' \<Longrightarrow>
    pipe_run (ws @ take (unat (p_nwrite p' - p_nwrite p)) addr) rs p'"
| pblock: "pipe_run ws rs p \<Longrightarrow> pipewrite_loop killed addr n p = PWait rest wk p' \<Longrightarrow>
    pipe_run (ws @ take (unat (p_nwrite p' - p_nwrite p)) addr) rs p'"
| pread: "pipe_run ws rs p \<Longrightarrow> piperead killed n p = PDone (r, bs) wk p' \<Longrightarrow> pipe_run ws (rs @ bs) p'"
| prblock: "pipe_run ws rs p \<Longrightarrow> piperead killed n p = PWait n' wk p' \<Longrightarrow> pipe_run ws rs p'"
| pclose: "pipe_run ws rs p \<Longrightarrow> pipeclose_buf writable p = (p', wk, f) \<Longrightarrow> pipe_run ws rs p'"

lemma pipewrite_loop_nread:
  "(case pipewrite_loop killed addr n p of PDone r wk p' \<Rightarrow> p_nread p' = p_nread p | PWait rest wk p' \<Rightarrow> p_nread p' = p_nread p)"
  by (induction killed addr n p rule: pipewrite_loop.induct) (auto split: pipe_result.splits)

lemma accepted:
  assumes "p_nread p' = p_nread p" and "pipe_q p' = pipe_q p @ pre"
  shows "unat (p_nwrite p' - p_nwrite p) = length pre"
proof -
  have l: "unat (p_nwrite p' - p_nread p) = unat (p_nwrite p - p_nread p) + length pre"
    using arg_cong [OF assms(2), of length] assms(1) by (simp add: pipe_q_def)
  have "p_nwrite p' - p_nwrite p = (p_nwrite p' - p_nread p) - (p_nwrite p - p_nread p)" by simp
  also have "unat \<dots> = unat (p_nwrite p' - p_nread p) - unat (p_nwrite p - p_nread p)"
    using l by (intro unat_sub) (simp add: word_le_nat_alt)
  finally show ?thesis using l by simp
qed

lemma pipewrite_step:
  assumes ok: "pipe_ok p" and r: "pipewrite_loop killed addr n p = PDone r wk p' \<or> pipewrite_loop killed addr n p = PWait rest wk p'"
  shows "pipe_ok p'" and "pipe_q p' = pipe_q p @ take (unat (p_nwrite p' - p_nwrite p)) addr"
proof -
  have nr: "p_nread p' = p_nread p" using pipewrite_loop_nread [where killed = killed and addr = addr and n = n and p = p] r by auto
  have "pipe_ok p' \<and> (\<exists>pre suf. addr = pre @ suf \<and> pipe_q p' = pipe_q p @ pre)"
    using pipewrite_loop_q [OF ok, where killed = killed and addr = addr and n = n] r
    by (auto split: if_splits) (metis append_take_drop_id)+
  then obtain pre suf where "pipe_ok p'" "addr = pre @ suf" "pipe_q p' = pipe_q p @ pre" by blast
  then show "pipe_ok p'" "pipe_q p' = pipe_q p @ take (unat (p_nwrite p' - p_nwrite p)) addr"
    using accepted [OF nr] by simp_all
qed

lemma pipe_run_inv: "pipe_run ws rs p \<Longrightarrow> pipe_ok p \<and> ws = rs @ pipe_q p"
proof (induction rule: pipe_run.induct)
  case (pstart junk)
  then show ?case by (simp add: pipe_ok_def pipe_new_def pipe_q_def ring_q_def)
next
  case (pwrite ws rs p killed addr n r wk p')
  then show ?case using pipewrite_step [of p killed addr n r wk p'] by simp
next
  case (pblock ws rs p killed addr n rest wk p')
  then show ?case using pipewrite_step [of p killed addr n _ wk p' rest] by simp
next
  case (pread ws rs p killed n r bs wk p')
  then have "piperead_copy (nat n) p = (bs, p') \<or> bs = [] \<and> p' = p"
    by (auto simp: piperead_def split: if_splits prod.splits)
  then show ?case using piperead_copy_q [of p "nat n" bs p'] pread(3) by auto
next
  case (prblock ws rs p killed n n' wk p')
  then show ?case by (auto simp: piperead_def split: if_splits prod.splits)
next
  case (pclose ws rs p writable p' wk f)
  then have "p_data p' = p_data p" "p_nread p' = p_nread p" "p_nwrite p' = p_nwrite p"
    by (auto simp: pipeclose_buf_def Let_def split: if_splits)
  then show ?case using pclose(3) by (simp add: pipe_ok_def pipe_q_def)
qed

subsection \<open>Properties\<close>

text \<open>
  C5: a pipe is a queue. Whatever the interleaving of writers, readers and closes, over any number of
  wrap-arounds of the counters and of the buffer, the bytes accepted from the writers are the bytes
  given to the readers followed by the bytes still in the buffer, and these are at most 512.
\<close>

theorem pipe_fifo:
  assumes "pipe_run ws rs p"
  shows "ws = rs @ pipe_q p \<and> length (pipe_q p) \<le> PIPESIZE"
  using pipe_run_inv [OF assms] by (simp add: pipe_ok_def pipe_q_def)

theorem pipe_fifo_witness:
  "\<exists>p p'. pipewrite False [1, 2, 3] (pipe_new (replicate PIPESIZE 0)) = PDone 3 [Nread] p \<and>
    piperead False 2 p = PDone (2, [1, 2]) [Nwrite] p' \<and> pipe_run [1, 2, 3] [1, 2] p' \<and> pipe_q p' = [3]"
proof -
  let ?p0 = "pipe_new (replicate PIPESIZE 0)"
  have ok: "pipe_ok ?p0" "pipe_q ?p0 = []" by (simp_all add: pipe_ok_def pipe_new_def pipe_q_def ring_q_def)
  obtain p where w: "pipewrite_loop False [1, 2, 3] 3 ?p0 = PDone 3 [Nread] p" "pipe_ok p" "pipe_q p = [1, 2, 3]"
    using pipewrite_loop_q [OF ok(1), where killed = False and addr = "[1, 2, 3]" and n = 3] ok(2)
    by (auto simp: PIPESIZE_def pipe_new_def split: pipe_result.splits)
  obtain bs p' where r: "piperead_copy 2 p = (bs, p')" by fastforce
  have b: "bs = [1, 2]" "pipe_q p' = [3]" using piperead_copy_q [OF w(2) r] w(3) by simp_all
  have "p_nread p \<noteq> p_nwrite p" using w(3) by (simp add: pipe_empty)
  then have rd: "piperead False 2 p = PDone (2, [1, 2]) [Nwrite] p'" using r b by (simp add: piperead_def)
  have "pipe_run [] [] ?p0" by (rule pstart) simp
  then have 1: "pipe_run (take (unat (p_nwrite p - p_nwrite ?p0)) [1, 2, 3]) [] p" using pwrite [OF _ w(1)] by fastforce
  then have "take (unat (p_nwrite p - p_nwrite ?p0)) [1, 2, 3] = [1, 2, 3]" using pipe_fifo [OF 1] w(3) by simp
  then have "pipe_run [1, 2, 3] [1, 2] p'" using pread [OF 1 rd] by simp
  then show ?thesis using w(1) rd b(2) by (auto simp: pipewrite_def)
qed

end
