(* ===== verification/Printf.thy ===== *)
theory Printf
  imports Memory
begin

text \<open>
  Formatted output: \<open>printint\<close> and \<open>cprintf\<close> of the kernel (\<open>src/xv6/console.c\<close>) and \<open>printint\<close> and
  \<open>printf\<close> of the user library (\<open>src/xv6/printf.c\<close>), as the bytes they print. The digits are built in
  an array of 16 characters; writing past its end is the value \<open>None\<close>. The words on the stack
  after the format are the function \<open>args\<close>, read from index \<open>j\<close> on; \<open>str a\<close> is the
  C string at address \<open>a\<close>.
\<close>

definition digits :: "byte list" where
  "digits = [48, 49, 50, 51, 52, 53, 54, 55, 56, 57, 97, 98, 99, 100, 101, 102]"

definition udigits :: "byte list" where
  "udigits = [48, 49, 50, 51, 52, 53, 54, 55, 56, 57, 65, 66, 67, 68, 69, 70]"

text \<open>The digits of \<open>x\<close>, lowest first, in an array with room for \<open>k\<close> more.\<close>

fun digits_loop :: "byte list \<Rightarrow> nat \<Rightarrow> u32 \<Rightarrow> u32 \<Rightarrow> byte list option" where
  "digits_loop dg 0 x base = None"
| "digits_loop dg (Suc k) x base =
     (let c = dg ! unat (x mod base); x = x div base
      in if x = 0 then Some [c] else map_option (Cons c) (digits_loop dg k x base))"

definition print_digits :: "byte list \<Rightarrow> u32 \<Rightarrow> u32 \<Rightarrow> bool \<Rightarrow> byte list option" where
  "print_digits dg xx base sign =
     (let neg = (sign \<and> sint xx < 0); x = (if neg then - xx else xx) in
      case digits_loop dg 16 x base of
        None \<Rightarrow> None
      | Some ds \<Rightarrow> if neg then (if length ds < 16 then Some (rev (ds @ [45])) else None) else Some (rev ds))"

definition printint :: "u32 \<Rightarrow> u32 \<Rightarrow> bool \<Rightarrow> byte list option" where
  "printint = print_digits digits"

definition uprintint :: "u32 \<Rightarrow> u32 \<Rightarrow> bool \<Rightarrow> byte list option" where
  "uprintint = print_digits udigits"

text \<open>The bytes of a string literal.\<close>

definition bytes :: "string \<Rightarrow> byte list" where
  "bytes = map (\<lambda>c. of_nat (of_char c))"

definition null_str :: "byte list" where
  "null_str = bytes ''(null)''"

definition oapp :: "byte list option \<Rightarrow> byte list option \<Rightarrow> byte list option" where
  "oapp a b = (case (a, b) of (Some x, Some y) \<Rightarrow> Some (x @ y) | _ \<Rightarrow> None)"

fun cprintf_loop :: "(u32 \<Rightarrow> byte list) \<Rightarrow> byte list \<Rightarrow> (nat \<Rightarrow> u32) \<Rightarrow> nat \<Rightarrow> byte list option" where
  "cprintf_loop str [] args j = Some []"
| "cprintf_loop str [c] args j = (if c = 0 \<or> c = 37 then Some [] else Some [c])"
| "cprintf_loop str (c # d # fmt) args j =
     (if c = 0 then Some []
      else if c \<noteq> 37 then oapp (Some [c]) (cprintf_loop str (d # fmt) args j)
      else if d = 0 then Some []
      else if d = 100 then oapp (printint (args j) 10 True) (cprintf_loop str fmt args (j + 1))
      else if d = 120 \<or> d = 112 then oapp (printint (args j) 16 False) (cprintf_loop str fmt args (j + 1))
      else if d = 115 then
        oapp (Some (if args j = 0 then null_str else str (args j))) (cprintf_loop str fmt args (j + 1))
      else if d = 37 then oapp (Some [37]) (cprintf_loop str fmt args j)
      else oapp (Some [37, d]) (cprintf_loop str fmt args j))"

definition cprintf :: "(u32 \<Rightarrow> byte list) \<Rightarrow> byte list \<Rightarrow> (nat \<Rightarrow> u32) \<Rightarrow> byte list option" where
  "cprintf str fmt args = cprintf_loop str fmt args 0"

text \<open>\<open>pct\<close> is \<open>state == '%'\<close>.\<close>

fun printf_loop :: "(u32 \<Rightarrow> byte list) \<Rightarrow> bool \<Rightarrow> byte list \<Rightarrow> (nat \<Rightarrow> u32) \<Rightarrow> nat \<Rightarrow> byte list option" where
  "printf_loop str pct [] args j = Some []"
| "printf_loop str pct (c # fmt) args j =
     (if c = 0 then Some []
      else if \<not> pct then
        (if c = 37 then printf_loop str True fmt args j
         else oapp (Some [c]) (printf_loop str False fmt args j))
      else if c = 100 then oapp (uprintint (args j) 10 True) (printf_loop str False fmt args (j + 1))
      else if c = 120 \<or> c = 112 then oapp (uprintint (args j) 16 False) (printf_loop str False fmt args (j + 1))
      else if c = 115 then
        oapp (Some (if args j = 0 then null_str else str (args j))) (printf_loop str False fmt args (j + 1))
      else if c = 99 then oapp (Some [ucast (args j)]) (printf_loop str False fmt args (j + 1))
      else if c = 37 then oapp (Some [c]) (printf_loop str False fmt args j)
      else oapp (Some [37, c]) (printf_loop str False fmt args j))"

definition printf :: "(u32 \<Rightarrow> byte list) \<Rightarrow> byte list \<Rightarrow> (nat \<Rightarrow> u32) \<Rightarrow> byte list option" where
  "printf str fmt args = printf_loop str False fmt args 0"

subsection \<open>Digits\<close>

text \<open>The number a list of decimal digits stands for, lowest first.\<close>

fun dec_val :: "byte list \<Rightarrow> nat" where
  "dec_val [] = 0"
| "dec_val (c # ds) = (unat c - 48) + 10 * dec_val ds"

abbreviation is_dig :: "byte \<Rightarrow> bool" where
  "is_dig c \<equiv> 48 \<le> c \<and> c \<le> 57"

lemma digit_char:
  assumes "k < 10" and "dg = digits \<or> dg = udigits"
  shows "unat (dg ! k) = 48 + k" and "is_dig (dg ! k)"
proof -
  have "k \<in> {0, 1, 2, 3, 4, 5, 6, 7, 8, 9}" using assms(1) by auto
  then show "unat (dg ! k) = 48 + k" using assms(2) by (auto simp: digits_def udigits_def)
  then show "is_dig (dg ! k)" using assms(1) by (simp add: word_le_nat_alt)
qed

lemma digits_loop_ok:
  assumes "2 \<le> unat base" and "unat x < unat base ^ k" and "0 < k"
  shows "\<exists>ds. digits_loop dg k x base = Some ds \<and> length ds \<le> k \<and> ds \<noteq> []"
  using assms(2,3)
proof (induction k arbitrary: x)
  case (Suc k)
  show ?case
  proof (cases "x div base = 0")
    case False
    then have "unat x div unat base \<noteq> 0" by (simp add: unat_div [symmetric] unat_eq_0)
    then have b: "unat base \<le> unat x" by (metis div_less not_le)
    then have k: "0 < k" using Suc.prems(1) by (cases k) auto
    have "unat (x div base) < unat base ^ k"
      using Suc.prems(1) assms(1) by (simp add: unat_div less_mult_imp_div_less mult.commute)
    then show ?thesis using Suc.IH [OF _ k, of "x div base"] False by auto
  qed simp
qed simp

lemma digits_loop_val:
  assumes "digits_loop dg k x 10 = Some ds" and "dg = digits \<or> dg = udigits"
  shows "dec_val ds = unat x \<and> (\<forall>c\<in>set ds. is_dig c)"
  using assms(1)
proof (induction k arbitrary: x ds)
  case (Suc k)
  have m: "unat (x mod 10) < 10" by (simp add: unat_mod)
  note c = digit_char [OF m assms(2)]
  have x: "unat x = unat (x mod 10) + 10 * unat (x div 10)" by (simp add: unat_mod unat_div)
  show ?case
  proof (cases "x div 10 = 0")
    case True
    then show ?thesis using Suc.prems c x by auto
  next
    case False
    then obtain es where "digits_loop dg k (x div 10) 10 = Some es" "ds = dg ! unat (x mod 10) # es"
      using Suc.prems by auto
    then show ?thesis using Suc.IH [of "x div 10" es] c x by simp
  qed
qed simp

lemma atoi_from_append: "(\<forall>c\<in>set s. is_dig c) \<Longrightarrow> atoi_from (s @ t) n = atoi_from t (atoi_from s n)"
  by (induction s arbitrary: n) auto

declare atoi_from.simps [simp del]

lemma atoi_from_rev:
  assumes "\<forall>c\<in>set ds. is_dig c"
  shows "atoi_from (rev ds) 0 = of_nat (dec_val ds)"
  using assms
proof (induction ds)
  case Nil
  then show ?case by (simp add: atoi_from.simps)
next
  case (Cons c ds)
  have c: "48 \<le> unat c" "(ucast c :: u32) = of_nat (unat c)" using Cons.prems by (simp_all add: word_le_nat_alt)
  have "atoi_from (rev (c # ds)) 0 = atoi_from [c] (of_nat (dec_val ds))"
    using Cons by (simp add: atoi_from_append)
  also have "\<dots> = of_nat (dec_val ds) * 10 + ucast c - 48"
    using Cons.prems by (simp add: atoi_from.simps)
  also have "\<dots> = of_nat (dec_val (c # ds))" using c by (simp add: of_nat_diff algebra_simps)
  finally show ?case .
qed

lemma print_decimal:
  assumes "dg = digits \<or> dg = udigits"
  shows "\<exists>ds. digits_loop dg 16 x 10 = Some ds \<and> 0 < length ds \<and> length ds \<le> 10 \<and>
    (\<forall>c\<in>set ds. is_dig c) \<and> atoi_from (rev ds) 0 = x"
proof -
  have "unat x < unat (10 :: u32) ^ 10" using unat_u32 [of x] by simp
  then obtain ds where d: "digits_loop dg 10 x 10 = Some ds" "length ds \<le> 10" "ds \<noteq> []"
    using digits_loop_ok [of 10 x 10 dg] by auto
  have more: "digits_loop dg k y b = Some es \<Longrightarrow> digits_loop dg (k + m) y b = Some es" for k m y b es
    by (induction k arbitrary: y es) (auto simp: Let_def split: if_splits)
  have "digits_loop dg 16 x 10 = Some ds" using more [OF d(1), of 6] by simp
  then show ?thesis using d digits_loop_val [OF d(1) assms] atoi_from_rev [of ds] by auto
qed

subsection \<open>Properties\<close>

text \<open>
  C36: Decimal output is read back by \<open>atoi\<close>: for every \<open>int\<close>, the most negative one included, \<open>printint\<close> with a
  sign stays within its 16 characters and prints at most 11; the text is the digits of a non-negative number,
  or a minus sign and the digits of the absolute value, and \<open>atoi\<close> applied to those digits gives
  the number back, modulo \<open>2 ^ 32\<close>.
\<close>

theorem printint_atoi:
  "\<exists>ds. printint xx 10 True = Some ((if sint xx < 0 then [45] else []) @ ds) \<and>
     uprintint xx 10 True = Some ((if sint xx < 0 then [45] else []) @ ds) \<and>
     0 < length ds \<and> length ds \<le> 10 \<and> (\<forall>c\<in>set ds. is_dig c) \<and>
     word_of_int (atoi ds) = (if sint xx < 0 then - xx else xx) \<and> (0 \<le> sint xx \<longrightarrow> atoi ds = sint xx)"
proof -
  let ?x = "if sint xx < 0 then - xx else xx"
  have same: "digits_loop digits k x 10 = digits_loop udigits k x 10" for k x
  proof (induction k arbitrary: x)
    case (Suc k)
    have "unat (x mod 10) < 10" by (simp add: unat_mod)
    then have "digits ! unat (x mod 10) = udigits ! unat (x mod 10)"
      using digit_char(1) by (metis word_unat_eq_iff)
    then show ?case using Suc by (simp add: Let_def)
  qed simp
  obtain ds where d: "digits_loop digits 16 ?x 10 = Some ds" "0 < length ds" "length ds \<le> 10" "\<forall>c\<in>set ds. is_dig c"
      "atoi_from (rev ds) 0 = ?x"
    using print_decimal [of digits ?x] by blast
  have "print_digits dg xx 10 True = Some ((if sint xx < 0 then [45] else []) @ rev ds)" if "dg = digits \<or> dg = udigits" for dg
    using that d same [of 16 ?x] by (auto simp: print_digits_def Let_def split: if_splits)
  then show ?thesis using d by (intro exI [of _ "rev ds"]) (simp add: printint_def uprintint_def atoi_def)
qed

theorem printint_atoi_witness: "\<exists>ds. printint 42 10 True = Some ds \<and> atoi ds = 42"
  using printint_atoi [of 42] by auto

end
