(* ===== verification/Ptable.thy ===== *)
theory Ptable
  imports Spinlock
begin

text \<open>
  The process table and the scheduler (\<open>src/xv6/proc.c\<close>): what the routines do to \<open>ptable\<close>, \<open>nextpid\<close> and
  \<open>initproc\<close>. The memory, file and inode parts of \<open>fork\<close>, \<open>exit\<close> and \<open>wait\<close> are added in theory
  \<open>Proc\<close>, which uses these definitions. A pointer to a process is its index in the table, a null pointer is
  \<open>None\<close>. The table is only changed under \<open>ptable.lock\<close>, so a section of the code between taking and
  giving back that lock is one step. A trap frame and a context live on the kernel stack of their process and are
  kept with it; the registers are words.
\<close>

definition NPROC :: nat where "NPROC = 64"
definition NOFILE :: nat where "NOFILE = 16"

datatype procstate = UNUSED | EMBRYO | SLEEPING | RUNNABLE | RUNNING | ZOMBIE

record trapframe =
  tf_edi :: u32
  tf_esi :: u32
  tf_ebp :: u32
  tf_oesp :: u32
  tf_ebx :: u32
  tf_edx :: u32
  tf_ecx :: u32
  tf_eax :: u32
  tf_gs :: u16
  tf_fs :: u16
  tf_es :: u16
  tf_ds :: u16
  tf_trapno :: u32
  tf_err :: u32
  tf_eip :: u32
  tf_cs :: u16
  tf_eflags :: u32
  tf_esp :: u32
  tf_ss :: u16

record ctxt =
  cx_edi :: u32
  cx_esi :: u32
  cx_ebx :: u32
  cx_ebp :: u32
  cx_eip :: u32

text \<open>\<open>p_ret\<close> is the word above the context on the kernel stack, to which \<open>forkret\<close> returns.\<close>

record proc =
  p_sz :: u32
  p_pgdir :: u32
  p_kstack :: u32
  p_state :: procstate
  p_pid :: u32
  p_parent :: "nat option"
  p_tf :: trapframe
  p_ret :: u32
  p_context :: ctxt
  p_chan :: "chan option"
  p_killed :: bool
  p_ofile :: "nat option list"
  p_cwd :: "nat option"
  p_name :: "byte list"

record ptable =
  procs :: "nat \<Rightarrow> proc"
  nextpid :: u32
  initproc :: "nat option"

abbreviation pstate :: "ptable \<Rightarrow> nat \<Rightarrow> procstate" where
  "pstate pt i \<equiv> p_state (procs pt i)"

abbreviation parent :: "ptable \<Rightarrow> nat \<Rightarrow> nat option" where
  "parent pt i \<equiv> p_parent (procs pt i)"

definition upd_proc :: "nat \<Rightarrow> (proc \<Rightarrow> proc) \<Rightarrow> ptable \<Rightarrow> ptable" where
  "upd_proc i f pt = pt\<lparr>procs := (procs pt)(i := f (procs pt i))\<rparr>"

lemma upd_proc_sel [simp]:
  "procs (upd_proc i f pt) j = (if j = i then f (procs pt i) else procs pt j)"
  "nextpid (upd_proc i f pt) = nextpid pt" "initproc (upd_proc i f pt) = initproc pt"
  by (simp_all add: upd_proc_def)

subsection \<open>Processors\<close>

text \<open>The local APIC reports \<open>apicid\<close>; \<open>ids\<close> are the identifiers of \<open>cpus[0..ncpu]\<close>.\<close>

definition mycpu :: "byte \<Rightarrow> byte list \<Rightarrow> cpu \<Rightarrow> (nat, cpu) outcome" where
  "mycpu apicid ids c =
     (if cpu_if c then Panic ''mycpu called with interrupts enabled\<newline>''
      else case List.find (\<lambda>i. ids ! i = apicid) [0..<length ids] of
          Some i \<Rightarrow> Ret i c
        | None \<Rightarrow> Panic ''unknown apicid\<newline>'')"

text \<open>\<open>running\<close> is the field \<open>proc\<close> of every processor.\<close>

definition myproc :: "byte \<Rightarrow> byte list \<Rightarrow> (nat \<Rightarrow> nat option) \<Rightarrow> cpu \<Rightarrow> (nat option, cpu) outcome" where
  "myproc apicid ids running c =
     obind (mycpu apicid ids (pushcli c)) (\<lambda>i c.
     obind (popcli c) (\<lambda>_ c. Ret (running i) c))"

subsection \<open>Slots\<close>

text \<open>The first part of \<open>allocproc\<close>, under the lock.\<close>

definition alloc_slot :: "ptable \<Rightarrow> (nat \<times> ptable) option" where
  "alloc_slot pt =
     (case List.find (\<lambda>i. pstate pt i = UNUSED) [0..<NPROC] of
        None \<Rightarrow> None
      | Some i \<Rightarrow> Some (i, (upd_proc i (\<lambda>p. p\<lparr>p_state := EMBRYO, p_pid := nextpid pt\<rparr>) pt)\<lparr>nextpid := nextpid pt + 1\<rparr>))"

definition set_runnable :: "nat \<Rightarrow> ptable \<Rightarrow> ptable" where
  "set_runnable i = upd_proc i (\<lambda>p. p\<lparr>p_state := RUNNABLE\<rparr>)"

subsection \<open>Sleeping and waking\<close>

definition wakeup1 :: "chan option \<Rightarrow> ptable \<Rightarrow> ptable" where
  "wakeup1 c pt = pt\<lparr>procs := (\<lambda>i. if i < NPROC \<and> pstate pt i = SLEEPING \<and> p_chan (procs pt i) = c
     then (procs pt i)\<lparr>p_state := RUNNABLE\<rparr> else procs pt i)\<rparr>"

definition wakeup :: "chan \<Rightarrow> ptable \<Rightarrow> ptable" where
  "wakeup c = wakeup1 (Some c)"

text \<open>\<open>sleep\<close> before and after it calls \<open>sched\<close>.\<close>

definition sleep_enter :: "nat \<Rightarrow> chan \<Rightarrow> ptable \<Rightarrow> ptable" where
  "sleep_enter i c = upd_proc i (\<lambda>p. p\<lparr>p_chan := Some c, p_state := SLEEPING\<rparr>)"

definition sleep_leave :: "nat \<Rightarrow> ptable \<Rightarrow> ptable" where
  "sleep_leave i = upd_proc i (\<lambda>p. p\<lparr>p_chan := None\<rparr>)"

definition kill :: "u32 \<Rightarrow> ptable \<Rightarrow> int \<times> ptable" where
  "kill pid pt =
     (case List.find (\<lambda>i. p_pid (procs pt i) = pid) [0..<NPROC] of
        None \<Rightarrow> (-1, pt)
      | Some i \<Rightarrow> (0, upd_proc i (\<lambda>p. (p\<lparr>p_killed := True\<rparr>)
          \<lparr>p_state := if p_state p = SLEEPING then RUNNABLE else p_state p\<rparr>) pt))"

subsection \<open>Leaving and reaping\<close>

text \<open>The pointer to a process as an address to sleep on.\<close>

definition proc_chan :: "nat option \<Rightarrow> chan option" where
  "proc_chan = map_option ProcChan"

fun reparent :: "nat \<Rightarrow> nat list \<Rightarrow> ptable \<Rightarrow> ptable" where
  "reparent me [] pt = pt"
| "reparent me (i # is) pt =
     (if parent pt i = Some me then
        let pt = upd_proc i (\<lambda>p. p\<lparr>p_parent := initproc pt\<rparr>) pt
        in reparent me is (if pstate pt i = ZOMBIE then wakeup1 (proc_chan (initproc pt)) pt else pt)
      else reparent me is pt)"

text \<open>The last part of \<open>exit\<close>, under the lock.\<close>

definition exit_table :: "nat \<Rightarrow> ptable \<Rightarrow> ptable" where
  "exit_table me pt =
     (let pt = wakeup1 (proc_chan (parent pt me)) pt;
          pt = reparent me [0..<NPROC] pt
      in upd_proc me (\<lambda>p. p\<lparr>p_state := ZOMBIE\<rparr>) pt)"

text \<open>One scan of \<open>wait\<close>: the exited child found, or whether there are children.\<close>

fun wait_scan :: "nat \<Rightarrow> nat list \<Rightarrow> bool \<Rightarrow> ptable \<Rightarrow> nat + bool" where
  "wait_scan me [] havekids pt = Inr havekids"
| "wait_scan me (i # is) havekids pt =
     (if parent pt i \<noteq> Some me then wait_scan me is havekids pt
      else if pstate pt i = ZOMBIE then Inl i
      else wait_scan me is True pt)"

text \<open>The fields \<open>wait\<close> clears in the slot of the child.\<close>

definition wait_clear :: "nat \<Rightarrow> ptable \<Rightarrow> ptable" where
  "wait_clear i = upd_proc i (\<lambda>p. p\<lparr>p_kstack := 0, p_pid := 0, p_parent := None, p_name := (p_name p)[0 := 0],
     p_killed := False, p_state := UNUSED\<rparr>)"

subsection \<open>Switching\<close>

text \<open>
  \<open>sched\<close> up to \<open>swtch\<close>: the value is \<open>intena\<close>, which it puts back into the processor
  (\<open>sched_resume\<close>) when the process runs again. \<open>cpu\<close> is the number of the processor.
\<close>

definition sched :: "nat \<Rightarrow> spinlock \<Rightarrow> procstate \<Rightarrow> cpu \<Rightarrow> (bool, cpu) outcome" where
  "sched cpu lk st c =
     obind (holding cpu lk c) (\<lambda>h c.
       if \<not> h then Panic ''sched ptable.lock''
       else if ncli c \<noteq> 1 then Panic ''sched locks''
       else if st = RUNNING then Panic ''sched running''
       else if cpu_if c then Panic ''sched interruptible''
       else Ret (intena c) c)"

definition sched_resume :: "bool \<Rightarrow> cpu \<Rightarrow> cpu" where
  "sched_resume ie c = c\<lparr>intena := ie\<rparr>"

definition yield :: "nat \<Rightarrow> ptable \<Rightarrow> ptable" where
  "yield i = upd_proc i (\<lambda>p. p\<lparr>p_state := RUNNABLE\<rparr>)"

text \<open>
  The processors: the process each of them runs, and the index at which its scan of the table
  stands while it runs none.
\<close>

record psys =
  ptab :: ptable
  oncpu :: "nat \<Rightarrow> nat option"
  scan :: "nat \<Rightarrow> nat"

text \<open>
  \<open>scheduler\<close> from one \<open>swtch\<close> to the next: find a runnable process from the current index on
  and switch to it, or start over; and the end of the loop's body, when the process has switched back.
\<close>

definition scheduler :: "nat \<Rightarrow> psys \<Rightarrow> psys" where
  "scheduler c s =
     (case List.find (\<lambda>i. pstate (ptab s) i = RUNNABLE) [scan s c..<NPROC] of
        Some i \<Rightarrow> s\<lparr>ptab := upd_proc i (\<lambda>p. p\<lparr>p_state := RUNNING\<rparr>) (ptab s),
          oncpu := (oncpu s)(c := Some i), scan := (scan s)(c := i + 1)\<rparr>
      | None \<Rightarrow> s\<lparr>scan := (scan s)(c := 0)\<rparr>)"

definition switch_back :: "nat \<Rightarrow> psys \<Rightarrow> psys" where
  "switch_back c s = s\<lparr>oncpu := (oncpu s)(c := None)\<rparr>"

definition sys_pscnt :: "ptable \<Rightarrow> int" where
  "sys_pscnt pt = int (length (filter (\<lambda>i. pstate pt i \<noteq> UNUSED) [0..<NPROC]))"

end
