(* ===== verification/Console.thy ===== *)
theory Console
  imports Printf Ring Fs Ptable
begin

text \<open>
  The console (\<open>src/xv6/console.c\<close>) and the serial port (\<open>src/xv6/uart.c\<close>): the input buffer with its
  line editing, the screen memory with its cursor, and the bytes sent to the serial port. The lock of
  the console makes an interrupt one step. \<open>panicked\<close> is only set when the kernel stops. The
  values a device's \<open>getc\<close> returns until it is negative are the argument of \<open>consoleintr\<close>.
\<close>

definition INPUT_BUF :: nat where "INPUT_BUF = 128"
definition BACKSPACE :: int where "BACKSPACE = 0x100"

text \<open>\<open>C(x)\<close>, the control character of a letter given by its code.\<close>

definition Ctl :: "int \<Rightarrow> int" where "Ctl x = x - 64"

record console =
  in_buf :: "byte list"
  in_r :: u32
  in_w :: u32
  in_e :: u32
  crt :: "u16 list"
  crt_pos :: u16
  uart :: bool
  serial :: "byte list"

definition uartputc :: "int \<Rightarrow> console \<Rightarrow> console" where
  "uartputc c s = (if \<not> uart s then s else s\<lparr>serial := serial s @ [word_of_int c]\<rparr>)"

definition cga_scroll :: "int \<Rightarrow> u16 list \<Rightarrow> int \<times> u16 list" where
  "cga_scroll pos m =
     (if 24 \<le> pos div 80 then
        let m = patch m 0 (slice m 80 (23 * 80)); pos = pos - 80
        in (pos, patch m (nat pos) (replicate (nat (24 * 80 - pos)) 0))
      else (pos, m))"

definition cgaputc :: "int \<Rightarrow> console \<Rightarrow> (unit, console) outcome" where
  "cgaputc c s =
     (let pos = uint (crt_pos s);
          (pos, m) =
            (if c = 10 then (pos + (80 - pos mod 80), crt s)
             else if c = BACKSPACE then (if 0 < pos then pos - 1 else pos, crt s)
             else (pos + 1, (crt s)[nat pos := (word_of_int c AND 0xFF) OR 0x0700]))
      in if pos < 0 \<or> 25 * 80 < pos then Panic ''pos under/overflow''
         else
           let (pos, m) = cga_scroll pos m
           in Ret () (s\<lparr>crt_pos := word_of_int pos, crt := m[nat pos := 32 OR 0x0700]\<rparr>))"

definition consputc :: "int \<Rightarrow> console \<Rightarrow> (unit, console) outcome" where
  "consputc c s =
     cgaputc c (if c = BACKSPACE then uartputc 8 (uartputc 32 (uartputc 8 s)) else uartputc c s)"

fun consputs :: "int list \<Rightarrow> console \<Rightarrow> (unit, console) outcome" where
  "consputs [] s = Ret () s"
| "consputs (c # cs) s = obind (consputc c s) (\<lambda>_ s. consputs cs s)"

subsection \<open>Input\<close>

lemma kill_shorter: "in_e s \<noteq> in_w s \<Longrightarrow> unat (in_e s - 1 - in_w s) < unat (in_e s - in_w s)"
proof -
  assume "in_e s \<noteq> in_w s"
  then have "in_e s - in_w s \<noteq> 0" by auto
  then have "0 < unat (in_e s - in_w s)" by (simp add: unat_gt_0)
  then have "unat (in_e s - in_w s - 1) = unat (in_e s - in_w s) - 1" by (subst unat_sub) (simp_all add: word_le_nat_alt)
  moreover have "in_e s - in_w s - 1 = in_e s - 1 - in_w s" by simp
  ultimately show ?thesis using \<open>0 < unat (in_e s - in_w s)\<close> by simp
qed

lemma cgaputc_input:
  "cgaputc c s = Ret u s' \<Longrightarrow> in_buf s' = in_buf s \<and> in_r s' = in_r s \<and> in_w s' = in_w s \<and> in_e s' = in_e s"
  by (auto simp: cgaputc_def Let_def split: if_splits prod.splits)

lemma consputc_input:
  assumes "consputc c s = Ret u s'"
  shows "in_buf s' = in_buf s \<and> in_r s' = in_r s \<and> in_w s' = in_w s \<and> in_e s' = in_e s"
  using cgaputc_input assms unfolding consputc_def by (fastforce simp: uartputc_def split: if_splits)

function kill_line :: "console \<Rightarrow> (unit, console) outcome" where
  "kill_line s =
     (if in_e s \<noteq> in_w s \<and> in_buf s ! (unat (in_e s - 1) mod INPUT_BUF) \<noteq> 10
      then obind (consputc BACKSPACE (s\<lparr>in_e := in_e s - 1\<rparr>)) (\<lambda>_ s. kill_line s)
      else Ret () s)"
  by auto
termination
proof (relation "measure (\<lambda>s. unat (in_e s - in_w s))")
  fix s a s'
  assume "in_e s \<noteq> in_w s \<and> in_buf s ! (unat (in_e s - 1) mod INPUT_BUF) \<noteq> 10"
    and r: "consputc BACKSPACE (s\<lparr>in_e := in_e s - 1\<rparr>) = Ret a s'"
  then have "in_e s \<noteq> in_w s" by simp
  then show "(s', s) \<in> measure (\<lambda>s. unat (in_e s - in_w s))"
    using kill_shorter consputc_input [OF r] by simp
qed simp

declare kill_line.simps [simp del]

text \<open>One character; the value is whether readers are woken up and whether the process list is asked for.\<close>

definition intr_char :: "int \<Rightarrow> console \<Rightarrow> (bool \<times> bool, console) outcome" where
  "intr_char c s =
     (if c = Ctl 80 then Ret (False, True) s
      else if c = Ctl 85 then obind (kill_line s) (\<lambda>_ s. Ret (False, False) s)
      else if c = Ctl 72 \<or> c = 0x7F then
        (if in_e s \<noteq> in_w s
         then obind (consputc BACKSPACE (s\<lparr>in_e := in_e s - 1\<rparr>)) (\<lambda>_ s. Ret (False, False) s)
         else Ret (False, False) s)
      else if c \<noteq> 0 \<and> in_e s - in_r s < of_nat INPUT_BUF then
        let c = (if c = 13 then 10 else c);
            s = s\<lparr>in_buf := (in_buf s)[unat (in_e s) mod INPUT_BUF := word_of_int c], in_e := in_e s + 1\<rparr>
        in obind (consputc c s) (\<lambda>_ s.
             if c = 10 \<or> c = Ctl 68 \<or> in_e s = in_r s + of_nat INPUT_BUF
             then Ret (True, False) (s\<lparr>in_w := in_e s\<rparr>) else Ret (False, False) s)
      else Ret (False, False) s)"

fun consoleintr :: "int list \<Rightarrow> console \<Rightarrow> (bool \<times> bool, console) outcome" where
  "consoleintr [] s = Ret (False, False) s"
| "consoleintr (c # cs) s =
     obind (intr_char c s) (\<lambda>(w, d) s. obind (consoleintr cs s) (\<lambda>(w', d') s. Ret (w \<or> w', d \<or> d') s))"

text \<open>
  The loop of \<open>consoleread\<close>: \<open>n\<close> bytes are still wanted of \<open>target\<close>. The value is
  \<open>None\<close> if the process has been killed, otherwise the bytes stored.
\<close>

fun read_loop :: "bool \<Rightarrow> nat \<Rightarrow> nat \<Rightarrow> console \<Rightarrow> (byte list option, console) outcome" where
  "read_loop killed target 0 s = Ret (Some []) s"
| "read_loop killed target (Suc n) s =
     (if in_r s = in_w s then (if killed then Ret None s else Sleep InputChan s)
      else
        let c = in_buf s ! (unat (in_r s) mod INPUT_BUF); s = s\<lparr>in_r := in_r s + 1\<rparr>
        in if uint c = Ctl 68 then Ret (Some []) (if Suc n < target then s\<lparr>in_r := in_r s - 1\<rparr> else s)
           else if c = 10 then Ret (Some [c]) s
           else obind (read_loop killed target n s) (\<lambda>r s. Ret (map_option (Cons c) r) s))"

text \<open>\<open>consoleread\<close> and \<open>consolewrite\<close> give up the lock of the inode while they use the console.\<close>

definition on1 :: "(fsstate \<Rightarrow> ('a, fsstate) outcome) \<Rightarrow> fsstate \<times> console \<Rightarrow> ('a, fsstate \<times> console) outcome" where
  "on1 f s = olift (\<lambda>t. (t, snd s)) (f (fst s))"

definition on2 :: "(console \<Rightarrow> ('a, console) outcome) \<Rightarrow> fsstate \<times> console \<Rightarrow> ('a, fsstate \<times> console) outcome" where
  "on2 f s = olift (\<lambda>t. (fst s, t)) (f (snd s))"

definition consoleread :: "int \<Rightarrow> bool \<Rightarrow> nat \<Rightarrow> int \<Rightarrow> fsstate \<times> console \<Rightarrow> (int \<times> byte list, fsstate \<times> console) outcome" where
  "consoleread me killed ip n s =
     obind (on1 (iunlock me (Some ip)) s) (\<lambda>_ s.
     obind (on2 (read_loop killed (nat n) (nat n)) s) (\<lambda>r s.
     obind (on1 (ilock me (Some ip)) s) (\<lambda>_ s.
       case r of None \<Rightarrow> Ret (-1, []) s | Some bs \<Rightarrow> Ret (int (length bs), bs) s)))"

definition consolewrite :: "int \<Rightarrow> nat \<Rightarrow> byte list \<Rightarrow> fsstate \<times> console \<Rightarrow> (int, fsstate \<times> console) outcome" where
  "consolewrite me ip bs s =
     obind (on1 (iunlock me (Some ip)) s) (\<lambda>_ s.
     obind (on2 (consputs (map uint bs)) s) (\<lambda>_ s.
     obind (on1 (ilock me (Some ip)) s) (\<lambda>_ s. Ret (int (length bs)) s)))"

subsection \<open>The screen\<close>

definition cga_ok :: "console \<Rightarrow> bool" where
  "cga_ok s \<longleftrightarrow> length (crt s) = 25 * 80 \<and> uint (crt_pos s) < 24 * 80"

lemma cga_scroll_ok:
  assumes "0 \<le> pos" and "pos \<le> 24 * 80" and "length m = 25 * 80"
  obtains pos' m' where "cga_scroll pos m = (pos', m')" and "0 \<le> pos'" and "pos' < 24 * 80" and "length m' = 25 * 80"
proof (cases "24 \<le> pos div 80")
  case True
  let ?m = "patch m 0 (slice m 80 (23 * 80))"
  have p: "pos = 24 * 80" using True assms(2) by auto
  have l: "length ?m = 25 * 80" using assms(3) by simp
  have l': "length (patch ?m (nat (pos - 80)) (replicate (nat (24 * 80 - (pos - 80))) 0)) = 25 * 80"
    using l p by simp
  have "cga_scroll pos m = (pos - 80, patch ?m (nat (pos - 80)) (replicate (nat (24 * 80 - (pos - 80))) 0))"
    using True by (simp add: cga_scroll_def Let_def)
  then show ?thesis by (rule that [OF _ _ _ l']) (use p in simp_all)
next
  case False
  then show ?thesis using assms by (intro that) (auto simp: cga_scroll_def)
qed

lemma cgaputc_ok:
  assumes "cga_ok s"
  shows "\<exists>s'. cgaputc c s = Ret () s' \<and> cga_ok s'"
proof -
  let ?p = "uint (crt_pos s)"
  define q where "q = (if c = 10 then (?p + (80 - ?p mod 80), crt s)
     else if c = BACKSPACE then (if 0 < ?p then ?p - 1 else ?p, crt s)
     else (?p + 1, (crt s)[nat ?p := (word_of_int c AND 0xFF) OR 0x0700]))"
  have p: "0 \<le> ?p" "?p < 24 * 80" "length (crt s) = 25 * 80" using assms by (auto simp: cga_ok_def)
  have "?p + (80 - ?p mod 80) = 80 * (?p div 80 + 1)" by (simp add: minus_mod_eq_mult_div [symmetric])
  moreover have "0 \<le> ?p div 80" "?p div 80 \<le> 23" using p(1,2) by linarith+
  ultimately have nl: "0 \<le> ?p + (80 - ?p mod 80)" "?p + (80 - ?p mod 80) \<le> 24 * 80" by simp_all
  have q: "0 \<le> fst q" "fst q \<le> 24 * 80" "length (snd q) = 25 * 80" using p nl by (auto simp: q_def)
  then obtain pos' m' where sc: "cga_scroll (fst q) (snd q) = (pos', m')" "0 \<le> pos'" "pos' < 24 * 80" "length m' = 25 * 80"
    using cga_scroll_ok by blast
  have "cgaputc c s = Ret () (s\<lparr>crt_pos := word_of_int pos', crt := m'[nat pos' := 32 OR 0x0700]\<rparr>)"
    unfolding cgaputc_def Let_def q_def [symmetric] using q sc(1) by (simp add: case_prod_beta)
  moreover have "uint (word_of_int pos' :: u16) = pos'" using sc(2,3) by (simp add: uint_word_of_int)
  ultimately show ?thesis using sc by (simp add: cga_ok_def)
qed

lemma consputc_ok:
  assumes "cga_ok s"
  shows "\<exists>s'. consputc c s = Ret () s' \<and> cga_ok s' \<and> in_buf s' = in_buf s \<and> in_r s' = in_r s \<and> in_w s' = in_w s \<and> in_e s' = in_e s"
proof -
  have "cga_ok (if c = BACKSPACE then uartputc 8 (uartputc 32 (uartputc 8 s)) else uartputc c s)"
    using assms by (simp add: cga_ok_def uartputc_def)
  then obtain s' where "consputc c s = Ret () s'" "cga_ok s'" unfolding consputc_def using cgaputc_ok by blast
  then show ?thesis using consputc_input by blast
qed

subsection \<open>Line editing\<close>

interpretation ib: ring_buffer INPUT_BUF
  by unfold_locales (simp_all add: INPUT_BUF_def)

definition cin :: "console \<Rightarrow> byte list" where
  "cin s = ring_q INPUT_BUF (in_buf s) (in_r s) (in_e s)"

text \<open>The bytes a reader may have, and the line being edited.\<close>

definition avail :: "console \<Rightarrow> byte list" where
  "avail s = take (unat (in_w s - in_r s)) (cin s)"

definition pend :: "console \<Rightarrow> byte list" where
  "pend s = drop (unat (in_w s - in_r s)) (cin s)"

definition cons_ok :: "console \<Rightarrow> bool" where
  "cons_ok s \<longleftrightarrow> cga_ok s \<and> length (in_buf s) = INPUT_BUF \<and> unat (in_e s - in_r s) \<le> INPUT_BUF \<and>
     unat (in_w s - in_r s) \<le> unat (in_e s - in_r s) \<and> 10 \<notin> set (pend s)"

text \<open>What a character typed at the console does to them.\<close>

definition edit :: "byte list \<times> byte list \<Rightarrow> int \<Rightarrow> byte list \<times> byte list" where
  "edit q c = (case q of (av, pe) \<Rightarrow>
     if c = 16 then (av, pe)
     else if c = 21 then (av, [])
     else if c = 8 \<or> c = 127 then (av, butlast pe)
     else if c = 0 \<or> INPUT_BUF \<le> length av + length pe then (av, pe)
     else
       let b = (if c = 13 then 10 else c); pe = pe @ [word_of_int b]
       in if b = 10 \<or> b = 4 \<or> length av + length pe = INPUT_BUF then (av @ pe, []) else (av, pe))"

lemma cons_view:
  assumes "cons_ok s"
  shows "length (cin s) = unat (in_e s - in_r s)" and "length (avail s) = unat (in_w s - in_r s)"
    and "length (avail s) + length (pend s) = unat (in_e s - in_r s)" and "cin s = avail s @ pend s"
    and "in_e s = in_w s \<longleftrightarrow> pend s = []"
proof -
  show l: "length (cin s) = unat (in_e s - in_r s)" by (simp add: cin_def)
  show a: "length (avail s) = unat (in_w s - in_r s)" "length (avail s) + length (pend s) = unat (in_e s - in_r s)"
    "cin s = avail s @ pend s"
    using assms l by (simp_all add: avail_def pend_def cons_ok_def)
  have "pend s = [] \<longleftrightarrow> unat (in_e s - in_r s) \<le> unat (in_w s - in_r s)" by (simp add: pend_def l)
  also have "\<dots> \<longleftrightarrow> unat (in_e s - in_r s) = unat (in_w s - in_r s)" using assms by (auto simp: cons_ok_def)
  also have "\<dots> \<longleftrightarrow> in_e s = in_w s" by (simp add: word_unat_eq_iff [symmetric])
  finally show "in_e s = in_w s \<longleftrightarrow> pend s = []" by simp
qed

lemma avail_pendI:
  assumes "cin s = a @ b" and "length a = unat (in_w s - in_r s)"
  shows "avail s = a" and "pend s = b"
  using assms by (simp_all add: avail_def pend_def)

text \<open>Taking back the last character of the line.\<close>

lemma rub_out:
  assumes "cons_ok s" and "in_e s \<noteq> in_w s"
  shows "\<exists>s'. consputc BACKSPACE (s\<lparr>in_e := in_e s - 1\<rparr>) = Ret () s' \<and> cons_ok s' \<and> in_w s' = in_w s \<and>
    avail s' = avail s \<and> pend s' = butlast (pend s)" and "last (pend s) = in_buf s ! (unat (in_e s - 1) mod INPUT_BUF)"
proof -
  note v = cons_view [OF assms(1)]
  have pe: "pend s \<noteq> []" using v(5) assms(2) by simp
  then have "0 < unat (in_e s - in_r s)" using v(3) by (cases "pend s") auto
  then have "in_r s \<noteq> in_e s" by auto
  note U = ib.unpush [OF this]
  have c: "ring_q INPUT_BUF (in_buf s) (in_r s) (in_e s - 1) @ [in_buf s ! (unat (in_e s - 1) mod INPUT_BUF)] =
      (avail s @ butlast (pend s)) @ [last (pend s)]"
    using U(2) [of "in_buf s"] v(4) pe by (simp add: cin_def)
  then show "last (pend s) = in_buf s ! (unat (in_e s - 1) mod INPUT_BUF)" by simp
  obtain s' where s': "consputc BACKSPACE (s\<lparr>in_e := in_e s - 1\<rparr>) = Ret () s'" "cga_ok s'" "in_buf s' = in_buf s"
      "in_r s' = in_r s" "in_w s' = in_w s" "in_e s' = in_e s - 1"
    using consputc_ok [of "s\<lparr>in_e := in_e s - 1\<rparr>" BACKSPACE] assms(1) by (auto simp: cons_ok_def cga_ok_def)
  have cin: "cin s' = avail s @ butlast (pend s)" using c s' by (simp add: cin_def)
  have ap: "avail s' = avail s" "pend s' = butlast (pend s)" using avail_pendI [OF cin] v(2) s' by simp_all
  have "unat (in_w s - in_r s) \<le> unat (in_e s - 1 - in_r s)"
    using v(2,3) U(1) pe by (cases "pend s") auto
  moreover have "unat (in_e s - 1 - in_r s) \<le> INPUT_BUF" using assms(1) U(1) by (simp add: cons_ok_def)
  moreover have "10 \<notin> set (butlast (pend s))" using assms(1) in_set_butlastD by (fastforce simp: cons_ok_def)
  ultimately have "cons_ok s'" using s' ap assms(1) by (simp add: cons_ok_def)
  then show "\<exists>s'. consputc BACKSPACE (s\<lparr>in_e := in_e s - 1\<rparr>) = Ret () s' \<and> cons_ok s' \<and> in_w s' = in_w s \<and>
    avail s' = avail s \<and> pend s' = butlast (pend s)" using s' ap by blast
qed

lemma kill_line_ok:
  assumes "cons_ok s"
  shows "\<exists>s'. kill_line s = Ret () s' \<and> cons_ok s' \<and> avail s' = avail s \<and> pend s' = []"
  using assms
proof (induction "length (pend s)" arbitrary: s rule: less_induct)
  case less
  note v = cons_view [OF less.prems]
  show ?case
  proof (cases "in_e s = in_w s")
    case True
    then show ?thesis using less.prems v(5) by (subst kill_line.simps) simp
  next
    case False
    then have pe: "pend s \<noteq> []" using v(5) by simp
    then have "last (pend s) \<noteq> 10" using less.prems last_in_set by (metis cons_ok_def)
    then have nl: "in_buf s ! (unat (in_e s - 1) mod INPUT_BUF) \<noteq> 10" using rub_out(2) [OF less.prems False] by simp
    obtain t where t: "consputc BACKSPACE (s\<lparr>in_e := in_e s - 1\<rparr>) = Ret () t" "cons_ok t" "avail t = avail s" "pend t = butlast (pend s)"
      using rub_out(1) [OF less.prems False] by blast
    have "length (pend t) < length (pend s)" using t(4) pe by simp
    then obtain s' where "kill_line t = Ret () s'" "cons_ok s'" "avail s' = avail s" "pend s' = []"
      using less.hyps [OF _ t(2)] t(3) by auto
    then show ?thesis using False nl t(1) by (subst kill_line.simps) simp
  qed
qed

text \<open>Typing a character into the line.\<close>

lemma type_in:
  assumes "cons_ok s" and "unat (in_e s - in_r s) < INPUT_BUF"
  shows "\<exists>s'. consputc c (s\<lparr>in_buf := (in_buf s)[unat (in_e s) mod INPUT_BUF := b], in_e := in_e s + 1\<rparr>) = Ret () s' \<and>
    cga_ok s' \<and> length (in_buf s') = INPUT_BUF \<and> in_r s' = in_r s \<and> in_w s' = in_w s \<and> in_e s' = in_e s + 1 \<and>
    unat (in_e s' - in_r s') = unat (in_e s - in_r s) + 1 \<and> cin s' = avail s @ pend s @ [b]"
proof -
  let ?t = "s\<lparr>in_buf := (in_buf s)[unat (in_e s) mod INPUT_BUF := b], in_e := in_e s + 1\<rparr>"
  have "cga_ok ?t" using assms(1) by (simp add: cons_ok_def cga_ok_def)
  then obtain s' where s': "consputc c ?t = Ret () s'" "cga_ok s'" "in_buf s' = in_buf ?t" "in_r s' = in_r s" "in_w s' = in_w s"
      "in_e s' = in_e s + 1"
    using consputc_ok [of ?t c] by auto
  have l: "length (in_buf s) = INPUT_BUF" using assms(1) by (simp add: cons_ok_def)
  have "cin s' = cin s @ [b]" using ib.push [OF l assms(2)] s' by (simp add: cin_def)
  then show ?thesis using s' l ib.cnt_push [OF assms(2)] cons_view(4) [OF assms(1)] by simp
qed

lemma intr_char_ok:
  assumes ok: "cons_ok s" and c: "0 \<le> c" "c < 256"
  shows "\<exists>w d s'. intr_char c s = Ret (w, d) s' \<and> cons_ok s' \<and> (avail s', pend s') = edit (avail s, pend s) c \<and>
    (d \<longleftrightarrow> c = 16) \<and> (w \<longleftrightarrow> length (avail s) < length (avail s'))"
proof -
  note v = cons_view [OF ok]
  have full: "in_e s - in_r s < of_nat INPUT_BUF \<longleftrightarrow> length (avail s) + length (pend s) < INPUT_BUF"
    using v(3) by (simp add: word_less_nat_alt INPUT_BUF_def)
  consider "c = 16" | "c = 21" | "c = 8 \<or> c = 127" | "c \<noteq> 16 \<and> c \<noteq> 21 \<and> c \<noteq> 8 \<and> c \<noteq> 127" by blast
  then show ?thesis
  proof cases
    case 1
    then have "intr_char c s = Ret (False, True) s" by (simp add: intr_char_def Ctl_def)
    then show ?thesis using ok 1 by (auto simp: edit_def)
  next
    case 2
    then show ?thesis using kill_line_ok [OF ok] by (auto simp: intr_char_def Ctl_def edit_def)
  next
    case 3
    show ?thesis
    proof (cases "in_e s = in_w s")
      case True
      then show ?thesis using 3 ok v(5) by (auto simp: intr_char_def Ctl_def edit_def)
    next
      case False
      then show ?thesis using 3 rub_out(1) [OF ok False] by (auto simp: intr_char_def Ctl_def edit_def)
    qed
  next
    case 4
    show ?thesis
    proof (cases "c = 0 \<or> INPUT_BUF \<le> length (avail s) + length (pend s)")
      case True
      then have "\<not> (c \<noteq> 0 \<and> in_e s - in_r s < of_nat INPUT_BUF)" using full by auto
      then have "intr_char c s = Ret (False, False) s" using 4 unfolding intr_char_def Ctl_def by auto
      moreover have "edit (avail s, pend s) c = (avail s, pend s)" using True 4 by (auto simp: edit_def)
      ultimately show ?thesis using ok 4 by auto
    next
      case False
      define e where "e = (if c = 13 then 10 else c)"
      have room: "unat (in_e s - in_r s) < INPUT_BUF" using False v(3) by simp
      obtain t where t: "consputc e (s\<lparr>in_buf := (in_buf s)[unat (in_e s) mod INPUT_BUF := word_of_int e], in_e := in_e s + 1\<rparr>) = Ret () t"
          "cga_ok t" "length (in_buf t) = INPUT_BUF" "in_r t = in_r s" "in_w t = in_w s" "in_e t = in_e s + 1"
          "unat (in_e t - in_r t) = unat (in_e s - in_r s) + 1" "cin t = avail s @ pend s @ [word_of_int e]"
        using type_in [OF ok room] by blast
      define commit where "commit \<longleftrightarrow> e = 10 \<or> e = 4 \<or> in_e t = in_r t + of_nat INPUT_BUF"
      have I: "intr_char c s = (if commit then Ret (True, False) (t\<lparr>in_w := in_e t\<rparr>) else Ret (False, False) t)"
        using 4 False full t(1) unfolding intr_char_def Ctl_def e_def [symmetric] commit_def by simp
      have "in_e t = in_r t + of_nat INPUT_BUF \<longleftrightarrow> unat (in_e t - in_r t) = INPUT_BUF"
        using room t(7) by (intro ib.full_iff) simp
      then have cm: "commit \<longleftrightarrow> e = 10 \<or> e = 4 \<or> length (avail s) + length (pend s @ [word_of_int e :: byte]) = INPUT_BUF"
        using t(7) v(3) by (simp add: commit_def One_nat_def)
      have E: "edit (avail s, pend s) c = (if commit then (avail s @ pend s @ [word_of_int e], []) else (avail s, pend s @ [word_of_int e]))"
        using 4 False unfolding edit_def cm e_def [symmetric] by (simp add: Let_def e_def [symmetric])
      show ?thesis
      proof (cases commit)
        case True
        let ?u = "t\<lparr>in_w := in_e t\<rparr>"
        have ap: "avail ?u = cin t" "pend ?u = []"
          using avail_pendI [of ?u "cin t" "[]"] by (simp_all add: cin_def)
        have "cons_ok ?u" using t room ap by (simp add: cons_ok_def cga_ok_def)
        then show ?thesis using True I E t(8) ap 4 by auto
      next
        case False
        have "cin t = avail s @ (pend s @ [word_of_int e])" using t(8) by simp
        note ap = avail_pendI [OF this] 
        have ap: "avail t = avail s" "pend t = pend s @ [word_of_int e]" using ap v(2) t(4,5) by simp_all
        have "(word_of_int e :: byte) \<noteq> 10"
        proof
          assume "(word_of_int e :: byte) = 10"
          then have "uint (word_of_int e :: byte) = 10" by simp
          then have "e mod 256 = 10" by (simp add: uint_word_of_int)
          then show False using False c by (auto simp: commit_def e_def split: if_splits)
        qed
        then have "cons_ok t" using t room ok ap v(2,3) by (auto simp: cons_ok_def)
        then show ?thesis using False I E ap 4 by auto
      qed
    qed
  qed
qed

lemma edit_grows: "\<exists>z. fst (edit q c) = fst q @ z"
  by (cases q) (auto simp: edit_def Let_def)

lemma edits_grow: "\<exists>z. fst (foldl edit q cs) = fst q @ z"
proof (induction cs arbitrary: q)
  case (Cons c cs)
  obtain y z where "fst (edit q c) = fst q @ y" "fst (foldl edit (edit q c) cs) = fst (edit q c) @ z"
    using edit_grows [of q c] Cons [of "edit q c"] by blast
  then show ?case by simp
qed simp

lemma consoleintr_ok:
  assumes "cons_ok s" and "\<forall>c\<in>set cs. 0 \<le> c \<and> c < 256"
  shows "\<exists>w d s'. consoleintr cs s = Ret (w, d) s' \<and> cons_ok s' \<and> (avail s', pend s') = foldl edit (avail s, pend s) cs \<and>
    (w \<longleftrightarrow> length (avail s) < length (avail s'))"
  using assms
proof (induction cs arbitrary: s)
  case (Cons c cs)
  obtain w d t where t: "intr_char c s = Ret (w, d) t" "cons_ok t" "(avail t, pend t) = edit (avail s, pend s) c"
      "w \<longleftrightarrow> length (avail s) < length (avail t)"
    using intr_char_ok [OF Cons.prems(1), of c] Cons.prems(2) by auto
  obtain w' d' s' where s': "consoleintr cs t = Ret (w', d') s'" "cons_ok s'" "(avail s', pend s') = foldl edit (avail t, pend t) cs"
      "w' \<longleftrightarrow> length (avail t) < length (avail s')"
    using Cons.IH [OF t(2)] Cons.prems(2) by auto
  obtain y z where "avail t = avail s @ y" "avail s' = avail t @ z"
    using edit_grows [of "(avail s, pend s)" c] edits_grow [of "(avail t, pend t)" cs] t(3) s'(3) by (metis fst_conv)
  then have "w \<or> w' \<longleftrightarrow> length (avail s) < length (avail s')" using t(4) s'(4) by auto
  then show ?case using t s' by auto
qed auto

subsection \<open>Reading\<close>

text \<open>
  The line a reader that wants \<open>n\<close> more bytes gets, and what stays; \<open>some\<close> says that it has some already.
  \<open>None\<close> is waiting.
\<close>

fun get_line :: "nat \<Rightarrow> bool \<Rightarrow> byte list \<Rightarrow> (byte list \<times> byte list) option" where
  "get_line 0 some av = Some ([], av)"
| "get_line (Suc n) some [] = None"
| "get_line (Suc n) some (c # av) =
     (if c = 4 then Some ([], if some then c # av else av)
      else if c = 10 then Some ([c], av)
      else map_option (\<lambda>(l, rest). (c # l, rest)) (get_line n True av))"

lemma take_one:
  assumes "cons_ok s" and "in_r s \<noteq> in_w s"
  shows "cons_ok (s\<lparr>in_r := in_r s + 1\<rparr>)"
    and "avail s = in_buf s ! (unat (in_r s) mod INPUT_BUF) # avail (s\<lparr>in_r := in_r s + 1\<rparr>)"
    and "pend (s\<lparr>in_r := in_r s + 1\<rparr>) = pend s"
proof -
  let ?t = "s\<lparr>in_r := in_r s + 1\<rparr>"
  note v = cons_view [OF assms(1)]
  have w: "unat (in_w s - in_r s) = unat (in_w s - (in_r s + 1)) + 1" using ib.cnt_pop [OF assms(2)] .
  then have "0 < unat (in_e s - in_r s)" using assms(1) by (simp add: cons_ok_def)
  then have ne: "in_r s \<noteq> in_e s" by auto
  have e: "unat (in_e s - in_r s) = unat (in_e s - (in_r s + 1)) + 1" using ib.cnt_pop [OF ne] .
  have c: "cin s = in_buf s ! (unat (in_r s) mod INPUT_BUF) # cin ?t" using ib.pop [OF ne] by (simp add: cin_def)
  show a: "avail s = in_buf s ! (unat (in_r s) mod INPUT_BUF) # avail ?t" using c w by (simp add: avail_def One_nat_def)
  show p: "pend ?t = pend s" using c w by (simp add: pend_def One_nat_def)
  show "cons_ok ?t" using assms(1) p w e by (simp add: cons_ok_def cga_ok_def)
qed

lemma read_loop_ok:
  assumes "cons_ok s" and "n \<le> target"
  shows "case get_line n (n < target) (avail s) of
      Some (l, rest) \<Rightarrow> \<exists>s'. read_loop killed target n s = Ret (Some l) s' \<and> cons_ok s' \<and> avail s' = rest \<and> pend s' = pend s
    | None \<Rightarrow> \<exists>s'. read_loop killed target n s = (if killed then Ret None s' else Sleep InputChan s') \<and>
        cons_ok s' \<and> avail s' = [] \<and> pend s' = pend s"
  using assms
proof (induction n arbitrary: s)
  case (Suc n)
  show ?case
  proof (cases "in_r s = in_w s")
    case True
    then have "avail s = []" by (simp add: avail_def)
    then show ?thesis using True Suc.prems by auto
  next
    case False
    let ?c = "in_buf s ! (unat (in_r s) mod INPUT_BUF)" and ?t = "s\<lparr>in_r := in_r s + 1\<rparr>"
    note T = take_one [OF Suc.prems(1) False]
    have dd: "uint ?c = Ctl 68 \<longleftrightarrow> ?c = 4"
      by (simp add: Ctl_def word_uint_eq_iff)
    have undo: "?t\<lparr>in_r := in_r ?t - 1\<rparr> = s" by simp
    consider "?c = 4" | "?c \<noteq> 4" "?c = 10" | "?c \<noteq> 4" "?c \<noteq> 10" by blast
    then show ?thesis
    proof cases
      case 1
      have "avail s = 4 # avail ?t" using T(2) 1 by simp
      then show ?thesis using False T(1,3) Suc.prems undo dd 1 by (simp add: Let_def)
    next
      case 2
      then show ?thesis using False T dd unfolding T(2) by (simp add: Let_def)
    next
      case 3
      have "n < target" using Suc.prems(2) by simp
      then show ?thesis using False T dd 3 Suc.IH [OF T(1)] unfolding T(2)
        by (auto simp: Let_def split: option.splits)
    qed
  qed
qed (use assms in auto)

subsection \<open>Properties\<close>

text \<open>
  C18: Line editing: from a console in good order, an interrupt that delivers any characters does not panic, keeps
  the cursor on the screen and the indices of the input buffer in order, and changes the bytes readers may have
  and the line being typed as the abstract line editor \<open>edit\<close> says; readers are woken up exactly when there is
  more to read.
\<close>

theorem console_edits:
  assumes "cons_ok s" and "\<forall>c\<in>set cs. 0 \<le> c \<and> c < 256"
  shows "\<exists>w d s'. consoleintr cs s = Ret (w, d) s' \<and> cons_ok s' \<and>
    (avail s', pend s') = foldl edit (avail s, pend s) cs \<and> (w \<longleftrightarrow> length (avail s) < length (avail s'))"
  by (rule consoleintr_ok [OF assms])

text \<open>
  C35: A read from the console of a process that is not killed returns at most one line: the bytes up to and
  including the first newline, at most \<open>n\<close>, or those before an end-of-file mark, which is kept for the
  next read unless nothing was before it; if no such line is there, the reader sleeps. The line being typed is
  not touched.
\<close>

theorem console_reads_line:
  assumes "cons_ok s"
  shows "case get_line n False (avail s) of
      Some (l, rest) \<Rightarrow> \<exists>s'. read_loop False n n s = Ret (Some l) s' \<and> cons_ok s' \<and> avail s' = rest \<and> pend s' = pend s
    | None \<Rightarrow> \<exists>s'. read_loop False n n s = Sleep InputChan s' \<and> cons_ok s' \<and> avail s' = [] \<and> pend s' = pend s"
  using read_loop_ok [of s n n False, OF assms order.refl] by (auto split: option.splits)

definition ex_cons :: console where
  "ex_cons = \<lparr>in_buf = replicate 128 0, in_r = 0xFFFFFFFF, in_w = 0xFFFFFFFF, in_e = 0xFFFFFFFF, crt = replicate 2000 0,
     crt_pos = 1919, uart = False, serial = []\<rparr>"

lemma ex_cons_ok: "cons_ok ex_cons" "avail ex_cons = []" "pend ex_cons = []"
  by (simp_all add: cons_ok_def cga_ok_def ex_cons_def avail_def pend_def cin_def ring_q_def INPUT_BUF_def)

text \<open>The characters \<open>a\<close>, \<open>b\<close>, backspace, carriage return.\<close>

theorem console_edits_witness:
  "\<exists>w d s'. consoleintr [97, 98, 8, 13] ex_cons = Ret (w, d) s' \<and> (avail s', pend s') = ([97, 10], [])"
  using console_edits [OF ex_cons_ok(1), of "[97, 98, 8, 13]"]
  by (auto simp: ex_cons_ok edit_def INPUT_BUF_def)

theorem console_reads_line_witness: "\<exists>s'. read_loop False 5 5 ex_cons = Sleep InputChan s' \<and> cons_ok s'"
proof -
  have "get_line 5 False [] = None" by (simp add: numeral_eq_Suc)
  then show ?thesis using console_reads_line [OF ex_cons_ok(1), of 5] by (auto simp: ex_cons_ok)
qed

end
