(* ===== verification/Sched.thy ===== *)
theory Sched
  imports Ptable
begin

text \<open>
  The processors and processes of \<open>src/xv6/proc.c\<close> as a transition system over the operations of theory
  \<open>Ptable\<close>: its invariant (one processor per running process, a live parent for every process, unique
  identifiers), the fairness of the scheduler, and the hand-over of locks by which \<open>sleep\<close> and
  \<open>wakeup\<close> lose no wakeup.
\<close>

definition live :: "procstate \<Rightarrow> bool" where
  "live st \<longleftrightarrow> st = SLEEPING \<or> st = RUNNABLE \<or> st = RUNNING"

text \<open>The end of \<open>fork\<close>: process \<open>p\<close> makes the slot \<open>i\<close> its runnable child.\<close>

definition fork_ready :: "nat \<Rightarrow> nat \<Rightarrow> ptable \<Rightarrow> ptable" where
  "fork_ready p i t = set_runnable i (upd_proc i (\<lambda>q. q\<lparr>p_parent := Some p\<rparr>) t)"

definition slot_unused :: "nat \<Rightarrow> ptable \<Rightarrow> ptable" where
  "slot_unused i = upd_proc i (\<lambda>q. q\<lparr>p_state := UNUSED\<rparr>)"

text \<open>
  A processor without a process scans the table. The process of a processor may call any routine of
  \<open>proc.c\<close>; \<open>wakeup\<close> is also called by interrupt handlers.
\<close>

inductive psys_step :: "psys \<Rightarrow> psys \<Rightarrow> bool" where
  dispatch: "oncpu s c = None \<Longrightarrow> psys_step s (scheduler c s)"
| yields: "oncpu s c = Some p \<Longrightarrow> psys_step s (switch_back c (s\<lparr>ptab := yield p (ptab s)\<rparr>))"
| sleeps: "oncpu s c = Some p \<Longrightarrow> psys_step s (switch_back c (s\<lparr>ptab := sleep_enter p chn (ptab s)\<rparr>))"
| wakes: "oncpu s c = Some p \<Longrightarrow> psys_step s (s\<lparr>ptab := sleep_leave p (ptab s)\<rparr>)"
| wake_up: "psys_step s (s\<lparr>ptab := wakeup chn (ptab s)\<rparr>)"
| kills: "oncpu s c = Some p \<Longrightarrow> kill pid (ptab s) = (r, t) \<Longrightarrow> psys_step s (s\<lparr>ptab := t\<rparr>)"
| alloc: "oncpu s c = Some p \<Longrightarrow> alloc_slot (ptab s) = Some (i, t) \<Longrightarrow> psys_step s (s\<lparr>ptab := t\<rparr>)"
| ready: "oncpu s c = Some p \<Longrightarrow> i < NPROC \<Longrightarrow> pstate (ptab s) i = EMBRYO \<Longrightarrow>
    psys_step s (s\<lparr>ptab := fork_ready p i (ptab s)\<rparr>)"
| fails: "oncpu s c = Some p \<Longrightarrow> i < NPROC \<Longrightarrow> pstate (ptab s) i = EMBRYO \<Longrightarrow>
    psys_step s (s\<lparr>ptab := slot_unused i (ptab s)\<rparr>)"
| exits: "oncpu s c = Some p \<Longrightarrow> initproc (ptab s) \<noteq> Some p \<Longrightarrow>
    psys_step s (switch_back c (s\<lparr>ptab := exit_table p (ptab s)\<rparr>))"
| reaps: "oncpu s c = Some p \<Longrightarrow> wait_scan p [0..<NPROC] False (ptab s) = Inl i \<Longrightarrow>
    psys_step s (s\<lparr>ptab := wait_clear i (ptab s)\<rparr>)"

text \<open>
  The system after \<open>userinit\<close>: one process, in slot 0. The fields that \<open>proc\<close> holds besides are arbitrary.
\<close>

definition psys_boot :: "proc \<Rightarrow> psys" where
  "psys_boot p = \<lparr>ptab = \<lparr>procs = (\<lambda>i. p\<lparr>p_pid := if i = 0 then 1 else 0, p_state := if i = 0 then RUNNABLE else UNUSED,
     p_parent := None, p_chan := None, p_killed := False\<rparr>), nextpid = 2, initproc = Some 0\<rparr>,
     oncpu = (\<lambda>_. None), scan = (\<lambda>_. 0)\<rparr>"

inductive psys_run :: "nat \<Rightarrow> psys \<Rightarrow> bool" where
  boot: "psys_run 0 (psys_boot p)"
| step: "psys_run n s \<Longrightarrow> psys_step s s' \<Longrightarrow> psys_run (Suc n) s'"

subsection \<open>The invariant\<close>

definition tab_ok :: "ptable \<Rightarrow> bool" where
  "tab_ok t \<longleftrightarrow>
     (\<exists>i<NPROC. initproc t = Some i \<and> live (pstate t i)) \<and>
     (\<forall>i<NPROC. pstate t i = UNUSED \<or> pstate t i = EMBRYO \<longrightarrow> parent t i = None) \<and>
     (\<forall>i<NPROC. live (pstate t i) \<or> pstate t i = ZOMBIE \<longrightarrow>
        initproc t = Some i \<or> (\<exists>q<NPROC. parent t i = Some q \<and> live (pstate t q))) \<and>
     (\<forall>i<NPROC. pstate t i = SLEEPING \<longrightarrow> p_chan (procs t i) \<noteq> None)"

definition cpus_ok :: "psys \<Rightarrow> bool" where
  "cpus_ok s \<longleftrightarrow>
     (\<forall>c p. oncpu s c = Some p \<longrightarrow> p < NPROC \<and> pstate (ptab s) p = RUNNING) \<and>
     (\<forall>c d p. oncpu s c = Some p \<and> oncpu s d = Some p \<longrightarrow> c = d) \<and>
     (\<forall>p<NPROC. pstate (ptab s) p = RUNNING \<longrightarrow> (\<exists>c. oncpu s c = Some p)) \<and> (\<forall>c. scan s c \<le> NPROC)"

definition pids_ok :: "ptable \<Rightarrow> bool" where
  "pids_ok t \<longleftrightarrow>
     (\<forall>i<NPROC. pstate t i \<noteq> UNUSED \<longrightarrow> 0 < p_pid (procs t i) \<and> p_pid (procs t i) < nextpid t) \<and>
     (\<forall>i<NPROC. \<forall>j<NPROC. pstate t i \<noteq> UNUSED \<and> pstate t j \<noteq> UNUSED \<and> p_pid (procs t i) = p_pid (procs t j) \<longrightarrow> i = j)"

lemma tab_okI:
  assumes "initproc t = Some i" and "i < NPROC" and "live (pstate t i)"
    and "\<And>i. i < NPROC \<Longrightarrow> pstate t i = UNUSED \<or> pstate t i = EMBRYO \<Longrightarrow> parent t i = None"
    and "\<And>i. i < NPROC \<Longrightarrow> live (pstate t i) \<or> pstate t i = ZOMBIE \<Longrightarrow> initproc t \<noteq> Some i \<Longrightarrow>
      \<exists>q<NPROC. parent t i = Some q \<and> live (pstate t q)"
    and "\<And>i. i < NPROC \<Longrightarrow> pstate t i = SLEEPING \<Longrightarrow> p_chan (procs t i) \<noteq> None"
  shows "tab_ok t"
  unfolding tab_ok_def using assms by blast

lemma tab_okD:
  assumes "tab_ok t"
  shows "\<exists>i<NPROC. initproc t = Some i \<and> live (pstate t i)"
    and "\<And>i. i < NPROC \<Longrightarrow> pstate t i = UNUSED \<or> pstate t i = EMBRYO \<Longrightarrow> parent t i = None"
    and "\<And>i. i < NPROC \<Longrightarrow> live (pstate t i) \<or> pstate t i = ZOMBIE \<Longrightarrow> initproc t \<noteq> Some i \<Longrightarrow>
      \<exists>q<NPROC. parent t i = Some q \<and> live (pstate t q)"
    and "\<And>i. i < NPROC \<Longrightarrow> pstate t i = SLEEPING \<Longrightarrow> p_chan (procs t i) \<noteq> None"
  using assms unfolding tab_ok_def by blast+

text \<open>Operations that only move processes between the live states.\<close>

definition live_move :: "ptable \<Rightarrow> ptable \<Rightarrow> bool" where
  "live_move t t' \<longleftrightarrow> initproc t' = initproc t \<and>
     (\<forall>i<NPROC. parent t' i = parent t i \<and>
        (pstate t' i = pstate t i \<or> live (pstate t i) \<and> live (pstate t' i)) \<and>
        (pstate t' i = SLEEPING \<longrightarrow> p_chan (procs t' i) \<noteq> None))"

lemma live_simps [simp]:
  "live SLEEPING" "live RUNNABLE" "live RUNNING" "\<not> live UNUSED" "\<not> live EMBRYO" "\<not> live ZOMBIE"
  by (simp_all add: live_def)

lemma live_move_state:
  assumes "live_move t t'" and "i < NPROC"
  shows "parent t' i = parent t i" and "live (pstate t' i) \<longleftrightarrow> live (pstate t i)"
    and "pstate t' i = ZOMBIE \<longleftrightarrow> pstate t i = ZOMBIE"
    and "pstate t' i = UNUSED \<longleftrightarrow> pstate t i = UNUSED" and "pstate t' i = EMBRYO \<longleftrightarrow> pstate t i = EMBRYO"
  using assms unfolding live_move_def by (metis live_simps)+

lemma live_move_ok:
  assumes "tab_ok t" and "live_move t t'"
  shows "tab_ok t'"
proof -
  note m = live_move_state [OF assms(2)]
  have i: "initproc t' = initproc t" using assms(2) by (simp add: live_move_def)
  have c: "\<forall>i<NPROC. pstate t' i = SLEEPING \<longrightarrow> p_chan (procs t' i) \<noteq> None"
    using assms(2) by (simp add: live_move_def)
  show ?thesis using assms(1) c unfolding tab_ok_def i by (simp add: m cong: conj_cong)
qed

lemma live_moveI:
  assumes "tab_ok t" and "initproc t' = initproc t"
    and "\<And>i. i < NPROC \<Longrightarrow> parent t' i = parent t i \<and>
      (pstate t' i = pstate t i \<and> p_chan (procs t' i) = p_chan (procs t i) \<or>
       live (pstate t i) \<and> live (pstate t' i) \<and> (pstate t' i = SLEEPING \<longrightarrow> p_chan (procs t' i) \<noteq> None))"
  shows "live_move t t'"
  unfolding live_move_def using assms unfolding tab_ok_def by metis

lemma reparent_procs:
  assumes "initproc t \<noteq> Some me"
  shows "procs (reparent me is t) j = (procs t j)
      \<lparr>p_parent := if j \<in> set is \<and> parent t j = Some me then initproc t else parent t j,
       p_state := if j < NPROC \<and> pstate t j = SLEEPING \<and> p_chan (procs t j) = proc_chan (initproc t) \<and>
           (\<exists>i\<in>set is. parent t i = Some me \<and> pstate t i = ZOMBIE) then RUNNABLE else pstate t j\<rparr>
    \<and> initproc (reparent me is t) = initproc t \<and> nextpid (reparent me is t) = nextpid t"
  using assms
proof (induction "is" arbitrary: t)
  case (Cons i "is")
  show ?case
  proof (cases "parent t i = Some me")
    case True
    let ?t = "upd_proc i (\<lambda>p. p\<lparr>p_parent := initproc t\<rparr>) t"
    let ?u = "if pstate t i = ZOMBIE then wakeup1 (proc_chan (initproc t)) ?t else ?t"
    have u: "initproc ?u = initproc t" "nextpid ?u = nextpid t" by (simp_all add: wakeup1_def)
    then have "initproc ?u \<noteq> Some me" using Cons.prems by simp
    note IH = Cons.IH [OF this]
    have r: "reparent me (i # is) t = reparent me is ?u" using True by (simp add: Let_def)
    have pu: "procs ?u j = (procs t j)\<lparr>p_parent := if j = i then initproc t else parent t j,
        p_state := if j < NPROC \<and> pstate t j = SLEEPING \<and> p_chan (procs t j) = proc_chan (initproc t) \<and> pstate t i = ZOMBIE
          then RUNNABLE else pstate t j\<rparr>" for j
      by (simp add: wakeup1_def)
    have z: "(\<exists>k\<in>set is. parent ?u k = Some me \<and> pstate ?u k = ZOMBIE) \<or> pstate t i = ZOMBIE
        \<longleftrightarrow> (\<exists>k\<in>set (i # is). parent t k = Some me \<and> pstate t k = ZOMBIE)"
      unfolding pu using True Cons.prems by auto
    show ?thesis
      unfolding r using IH u z unfolding pu using True Cons.prems by auto
  next
    case False
    then show ?thesis using Cons.IH [OF Cons.prems] by auto
  qed
qed simp

definition exit_wakes :: "nat \<Rightarrow> ptable \<Rightarrow> nat \<Rightarrow> bool" where
  "exit_wakes p t j \<longleftrightarrow> j < NPROC \<and> pstate t j = SLEEPING \<and>
     (p_chan (procs t j) = proc_chan (parent t p) \<or>
      p_chan (procs t j) = proc_chan (initproc t) \<and> (\<exists>i<NPROC. parent t i = Some p \<and> pstate t i = ZOMBIE))"

lemma exit_table_procs:
  assumes "initproc t \<noteq> Some p"
  shows "procs (exit_table p t) j = (procs t j)
      \<lparr>p_parent := if j < NPROC \<and> parent t j = Some p then initproc t else parent t j,
       p_state := if j = p then ZOMBIE else if exit_wakes p t j then RUNNABLE else pstate t j\<rparr>"
    and "initproc (exit_table p t) = initproc t" and "nextpid (exit_table p t) = nextpid t"
proof -
  let ?w = "wakeup1 (proc_chan (parent t p)) t"
  have i: "initproc ?w = initproc t" "nextpid ?w = nextpid t" by (simp_all add: wakeup1_def)
  then have "initproc ?w \<noteq> Some p" using assms by simp
  note R = reparent_procs [OF this, of "[0..<NPROC]"]
  have w: "procs ?w k = (procs t k)\<lparr>p_state := if k < NPROC \<and> pstate t k = SLEEPING \<and> p_chan (procs t k) = proc_chan (parent t p)
      then RUNNABLE else pstate t k\<rparr>" for k
    by (simp add: wakeup1_def)
  have zw: "parent ?w k = parent t k" "pstate ?w k = ZOMBIE \<longleftrightarrow> pstate t k = ZOMBIE" for k
    unfolding w by auto
  have z: "(\<exists>k\<in>set [0..<NPROC]. parent ?w k = Some p \<and> pstate ?w k = ZOMBIE) \<longleftrightarrow>
      (\<exists>k<NPROC. parent t k = Some p \<and> pstate t k = ZOMBIE)"
    unfolding zw by auto
  show "procs (exit_table p t) j = (procs t j)
      \<lparr>p_parent := if j < NPROC \<and> parent t j = Some p then initproc t else parent t j,
       p_state := if j = p then ZOMBIE else if exit_wakes p t j then RUNNABLE else pstate t j\<rparr>"
    unfolding exit_table_def Let_def upd_proc_sel R [THEN conjunct1] z i zw
    unfolding w exit_wakes_def by (cases "j = p") (simp_all, auto)
  show "initproc (exit_table p t) = initproc t" "nextpid (exit_table p t) = nextpid t"
    unfolding exit_table_def Let_def using R i by simp_all
qed

text \<open>Operations that change one slot, which holds no live process before.\<close>

lemma one_slot_ok:
  assumes "tab_ok t" and "i < NPROC" and "\<not> live (pstate t i)" and "initproc t' = initproc t"
    and "\<And>j. j \<noteq> i \<Longrightarrow> procs t' j = procs t j"
    and "(pstate t' i = UNUSED \<or> pstate t' i = EMBRYO) \<and> parent t' i = None \<or>
      pstate t' i = RUNNABLE \<and> (\<exists>p<NPROC. parent t' i = Some p \<and> live (pstate t p))"
  shows "tab_ok t'"
proof -
  obtain k where k: "k < NPROC" "initproc t = Some k" "live (pstate t k)" using tab_okD(1) [OF assms(1)] by blast
  have ki: "q \<noteq> i \<and> procs t' q = procs t q" if "live (pstate t q)" for q using assms(3,5) that by metis
  show ?thesis
  proof (rule tab_okI [of _ k])
    show "\<exists>q<NPROC. parent t' j = Some q \<and> live (pstate t' q)"
      if j: "j < NPROC" "live (pstate t' j) \<or> pstate t' j = ZOMBIE" "initproc t' \<noteq> Some j" for j
    proof -
      have "\<exists>q<NPROC. parent t' j = Some q \<and> live (pstate t q)"
      proof (cases "j = i")
        case True
        then show ?thesis using assms(6) j(2) by auto
      next
        case False
        then show ?thesis using tab_okD(3) [OF assms(1) j(1)] assms(4) assms(5) [OF False] j(2,3) by simp
      qed
      then show ?thesis using ki by metis
    qed
    fix j
    assume j: "j < NPROC"
    show "pstate t' j = UNUSED \<or> pstate t' j = EMBRYO \<Longrightarrow> parent t' j = None"
      using tab_okD(2) [OF assms(1) j] assms(6) assms(5) [of j] by (cases "j = i") auto
    show "pstate t' j = SLEEPING \<Longrightarrow> p_chan (procs t' j) \<noteq> None"
      using tab_okD(4) [OF assms(1) j] assms(6) assms(5) [of j] by (cases "j = i") auto
  qed (use k ki [OF k(3)] assms(4) in auto)
qed

lemma exit_table_ok:
  assumes "tab_ok t" and "initproc t \<noteq> Some p" and "p < NPROC" and "live (pstate t p)"
  shows "tab_ok (exit_table p t)"
proof -
  note E = exit_table_procs [OF assms(2)]
  obtain k where k: "k < NPROC" "initproc t = Some k" "live (pstate t k)" using tab_okD(1) [OF assms(1)] by blast
  have lv: "live (pstate (exit_table p t) q)" if "live (pstate t q)" "q \<noteq> p" for q using that by (simp add: E)
  show ?thesis
  proof (rule tab_okI [of _ k])
    show "\<exists>q<NPROC. parent (exit_table p t) j = Some q \<and> live (pstate (exit_table p t) q)"
      if j: "j < NPROC" "live (pstate (exit_table p t) j) \<or> pstate (exit_table p t) j = ZOMBIE" "initproc (exit_table p t) \<noteq> Some j" for j
    proof (cases "parent t j = Some p")
      case True
      then show ?thesis using k j(1) lv [of k] assms(2) by (intro exI [of _ k]) (auto simp: E)
    next
      case False
      have "live (pstate t j) \<or> pstate t j = ZOMBIE"
        using j(2) assms(4) by (auto simp: E exit_wakes_def split: if_splits)
      then obtain q where "q < NPROC" "parent t j = Some q" "live (pstate t q)"
        using tab_okD(3) [OF assms(1) j(1)] j(3) by (auto simp: E)
      then show ?thesis using False lv [of q] by (intro exI [of _ q]) (auto simp: E)
    qed
    fix j
    assume j: "j < NPROC"
    show "parent (exit_table p t) j = None" if "pstate (exit_table p t) j = UNUSED \<or> pstate (exit_table p t) j = EMBRYO"
    proof -
      have "pstate t j = UNUSED \<or> pstate t j = EMBRYO" using that by (auto simp: E split: if_splits)
      then show ?thesis using tab_okD(2) [OF assms(1) j] by (simp add: E)
    qed
    show "p_chan (procs (exit_table p t) j) \<noteq> None" if "pstate (exit_table p t) j = SLEEPING"
      using tab_okD(4) [OF assms(1) j] that by (auto simp: E split: if_splits)
  qed (use assms(2) k lv [of k] in \<open>auto simp: E\<close>)
qed

lemma wait_scan_Inl: "wait_scan me is h t = Inl i \<Longrightarrow> i \<in> set is \<and> parent t i = Some me \<and> pstate t i = ZOMBIE"
  by (induction me "is" h t rule: wait_scan.induct) (auto split: if_splits)

lemma wait_scan_Inr:
  "wait_scan me is h t = Inr b \<Longrightarrow>
   (\<forall>i\<in>set is. parent t i = Some me \<longrightarrow> pstate t i \<noteq> ZOMBIE) \<and> (b \<longleftrightarrow> h \<or> (\<exists>i\<in>set is. parent t i = Some me))"
  by (induction me "is" h t rule: wait_scan.induct) (auto split: if_splits)

lemma alloc_slot_Some:
  assumes "alloc_slot t = Some (i, t')"
  shows "i < NPROC \<and> pstate t i = UNUSED \<and>
    t' = (upd_proc i (\<lambda>p. p\<lparr>p_state := EMBRYO, p_pid := nextpid t\<rparr>) t)\<lparr>nextpid := nextpid t + 1\<rparr>"
  using assms by (auto simp: alloc_slot_def find_upt_Some split: option.splits)

lemma kill_procs:
  assumes "kill pid t = (r, t')"
  shows "initproc t' = initproc t \<and> nextpid t' = nextpid t \<and>
    (\<forall>j. parent t' j = parent t j \<and> p_pid (procs t' j) = p_pid (procs t j) \<and> p_chan (procs t' j) = p_chan (procs t j) \<and>
      (pstate t' j = pstate t j \<or> pstate t j = SLEEPING \<and> pstate t' j = RUNNABLE))"
  using assms by (auto simp: kill_def split: option.splits if_splits)

lemma scheduler_cases:
  obtains (run) i where "scan s c \<le> i" "i < NPROC" "pstate (ptab s) i = RUNNABLE" "\<And>j. scan s c \<le> j \<Longrightarrow> j < i \<Longrightarrow> pstate (ptab s) j \<noteq> RUNNABLE"
      "scheduler c s = s\<lparr>ptab := upd_proc i (\<lambda>p. p\<lparr>p_state := RUNNING\<rparr>) (ptab s), oncpu := (oncpu s)(c := Some i), scan := (scan s)(c := i + 1)\<rparr>"
  | (wrap) "\<And>j. scan s c \<le> j \<Longrightarrow> j < NPROC \<Longrightarrow> pstate (ptab s) j \<noteq> RUNNABLE" "scheduler c s = s\<lparr>scan := (scan s)(c := 0)\<rparr>"
proof (cases "List.find (\<lambda>i. pstate (ptab s) i = RUNNABLE) [scan s c..<NPROC]")
  case None
  then have "\<forall>j. scan s c \<le> j \<and> j < NPROC \<longrightarrow> pstate (ptab s) j \<noteq> RUNNABLE" by (auto simp: find_None_iff)
  then show ?thesis using None by (intro wrap) (auto simp: scheduler_def)
next
  case (Some i)
  then obtain k where k: "k < NPROC - scan s c" "pstate (ptab s) i = RUNNABLE" "i = scan s c + k"
      "\<forall>j<k. pstate (ptab s) (scan s c + j) \<noteq> RUNNABLE"
    by (auto simp: find_Some_iff)
  have "pstate (ptab s) j \<noteq> RUNNABLE" if "scan s c \<le> j" "j < i" for j
    using k(4) that k(3) by (metis add_diff_cancel_left' diff_less_mono le_add_diff_inverse)
  then show ?thesis using k Some by (intro run [of i]) (auto simp: scheduler_def)
qed

lemma cpus_okD:
  assumes "cpus_ok s" and "oncpu s c = Some p"
  shows "p < NPROC" and "pstate (ptab s) p = RUNNING"
  using assms by (auto simp: cpus_ok_def)

lemma tab_ok_step:
  assumes "psys_step s s'" and "tab_ok (ptab s)" and "cpus_ok s"
  shows "tab_ok (ptab s')"
  using assms(1)
proof cases
  case (dispatch c)
  show ?thesis
  proof (cases rule: scheduler_cases [of s c])
    case (run i)
    then show ?thesis unfolding dispatch by (intro live_move_ok [OF assms(2)] live_moveI [OF assms(2)]) auto
  next
    case wrap
    then show ?thesis using assms(2) unfolding dispatch by simp
  qed
next
  case (yields c p)
  then show ?thesis using cpus_okD [OF assms(3), of c p]
    by (intro live_move_ok [OF assms(2)] live_moveI [OF assms(2)]) (auto simp: switch_back_def yield_def)
next
  case (sleeps c p chn)
  then show ?thesis using cpus_okD [OF assms(3), of c p]
    by (intro live_move_ok [OF assms(2)] live_moveI [OF assms(2)]) (auto simp: switch_back_def sleep_enter_def)
next
  case (wakes c p)
  then show ?thesis using cpus_okD [OF assms(3), of c p]
    by (intro live_move_ok [OF assms(2)] live_moveI [OF assms(2)]) (auto simp: sleep_leave_def)
next
  case (wake_up chn)
  then show ?thesis
    by (intro live_move_ok [OF assms(2)] live_moveI [OF assms(2)]) (auto simp: wakeup_def wakeup1_def)
next
  case (kills c p pid r t)
  show ?thesis
  proof (rule live_move_ok [OF assms(2) live_moveI [OF assms(2)]])
    fix j
    have "pstate t j = pstate (ptab s) j \<or> pstate (ptab s) j = SLEEPING \<and> pstate t j = RUNNABLE"
      using kill_procs [OF kills(3)] by blast
    then show "parent (ptab s') j = parent (ptab s) j \<and>
      (pstate (ptab s') j = pstate (ptab s) j \<and> p_chan (procs (ptab s') j) = p_chan (procs (ptab s) j) \<or>
       live (pstate (ptab s) j) \<and> live (pstate (ptab s') j) \<and> (pstate (ptab s') j = SLEEPING \<longrightarrow> p_chan (procs (ptab s') j) \<noteq> None))"
      using kill_procs [OF kills(3)] kills(1) by auto
  qed (use kill_procs [OF kills(3)] kills(1) in simp)
next
  case (alloc c p i t)
  then show ?thesis using alloc_slot_Some [OF alloc(3)] tab_okD(2) [OF assms(2), of i]
    by (intro one_slot_ok [OF assms(2), of i]) auto
next
  case (ready c p i)
  then show ?thesis using cpus_okD [OF assms(3) ready(2)]
    by (intro one_slot_ok [OF assms(2), of i]) (auto simp: fork_ready_def set_runnable_def)
next
  case (fails c p i)
  then show ?thesis using tab_okD(2) [OF assms(2), of i]
    by (intro one_slot_ok [OF assms(2), of i]) (auto simp: slot_unused_def)
next
  case (exits c p)
  then show ?thesis using exit_table_ok [OF assms(2) exits(3)] cpus_okD [OF assms(3) exits(2)]
    by (simp add: switch_back_def)
next
  case (reaps c p i)
  then show ?thesis using wait_scan_Inl [OF reaps(3)]
    by (intro one_slot_ok [OF assms(2), of i]) (auto simp: wait_clear_def)
qed

lemma cpus_ok_same:
  assumes "cpus_ok s" and "\<And>i. i < NPROC \<Longrightarrow> pstate t i = RUNNING \<longleftrightarrow> pstate (ptab s) i = RUNNING"
  shows "cpus_ok (s\<lparr>ptab := t\<rparr>)"
  using assms unfolding cpus_ok_def by simp

lemma cpus_ok_leave:
  assumes "cpus_ok s" and "oncpu s c = Some p" and "pstate t p \<noteq> RUNNING"
    and "\<And>i. i < NPROC \<Longrightarrow> i \<noteq> p \<Longrightarrow> pstate t i = RUNNING \<longleftrightarrow> pstate (ptab s) i = RUNNING"
  shows "cpus_ok (switch_back c (s\<lparr>ptab := t\<rparr>))"
proof -
  have one: "d = c" if "oncpu s d = Some p" for d using assms(1,2) that by (auto simp: cpus_ok_def)
  show ?thesis
    unfolding cpus_ok_def switch_back_def
  proof (intro conjI allI impI)
    fix q
    assume q: "q < NPROC" "pstate (ptab (s\<lparr>ptab := t, oncpu := (oncpu (s\<lparr>ptab := t\<rparr>))(c := None)\<rparr>)) q = RUNNING"
    then have "q \<noteq> p" "pstate (ptab s) q = RUNNING" using assms(3,4) by auto
    then obtain d where "oncpu s d = Some q" using assms(1) q(1) by (auto simp: cpus_ok_def)
    then show "\<exists>d. oncpu (s\<lparr>ptab := t, oncpu := (oncpu (s\<lparr>ptab := t\<rparr>))(c := None)\<rparr>) d = Some q"
      using assms(2) \<open>q \<noteq> p\<close> by (intro exI [of _ d]) auto
  next
    fix d q
    assume "oncpu (s\<lparr>ptab := t, oncpu := (oncpu (s\<lparr>ptab := t\<rparr>))(c := None)\<rparr>) d = Some q"
    then have d: "d \<noteq> c" "oncpu s d = Some q" by (auto split: if_splits)
    then show "q < NPROC" using cpus_okD [OF assms(1)] by blast
    then show "pstate (ptab (s\<lparr>ptab := t, oncpu := (oncpu (s\<lparr>ptab := t\<rparr>))(c := None)\<rparr>)) q = RUNNING"
      using d one assms(4) [of q] cpus_okD(2) [OF assms(1) d(2)] by auto
  qed (use assms(1) in \<open>auto simp: cpus_ok_def split: if_splits\<close>)
qed

lemma cpus_ok_dispatch:
  assumes "cpus_ok s" and "oncpu s c = None"
  shows "cpus_ok (scheduler c s)"
proof (cases rule: scheduler_cases [of s c])
  case (run i)
  have "oncpu s d \<noteq> Some i" for d using cpus_okD(2) [OF assms(1), of d i] run(3) by auto
  moreover have "\<exists>d. d \<noteq> c \<and> oncpu s d = Some q" if "q < NPROC" "pstate (ptab s) q = RUNNING" for q
    using assms that unfolding cpus_ok_def by (metis option.distinct(1))
  ultimately show ?thesis using assms(1) run(2) unfolding run(5) cpus_ok_def
    by (auto simp: not_le split: if_splits) metis+
next
  case wrap
  then show ?thesis using assms(1) by (simp add: cpus_ok_def)
qed

lemma cpus_ok_step:
  assumes "psys_step s s'" and "cpus_ok s"
  shows "cpus_ok s'"
  using assms(1)
proof cases
  case (dispatch c)
  then show ?thesis using cpus_ok_dispatch [OF assms(2)] by simp
next
  case (yields c p)
  show ?thesis unfolding yields(1) by (rule cpus_ok_leave [OF assms(2) yields(2)]) (auto simp: yield_def)
next
  case (sleeps c p chn)
  show ?thesis unfolding sleeps(1) by (rule cpus_ok_leave [OF assms(2) sleeps(2)]) (auto simp: sleep_enter_def)
next
  case (exits c p)
  show ?thesis unfolding exits(1)
    by (rule cpus_ok_leave [OF assms(2) exits(2)]) (auto simp: exit_table_procs [OF exits(3)] exit_wakes_def)
next
  case (kills c p pid r t)
  show ?thesis unfolding kills(1)
  proof (rule cpus_ok_same [OF assms(2)])
    show "pstate t i = RUNNING \<longleftrightarrow> pstate (ptab s) i = RUNNING" for i
      using kill_procs [OF kills(3)] by (metis procstate.distinct)
  qed
next
  case (alloc c p i t)
  then show ?thesis using alloc_slot_Some [OF alloc(3)] unfolding alloc(1) by (intro cpus_ok_same [OF assms(2)]) auto
next
  case (ready c p i)
  then show ?thesis unfolding ready(1)
    by (intro cpus_ok_same [OF assms(2)]) (auto simp: fork_ready_def set_runnable_def)
next
  case (reaps c p i)
  then show ?thesis using wait_scan_Inl [OF reaps(3)] unfolding reaps(1)
    by (intro cpus_ok_same [OF assms(2)]) (auto simp: wait_clear_def)
qed (use assms(2) in \<open>auto intro!: cpus_ok_same simp: sleep_leave_def wakeup_def wakeup1_def slot_unused_def split: if_splits\<close>)

text \<open>What a step does to identifiers: only \<open>alloc\<close> gives out a new one.\<close>

lemma pids_okD:
  assumes "pids_ok t" and "i < NPROC"
  shows "pstate t i \<noteq> UNUSED \<Longrightarrow> 0 < p_pid (procs t i) \<and> p_pid (procs t i) < nextpid t"
    and "j < NPROC \<Longrightarrow> pstate t i \<noteq> UNUSED \<Longrightarrow> pstate t j \<noteq> UNUSED \<Longrightarrow> p_pid (procs t i) = p_pid (procs t j) \<Longrightarrow> i = j"
  using assms unfolding pids_ok_def by blast+

lemma pids_frame:
  assumes "pids_ok t" and "nextpid t' = nextpid t"
    and "\<And>i. i < NPROC \<Longrightarrow> pstate t' i \<noteq> UNUSED \<Longrightarrow> pstate t i \<noteq> UNUSED \<and> p_pid (procs t' i) = p_pid (procs t i)"
  shows "pids_ok t'"
  unfolding pids_ok_def
proof (intro conjI allI impI)
  fix i
  assume i: "i < NPROC" "pstate t' i \<noteq> UNUSED"
  then show "0 < p_pid (procs t' i)" "p_pid (procs t' i) < nextpid t'"
    using assms(3) [OF i] pids_okD(1) [OF assms(1) i(1)] assms(2) by simp_all
next
  fix i j
  assume i: "i < NPROC" "j < NPROC" "pstate t' i \<noteq> UNUSED \<and> pstate t' j \<noteq> UNUSED \<and> p_pid (procs t' i) = p_pid (procs t' j)"
  then show "i = j"
    by (intro pids_okD(2) [OF assms(1) i(1,2)]) (use assms(3) [OF i(1)] assms(3) [OF i(2)] in auto)
qed

lemma pids_alloc:
  assumes "pids_ok t" and "alloc_slot t = Some (i, t')" and "unat (nextpid t) < 2 ^ 31" and "0 < nextpid t"
  shows "pids_ok t'"
proof -
  note a = alloc_slot_Some [OF assms(2)]
  have n: "nextpid t < nextpid t + 1" using assms(3) by (simp add: word_less_nat_alt unat_plus_small)
  have old: "p_pid (procs t j) < nextpid t + 1 \<and> p_pid (procs t j) \<noteq> nextpid t \<and> 0 < p_pid (procs t j)"
    if "j < NPROC" "pstate t j \<noteq> UNUSED" for j
    using pids_okD(1) [OF assms(1) that] n by auto
  show ?thesis unfolding pids_ok_def
  proof (intro conjI allI impI)
    fix j
    assume "j < NPROC" "pstate t' j \<noteq> UNUSED"
    then show "0 < p_pid (procs t' j)" "p_pid (procs t' j) < nextpid t'"
      using a old [of j] n assms(4) by (auto split: if_splits)
  next
    fix j k
    assume "j < NPROC" "k < NPROC" "pstate t' j \<noteq> UNUSED \<and> pstate t' k \<noteq> UNUSED \<and> p_pid (procs t' j) = p_pid (procs t' k)"
    then show "j = k" using a old [of j] old [of k] pids_okD(2) [OF assms(1), of j k] by (cases "j = i"; cases "k = i") auto
  qed
qed

lemma pids_keep:
  assumes "pids_ok (ptab s)" and "s' = s\<lparr>ptab := t\<rparr> \<or> s' = switch_back c (s\<lparr>ptab := t\<rparr>)" and "nextpid t = nextpid (ptab s)"
    and "\<And>i. i < NPROC \<Longrightarrow> pstate t i \<noteq> UNUSED \<Longrightarrow> pstate (ptab s) i \<noteq> UNUSED \<and> p_pid (procs t i) = p_pid (procs (ptab s) i)"
  shows "pids_ok (ptab s') \<and> (nextpid (ptab s') = nextpid (ptab s) \<or> nextpid (ptab s') = nextpid (ptab s) + 1)"
  using assms(2,3) pids_frame [OF assms(1,3,4)] by (auto simp: switch_back_def)

lemma step_pids:
  assumes "psys_step s s'" and "pids_ok (ptab s)" and "0 < nextpid (ptab s)" and "unat (nextpid (ptab s)) < 2 ^ 31" and "cpus_ok s"
  shows "pids_ok (ptab s') \<and> (nextpid (ptab s') = nextpid (ptab s) \<or> nextpid (ptab s') = nextpid (ptab s) + 1)"
  using assms(1)
proof cases
  case (dispatch c)
  show ?thesis
  proof (cases rule: scheduler_cases [of s c])
    case (run i)
    have "pids_ok (upd_proc i (\<lambda>p. p\<lparr>p_state := RUNNING\<rparr>) (ptab s))"
      by (rule pids_frame [OF assms(2)]) (use run(3) in auto)
    then show ?thesis unfolding dispatch(1) run(5) by simp
  next
    case wrap
    then show ?thesis using assms(2) unfolding dispatch(1) by simp
  qed
next
  case (yields c p)
  show ?thesis by (rule pids_keep [OF assms(2) disjI2, OF yields(1)])
      (use cpus_okD [OF assms(5) yields(2)] in \<open>auto simp: yield_def\<close>)
next
  case (sleeps c p chn)
  show ?thesis by (rule pids_keep [OF assms(2) disjI2, OF sleeps(1)])
      (use cpus_okD [OF assms(5) sleeps(2)] in \<open>auto simp: sleep_enter_def\<close>)
next
  case (wakes c p)
  show ?thesis by (rule pids_keep [OF assms(2) disjI1, OF wakes(1)]) (auto simp: sleep_leave_def split: if_splits)
next
  case (wake_up chn)
  show ?thesis by (rule pids_keep [OF assms(2) disjI1, OF wake_up(1)]) (auto simp: wakeup_def wakeup1_def split: if_splits)
next
  case (exits c p)
  show ?thesis by (rule pids_keep [OF assms(2) disjI2, OF exits(1)])
      (use cpus_okD [OF assms(5) exits(2)] in \<open>auto simp: exit_table_procs [OF exits(3)] exit_wakes_def split: if_splits\<close>)
next
  case (kills c p pid r t)
  show ?thesis
  proof (rule pids_keep [OF assms(2) disjI1, OF kills(1)])
    show "pstate (ptab s) i \<noteq> UNUSED \<and> p_pid (procs t i) = p_pid (procs (ptab s) i)" if "pstate t i \<noteq> UNUSED" for i
      using kill_procs [OF kills(3)] that by (metis procstate.distinct)
  qed (use kill_procs [OF kills(3)] in simp)
next
  case (alloc c p i t)
  then show ?thesis using pids_alloc [OF assms(2) alloc(3) assms(4,3)] alloc_slot_Some [OF alloc(3)] by simp
next
  case (ready c p i)
  then show ?thesis by (intro pids_keep [OF assms(2) disjI1, OF ready(1)]) (auto simp: fork_ready_def set_runnable_def)
next
  case (fails c p i)
  then show ?thesis by (intro pids_keep [OF assms(2) disjI1, OF fails(1)]) (auto simp: slot_unused_def split: if_splits)
next
  case (reaps c p i)
  show ?thesis by (rule pids_keep [OF assms(2) disjI1, OF reaps(1)]) (auto simp: wait_clear_def split: if_splits)
qed

lemma psys_run_inv:
  assumes "psys_run n s"
  shows "tab_ok (ptab s) \<and> cpus_ok s \<and>
    (n + 2 < 2 ^ 31 \<longrightarrow> pids_ok (ptab s) \<and> 0 < nextpid (ptab s) \<and> unat (nextpid (ptab s)) \<le> n + 2)"
  using assms
proof induction
  case (boot p)
  have "tab_ok (ptab (psys_boot p))"
    by (rule tab_okI [of _ 0]) (auto simp: psys_boot_def NPROC_def split: if_splits)
  moreover have "cpus_ok (psys_boot p)" by (auto simp: cpus_ok_def psys_boot_def split: if_splits)
  moreover have "pids_ok (ptab (psys_boot p))" by (auto simp: pids_ok_def psys_boot_def split: if_splits)
  ultimately show ?case by (simp add: psys_boot_def)
next
  case (step n s s')
  have "pids_ok (ptab s') \<and> 0 < nextpid (ptab s') \<and> unat (nextpid (ptab s')) \<le> Suc n + 2" if n: "Suc n + 2 < 2 ^ 31"
  proof -
    have P: "pids_ok (ptab s)" "0 < nextpid (ptab s)" "unat (nextpid (ptab s)) \<le> n + 2" using step.IH n by auto
    have u: "unat (nextpid (ptab s)) < 2 ^ 31" using P(3) n by linarith
    then have "unat (nextpid (ptab s) + 1) = unat (nextpid (ptab s)) + 1" by (subst unat_plus_small) simp_all
    then show ?thesis using step_pids [OF step.hyps(2) P(1,2) u] step.IH P
      by (auto simp: word_less_nat_alt)
  qed
  then show ?case using tab_ok_step [OF step.hyps(2)] cpus_ok_step [OF step.hyps(2)] step.IH by blast
qed

subsection \<open>Sleep and wakeup\<close>

text \<open>
  The hand-over of locks in \<open>sleep(chan, lk)\<close> and \<open>wakeup(chan)\<close>, one lock operation per step, for the
  processes that share the lock \<open>lk\<close> and a condition it protects. A process that finds the condition
  false under the lock may call \<open>sleep\<close>; one that makes it true calls \<open>wakeup\<close> before it
  gives the lock back. The places in the code: outside; holding \<open>lk\<close>; in \<open>sleep\<close> with
  both locks, with \<open>ptable.lock\<close> only, switched away, back from \<open>sched\<close>, about to take
  \<open>lk\<close> again; in \<open>wakeup\<close> before and after \<open>acquire(&ptable.lock)\<close>, and after \<open>wakeup1\<close>.
\<close>

datatype place = Outside | HasLk | SleepBoth | SleepPt | Away | Back | Retake | WakeStart | WakePt | WakeDone

record swsys =
  sw_tab :: ptable
  sw_cond :: bool
  sw_lk :: "nat option"
  sw_ptlock :: "nat option"
  sw_at :: "nat \<Rightarrow> place"

definition go :: "nat \<Rightarrow> place \<Rightarrow> swsys \<Rightarrow> swsys" where
  "go i pl s = s\<lparr>sw_at := (sw_at s)(i := pl)\<rparr>"

inductive sleep_wakeup :: "chan \<Rightarrow> swsys \<Rightarrow> swsys \<Rightarrow> bool" for c where
  take: "sw_at s i = Outside \<or> sw_at s i = Retake \<Longrightarrow> sw_lk s = None \<Longrightarrow> sleep_wakeup c s (go i HasLk (s\<lparr>sw_lk := Some i\<rparr>))"
| give: "sw_at s i = HasLk \<Longrightarrow> sleep_wakeup c s (go i Outside (s\<lparr>sw_lk := None\<rparr>))"
| clear: "sw_at s i = HasLk \<Longrightarrow> sleep_wakeup c s (s\<lparr>sw_cond := False\<rparr>)"
| make: "sw_at s i = HasLk \<Longrightarrow> sleep_wakeup c s (go i WakeStart (s\<lparr>sw_cond := True\<rparr>))"
| sleep_acquire: "sw_at s i = HasLk \<Longrightarrow> \<not> sw_cond s \<Longrightarrow> sw_ptlock s = None \<Longrightarrow>
    sleep_wakeup c s (go i SleepBoth (s\<lparr>sw_ptlock := Some i\<rparr>))"
| sleep_release: "sw_at s i = SleepBoth \<Longrightarrow> sleep_wakeup c s (go i SleepPt (s\<lparr>sw_lk := None\<rparr>))"
| sleep_switch: "sw_at s i = SleepPt \<Longrightarrow>
    sleep_wakeup c s (go i Away (s\<lparr>sw_tab := sleep_enter i c (sw_tab s), sw_ptlock := None\<rparr>))"
| sleep_run: "sw_at s i = Away \<Longrightarrow> pstate (sw_tab s) i = RUNNABLE \<Longrightarrow> sw_ptlock s = None \<Longrightarrow>
    sleep_wakeup c s (go i Back (s\<lparr>sw_ptlock := Some i,
      sw_tab := sleep_leave i (upd_proc i (\<lambda>p. p\<lparr>p_state := RUNNING\<rparr>) (sw_tab s))\<rparr>))"
| sleep_back: "sw_at s i = Back \<Longrightarrow> sleep_wakeup c s (go i Retake (s\<lparr>sw_ptlock := None\<rparr>))"
| wake_acquire: "sw_at s i = WakeStart \<Longrightarrow> sw_ptlock s = None \<Longrightarrow>
    sleep_wakeup c s (go i WakePt (s\<lparr>sw_ptlock := Some i\<rparr>))"
| wake_all: "sw_at s i = WakePt \<Longrightarrow> sleep_wakeup c s (go i WakeDone (s\<lparr>sw_tab := wakeup1 (Some c) (sw_tab s)\<rparr>))"
| wake_release: "sw_at s i = WakeDone \<Longrightarrow> sleep_wakeup c s (go i HasLk (s\<lparr>sw_ptlock := None\<rparr>))"
| wake_kill: "sw_ptlock s = None \<Longrightarrow> kill pid (sw_tab s) = (r, t) \<Longrightarrow> sleep_wakeup c s (s\<lparr>sw_tab := t\<rparr>)"

inductive sw_reach :: "chan \<Rightarrow> swsys \<Rightarrow> bool" for c where
  start: "(\<And>i. sw_at s i = Outside) \<Longrightarrow> sw_lk s = None \<Longrightarrow> sw_ptlock s = None \<Longrightarrow>
    (\<And>i. pstate (sw_tab s) i = SLEEPING \<Longrightarrow> p_chan (procs (sw_tab s) i) \<noteq> Some c) \<Longrightarrow> sw_reach c s"
| more: "sw_reach c s \<Longrightarrow> sleep_wakeup c s s' \<Longrightarrow> sw_reach c s'"

definition lk_places :: "place set" where "lk_places = {HasLk, SleepBoth, WakeStart, WakePt, WakeDone}"
definition pt_places :: "place set" where "pt_places = {SleepBoth, SleepPt, Back, WakePt, WakeDone}"

definition sw_inv :: "chan \<Rightarrow> swsys \<Rightarrow> bool" where
  "sw_inv c s \<longleftrightarrow>
     (\<forall>i. sw_at s i \<in> lk_places \<longleftrightarrow> sw_lk s = Some i) \<and>
     (\<forall>i. sw_at s i \<in> pt_places \<longleftrightarrow> sw_ptlock s = Some i) \<and>
     (\<forall>i. sw_at s i = SleepBoth \<longrightarrow> \<not> sw_cond s) \<and>
     (sw_cond s \<and> (\<exists>i. sw_at s i = SleepPt) \<longrightarrow> (\<exists>w. sw_at s w = WakeStart)) \<and>
     (\<forall>i<NPROC. sw_cond s \<and> pstate (sw_tab s) i = SLEEPING \<and> p_chan (procs (sw_tab s) i) = Some c \<longrightarrow>
        (\<exists>w. sw_at s w = WakeStart \<or> sw_at s w = WakePt))"

lemma sw_inv_start:
  assumes "\<And>i. sw_at s i = Outside" and "sw_lk s = None" and "sw_ptlock s = None"
    and "\<And>i. pstate (sw_tab s) i = SLEEPING \<Longrightarrow> p_chan (procs (sw_tab s) i) \<noteq> Some c"
  shows "sw_inv c s"
  using assms by (auto simp: sw_inv_def lk_places_def pt_places_def)

lemma lock_go:
  assumes "\<forall>j. f j \<in> P \<longleftrightarrow> l = Some j"
    and "l' = l \<and> (b \<in> P \<longleftrightarrow> f i \<in> P) \<or> l = None \<and> l' = Some i \<and> b \<in> P \<or> f i \<in> P \<and> l' = None \<and> b \<notin> P"
  shows "\<forall>j. (f(i := b)) j \<in> P \<longleftrightarrow> l' = Some j"
  using assms by (auto split: if_splits)

lemma sw_invI:
  assumes inv: "sw_inv c s"
    and s': "sw_at s' = (sw_at s)(i := b)"
    and l: "sw_lk s' = sw_lk s \<and> (b \<in> lk_places \<longleftrightarrow> sw_at s i \<in> lk_places) \<or> sw_lk s = None \<and> sw_lk s' = Some i \<and> b \<in> lk_places
      \<or> sw_at s i \<in> lk_places \<and> sw_lk s' = None \<and> b \<notin> lk_places"
    and p: "sw_ptlock s' = sw_ptlock s \<and> (b \<in> pt_places \<longleftrightarrow> sw_at s i \<in> pt_places) \<or> sw_ptlock s = None \<and> sw_ptlock s' = Some i \<and> b \<in> pt_places
      \<or> sw_at s i \<in> pt_places \<and> sw_ptlock s' = None \<and> b \<notin> pt_places"
    and both: "\<And>j. sw_at s' j = SleepBoth \<Longrightarrow> \<not> sw_cond s'"
    and slp: "\<And>j. sw_cond s' \<Longrightarrow> sw_at s' j = SleepPt \<Longrightarrow> \<exists>w. sw_at s' w = WakeStart"
    and slept: "\<And>j. j < NPROC \<Longrightarrow> sw_cond s' \<Longrightarrow> pstate (sw_tab s') j = SLEEPING \<Longrightarrow> p_chan (procs (sw_tab s') j) = Some c \<Longrightarrow>
        \<exists>w. sw_at s' w = WakeStart \<or> sw_at s' w = WakePt"
  shows "sw_inv c s'"
  unfolding sw_inv_def s'
proof (intro conjI)
  have L: "\<forall>j. sw_at s j \<in> lk_places \<longleftrightarrow> sw_lk s = Some j" "\<forall>j. sw_at s j \<in> pt_places \<longleftrightarrow> sw_ptlock s = Some j"
    using inv unfolding sw_inv_def by blast+
  show "\<forall>j. ((sw_at s)(i := b)) j \<in> lk_places \<longleftrightarrow> sw_lk s' = Some j" using lock_go [OF L(1) l] .
  show "\<forall>j. ((sw_at s)(i := b)) j \<in> pt_places \<longleftrightarrow> sw_ptlock s' = Some j" using lock_go [OF L(2) p] .
qed (insert both slp slept, unfold s', blast+)

lemma sw_invD:
  assumes "sw_inv c s"
  shows "sw_at s i \<in> lk_places \<Longrightarrow> sw_at s j \<in> lk_places \<Longrightarrow> i = j"
    and "sw_at s i \<in> pt_places \<Longrightarrow> sw_ptlock s = Some i"
    and "sw_at s i = SleepBoth \<Longrightarrow> \<not> sw_cond s"
    and "sw_cond s \<Longrightarrow> sw_at s i = SleepPt \<Longrightarrow> \<exists>w. sw_at s w = WakeStart"
    and "i < NPROC \<Longrightarrow> sw_cond s \<Longrightarrow> pstate (sw_tab s) i = SLEEPING \<Longrightarrow> p_chan (procs (sw_tab s) i) = Some c \<Longrightarrow>
        \<exists>w. sw_at s w = WakeStart \<or> sw_at s w = WakePt"
  using assms unfolding sw_inv_def by (metis option.inject, blast, blast, blast, blast)

text \<open>A step of a process that is not about to wake the sleepers leaves the obligation with the others.\<close>

lemma sw_inv_plain:
  assumes inv: "sw_inv c s"
    and s': "sw_at s' = (sw_at s)(i := b)"
    and l: "sw_lk s' = sw_lk s \<and> (b \<in> lk_places \<longleftrightarrow> sw_at s i \<in> lk_places) \<or> sw_lk s = None \<and> sw_lk s' = Some i \<and> b \<in> lk_places
      \<or> sw_at s i \<in> lk_places \<and> sw_lk s' = None \<and> b \<notin> lk_places"
    and p: "sw_ptlock s' = sw_ptlock s \<and> (b \<in> pt_places \<longleftrightarrow> sw_at s i \<in> pt_places) \<or> sw_ptlock s = None \<and> sw_ptlock s' = Some i \<and> b \<in> pt_places
      \<or> sw_at s i \<in> pt_places \<and> sw_ptlock s' = None \<and> b \<notin> pt_places"
    and i: "sw_at s i \<noteq> WakeStart" "sw_at s i \<noteq> WakePt" and c: "sw_cond s' \<Longrightarrow> sw_cond s"
    and b: "b = SleepBoth \<or> b = SleepPt \<Longrightarrow> \<not> sw_cond s'"
    and t: "\<And>j. j < NPROC \<Longrightarrow> pstate (sw_tab s') j = SLEEPING \<Longrightarrow> p_chan (procs (sw_tab s') j) = Some c \<Longrightarrow>
        pstate (sw_tab s) j = SLEEPING \<and> p_chan (procs (sw_tab s) j) = Some c \<or> j = i \<and> sw_at s i = SleepPt"
  shows "sw_inv c s'"
proof (rule sw_invI [OF inv s' l p])
  have kept: "\<exists>w. sw_at s' w = WakeStart" if "sw_at s w = WakeStart" for w
    using that i s' by (intro exI [of _ w]) auto
  have kept2: "\<exists>w. sw_at s' w = WakeStart \<or> sw_at s' w = WakePt" if "sw_at s w = WakeStart \<or> sw_at s w = WakePt" for w
    using that i s' by (intro exI [of _ w]) auto
  show "\<not> sw_cond s'" if "sw_at s' j = SleepBoth" for j
    using that b c sw_invD(3) [OF inv, of j] s' by (cases "j = i") auto
  show "\<exists>w. sw_at s' w = WakeStart" if A: "sw_cond s'" "sw_at s' j = SleepPt" for j
  proof -
    have "j \<noteq> i" using A b s' by auto
    then obtain w where "sw_at s w = WakeStart" using A c sw_invD(4) [OF inv, of j] s' by auto
    then show ?thesis by (rule kept)
  qed
  show "\<exists>w. sw_at s' w = WakeStart \<or> sw_at s' w = WakePt"
    if "j < NPROC" "sw_cond s'" "pstate (sw_tab s') j = SLEEPING" "p_chan (procs (sw_tab s') j) = Some c" for j
    using t [OF that(1,3,4)]
  proof
    assume "pstate (sw_tab s) j = SLEEPING \<and> p_chan (procs (sw_tab s) j) = Some c"
    then show ?thesis using sw_invD(5) [OF inv that(1) c [OF that(2)]] kept2 by blast
  next
    assume "j = i \<and> sw_at s i = SleepPt"
    then show ?thesis using sw_invD(4) [OF inv c [OF that(2)], of i] kept by blast
  qed
qed

lemmas places = lk_places_def pt_places_def

lemma sw_inv_step:
  assumes "sleep_wakeup c s s'" and inv: "sw_inv c s"
  shows "sw_inv c s'"
  using assms(1)
proof cases
  case (take i)
  then show ?thesis by (intro sw_inv_plain [OF inv, of s' i HasLk]) (auto simp: go_def places)
next
  case (give i)
  then show ?thesis by (intro sw_inv_plain [OF inv, of s' i Outside]) (auto simp: go_def places)
next
  case (clear i)
  then show ?thesis by (intro sw_inv_plain [OF inv, of s' i HasLk]) (auto simp: go_def places fun_upd_idem_iff)
next
  case (make i)
  have "sw_at s j \<noteq> SleepBoth" for j using sw_invD(1) [OF inv, of i j] make by (auto simp: places)
  then show ?thesis using make by (intro sw_invI [OF inv, of s' i WakeStart]) (auto simp: go_def places split: if_splits)
next
  case (sleep_acquire i)
  then show ?thesis by (intro sw_inv_plain [OF inv, of s' i SleepBoth]) (auto simp: go_def places)
next
  case (sleep_release i)
  then show ?thesis using sw_invD(3) [OF inv, of i]
    by (intro sw_inv_plain [OF inv, of s' i SleepPt]) (auto simp: go_def places)
next
  case (sleep_switch i)
  then show ?thesis by (intro sw_inv_plain [OF inv, of s' i Away]) (auto simp: go_def places sleep_enter_def split: if_splits)
next
  case (sleep_run i)
  then show ?thesis by (intro sw_inv_plain [OF inv, of s' i Back]) (auto simp: go_def places sleep_leave_def split: if_splits)
next
  case (sleep_back i)
  then show ?thesis by (intro sw_inv_plain [OF inv, of s' i Retake]) (auto simp: go_def places)
next
  case (wake_acquire i)
  have "sw_at s j \<noteq> SleepPt" "sw_at s j \<noteq> SleepBoth" for j using sw_invD(2) [OF inv, of j] wake_acquire by (auto simp: places)
  then show ?thesis using wake_acquire by (intro sw_invI [OF inv, of s' i WakePt]) (auto simp: go_def places split: if_splits)
next
  case (wake_all i)
  have "sw_at s j \<noteq> SleepPt" "sw_at s j \<noteq> SleepBoth" for j
    using sw_invD(2) [OF inv, of j] sw_invD(2) [OF inv, of i] wake_all by (auto simp: places)
  then show ?thesis using wake_all
    by (intro sw_invI [OF inv, of s' i WakeDone]) (auto simp: go_def places wakeup1_def split: if_splits)
next
  case (wake_release i)
  then show ?thesis by (intro sw_inv_plain [OF inv, of s' i HasLk]) (auto simp: go_def places)
next
  case (wake_kill pid r t)
  have "pstate (sw_tab s) j = SLEEPING \<and> p_chan (procs (sw_tab s) j) = p_chan (procs t j)" if "pstate t j = SLEEPING" for j
    using kill_procs [OF wake_kill(3)] that by (metis procstate.distinct)
  then show ?thesis using inv wake_kill(1) unfolding sw_inv_def by auto
qed

subsection \<open>Fairness of the scheduler\<close>

text \<open>How many searches a processor whose scan stands at \<open>k\<close> makes at most before it finds \<open>p\<close>.\<close>

definition turns :: "nat \<Rightarrow> nat \<Rightarrow> nat" where
  "turns p k = (if k \<le> p then p - k else p + NPROC + 1 - k)"

lemma scheduler_turn:
  assumes "p < NPROC" and "pstate (ptab s) p = RUNNABLE" and "scan s c \<le> NPROC"
  shows "oncpu (scheduler c s) c = Some p \<or>
    turns p (scan (scheduler c s) c) < turns p (scan s c) \<and> scan (scheduler c s) c \<le> NPROC"
proof (cases rule: scheduler_cases [of s c])
  case (run i)
  have "scan s c \<le> p \<Longrightarrow> i \<le> p" using run(4) [of p] assms(2) by force
  then show ?thesis using run(1,2) assms(1) unfolding run(5) by (auto simp: turns_def)
next
  case wrap
  then have "p < scan s c" using assms(1,2) by (metis not_le)
  then show ?thesis using assms(1,3) unfolding wrap(2) by (auto simp: turns_def)
qed

subsection \<open>Properties\<close>

text \<open>
  C3: In every reachable state of the processors and the process table a running process is on exactly one
  processor, every process that has not been freed, except the first, has a parent that has not exited (so
  that some process can always reap it), a sleeping process has a channel, and, as long as fewer than
  \<open>2^31 - 2\<close> steps have been made, process identifiers are positive and distinct.
\<close>

theorem proc_invariant:
  assumes "psys_run n s"
  shows "(\<forall>p<NPROC. pstate (ptab s) p = RUNNING \<longleftrightarrow> (\<exists>!c. oncpu s c = Some p)) \<and>
    (\<forall>p<NPROC. pstate (ptab s) p \<noteq> UNUSED \<and> pstate (ptab s) p \<noteq> EMBRYO \<and> initproc (ptab s) \<noteq> Some p \<longrightarrow>
       (\<exists>q<NPROC. parent (ptab s) p = Some q \<and> live (pstate (ptab s) q))) \<and>
    (\<forall>p<NPROC. pstate (ptab s) p = SLEEPING \<longrightarrow> p_chan (procs (ptab s) p) \<noteq> None) \<and>
    (n + 2 < 2 ^ 31 \<longrightarrow> (\<forall>p<NPROC. \<forall>q<NPROC. pstate (ptab s) p \<noteq> UNUSED \<and> pstate (ptab s) q \<noteq> UNUSED \<longrightarrow>
       0 < p_pid (procs (ptab s) p) \<and> (p_pid (procs (ptab s) p) = p_pid (procs (ptab s) q) \<longrightarrow> p = q)))"
proof (intro conjI)
  note I = psys_run_inv [OF assms]
  then have t: "tab_ok (ptab s)" and c: "cpus_ok s" by blast+
  show "\<forall>p<NPROC. pstate (ptab s) p = RUNNING \<longleftrightarrow> (\<exists>!c. oncpu s c = Some p)" using c unfolding cpus_ok_def by blast
  show "\<forall>p<NPROC. pstate (ptab s) p \<noteq> UNUSED \<and> pstate (ptab s) p \<noteq> EMBRYO \<and> initproc (ptab s) \<noteq> Some p \<longrightarrow>
       (\<exists>q<NPROC. parent (ptab s) p = Some q \<and> live (pstate (ptab s) q))"
  proof (intro allI impI)
    fix p
    assume p: "p < NPROC" "pstate (ptab s) p \<noteq> UNUSED \<and> pstate (ptab s) p \<noteq> EMBRYO \<and> initproc (ptab s) \<noteq> Some p"
    then have "live (pstate (ptab s) p) \<or> pstate (ptab s) p = ZOMBIE" by (cases "pstate (ptab s) p") auto
    then show "\<exists>q<NPROC. parent (ptab s) p = Some q \<and> live (pstate (ptab s) q)" using tab_okD(3) [OF t p(1)] p(2) by blast
  qed
  show "\<forall>p<NPROC. pstate (ptab s) p = SLEEPING \<longrightarrow> p_chan (procs (ptab s) p) \<noteq> None" using tab_okD(4) [OF t] by blast
  show "n + 2 < 2 ^ 31 \<longrightarrow> (\<forall>p<NPROC. \<forall>q<NPROC. pstate (ptab s) p \<noteq> UNUSED \<and> pstate (ptab s) q \<noteq> UNUSED \<longrightarrow>
       0 < p_pid (procs (ptab s) p) \<and> (p_pid (procs (ptab s) p) = p_pid (procs (ptab s) q) \<longrightarrow> p = q))"
  proof (intro impI allI conjI)
    fix p q
    assume "n + 2 < 2 ^ 31" and p: "p < NPROC" "q < NPROC" "pstate (ptab s) p \<noteq> UNUSED \<and> pstate (ptab s) q \<noteq> UNUSED"
    then have k: "pids_ok (ptab s)" using I by blast
    show "0 < p_pid (procs (ptab s) p)" using pids_okD(1) [OF k p(1)] p(3) by blast
    show "p = q" if "p_pid (procs (ptab s) p) = p_pid (procs (ptab s) q)" using pids_okD(2) [OF k p(1,2)] p(3) that by blast
  qed
qed

text \<open>
  C22: The scheduler is fair: a processor that comes back to the scheduler again and again, whatever the processes
  it runs and the other processors do in between, switches to a process that stays runnable after at most
  \<open>NPROC + 1\<close> searches of the table.
\<close>

theorem scheduler_fair:
  assumes "p < NPROC" and "scan (S 0) c \<le> NPROC"
    and "\<And>k. scan (S (Suc k)) c = scan (scheduler c (S k)) c"
    and "\<And>k. pstate (ptab (S k)) p = RUNNABLE"
  shows "\<exists>k\<le>NPROC. oncpu (scheduler c (S k)) c = Some p"
proof (rule ccontr)
  assume no: "\<not> ?thesis"
  have "k \<le> NPROC + 1 \<Longrightarrow> turns p (scan (S k) c) + k \<le> NPROC \<and> scan (S k) c \<le> NPROC" for k
  proof (induction k)
    case 0
    then show ?case using assms(1,2) by (auto simp: turns_def)
  next
    case (Suc k)
    then have "oncpu (scheduler c (S k)) c \<noteq> Some p" using no by auto
    then show ?case using Suc scheduler_turn [OF assms(1) assms(4) [of k], of c] assms(3) [of k] by auto
  qed
  from this [of "NPROC + 1"] show False by simp
qed

text \<open>
  C12: No wakeup is lost: whenever the condition holds and a process still sleeps on the channel, some process
  is inside \<open>wakeup\<close> and has not yet run \<open>wakeup1\<close>.
\<close>

theorem no_lost_wakeup:
  assumes "sw_reach c s" and "i < NPROC" and "sw_cond s"
    and "pstate (sw_tab s) i = SLEEPING" and "p_chan (procs (sw_tab s) i) = Some c"
  shows "\<exists>w. sw_at s w = WakeStart \<or> sw_at s w = WakePt"
proof -
  have "sw_inv c s" using assms(1) by induction (blast intro: sw_inv_start sw_inv_step)+
  then show ?thesis using sw_invD(5) assms(2-5) by blast
qed

text \<open>
  C40: \<open>kill(0)\<close> succeeds on a free slot, whose identifier is 0, and marks it as killed;
  \<open>allocproc\<close> does not clear the mark, so that the next process made in that slot is killed.
\<close>

theorem kill_marks_free_slot:
  assumes "i < NPROC" and "pstate t i = UNUSED" and "p_pid (procs t i) = 0"
    and "\<forall>j<i. pstate t j \<noteq> UNUSED \<and> p_pid (procs t j) \<noteq> 0"
  shows "\<exists>t' t''. kill 0 t = (0, t') \<and> alloc_slot t' = Some (i, t'') \<and> p_killed (procs t'' i)"
proof -
  have "List.find (\<lambda>j. p_pid (procs t j) = 0) [0..<NPROC] = Some i" using assms by (simp add: find_upt_Some)
  then have k: "kill 0 t = (0, upd_proc i (\<lambda>p. (p\<lparr>p_killed := True\<rparr>)\<lparr>p_state := if p_state p = SLEEPING then RUNNABLE else p_state p\<rparr>) t)"
    (is "_ = (0, ?t)") by (simp add: kill_def)
  have "List.find (\<lambda>j. pstate ?t j = UNUSED) [0..<NPROC] = Some i" using assms by (simp add: find_upt_Some)
  then show ?thesis using k by (simp add: alloc_slot_def)
qed

subsection \<open>Witnesses\<close>

definition ex_tf :: trapframe where
  "ex_tf = \<lparr>tf_edi = 0, tf_esi = 0, tf_ebp = 0, tf_oesp = 0, tf_ebx = 0, tf_edx = 0, tf_ecx = 0, tf_eax = 0,
     tf_gs = 0, tf_fs = 0, tf_es = 0, tf_ds = 0, tf_trapno = 0, tf_err = 0, tf_eip = 0, tf_cs = 0, tf_eflags = 0,
     tf_esp = 0, tf_ss = 0\<rparr>"

definition ex_proc :: proc where
  "ex_proc = \<lparr>p_sz = 0, p_pgdir = 0, p_kstack = 0, p_state = UNUSED, p_pid = 0, p_parent = None, p_tf = ex_tf, p_ret = 0,
     p_context = \<lparr>cx_edi = 0, cx_esi = 0, cx_ebx = 0, cx_ebp = 0, cx_eip = 0\<rparr>, p_chan = None, p_killed = False,
     p_ofile = replicate NOFILE None, p_cwd = None, p_name = replicate 16 0\<rparr>"

theorem proc_invariant_witness:
  "pstate (ptab (scheduler 0 (psys_boot ex_proc))) 0 = RUNNING \<and>
   (\<exists>!c. oncpu (scheduler 0 (psys_boot ex_proc)) c = Some 0)"
proof -
  have d: "List.find (\<lambda>i. pstate (ptab (psys_boot ex_proc)) i = RUNNABLE) [0..<NPROC] = Some 0"
    by (simp add: find_upt_Some psys_boot_def NPROC_def)
  then have "pstate (ptab (scheduler 0 (psys_boot ex_proc))) 0 = RUNNING"
    by (simp add: scheduler_def psys_boot_def)
  moreover have "psys_run 1 (scheduler 0 (psys_boot ex_proc))"
    using psys_run.step [OF psys_run.boot psys_step.dispatch, of ex_proc 0] by (simp add: psys_boot_def One_nat_def)
  ultimately show ?thesis using proc_invariant [of 1 "scheduler 0 (psys_boot ex_proc)"] by (simp add: NPROC_def)
qed

lemma ex_scan:
  "scheduler 0 ((psys_boot ex_proc)\<lparr>scan := \<lambda>_. k\<rparr>) =
    (if k = 0 then (psys_boot ex_proc)\<lparr>ptab := upd_proc 0 (\<lambda>p. p\<lparr>p_state := RUNNING\<rparr>) (ptab (psys_boot ex_proc)),
       oncpu := (\<lambda>_. None)(0 := Some 0), scan := (\<lambda>_. 0)(0 := 1)\<rparr>
     else (psys_boot ex_proc)\<lparr>scan := (\<lambda>_. k)(0 := 0)\<rparr>)"
proof (cases "k = 0")
  case True
  moreover have "List.find (\<lambda>i. pstate (ptab (psys_boot ex_proc)) i = RUNNABLE) [0..<NPROC] = Some 0"
    by (simp add: find_upt_Some psys_boot_def NPROC_def)
  ultimately show ?thesis by (simp add: scheduler_def psys_boot_def)
next
  case False
  then have "List.find (\<lambda>i. pstate (ptab (psys_boot ex_proc)) i = RUNNABLE) [k..<NPROC] = None"
    by (auto simp: find_None_iff psys_boot_def)
  then show ?thesis using False by (simp add: scheduler_def psys_boot_def)
qed

theorem scheduler_fair_witness:
  "\<exists>k\<le>NPROC. oncpu (scheduler 0 ((psys_boot ex_proc)\<lparr>scan := \<lambda>_. (k + 1) mod 2\<rparr>)) 0 = Some 0"
proof -
  have "scan ((psys_boot ex_proc)\<lparr>scan := \<lambda>_. (Suc k + 1) mod 2\<rparr>) 0 =
      scan (scheduler 0 ((psys_boot ex_proc)\<lparr>scan := \<lambda>_. (k + 1) mod 2\<rparr>)) 0" for k
    unfolding ex_scan by simp presburger
  then show ?thesis
    by (intro scheduler_fair [of 0 "\<lambda>k. (psys_boot ex_proc)\<lparr>scan := \<lambda>_. (k + 1) mod 2\<rparr>" 0])
      (auto simp: NPROC_def psys_boot_def)
qed

theorem kill_marks_free_slot_witness:
  "\<exists>t' t''. kill 0 (ptab (psys_boot ex_proc)) = (0, t') \<and> alloc_slot t' = Some (1, t'') \<and> p_killed (procs t'' 1)"
  by (rule kill_marks_free_slot) (auto simp: NPROC_def psys_boot_def)

text \<open>Process 1 has gone to sleep, and process 0 has made the condition true and calls \<open>wakeup\<close>.\<close>

definition ex_sw :: swsys where
  "ex_sw = \<lparr>sw_tab = ptab (psys_boot ex_proc), sw_cond = False, sw_lk = None, sw_ptlock = None, sw_at = (\<lambda>_. Outside)\<rparr>"

definition ex_sw_last :: swsys where
  "ex_sw_last = \<lparr>sw_tab = sleep_enter 1 TicksChan (ptab (psys_boot ex_proc)), sw_cond = True, sw_lk = Some 0,
     sw_ptlock = None, sw_at = (\<lambda>_. Outside)(1 := Away, 0 := WakeStart)\<rparr>"

lemma ex_sw_reach: "sw_reach TicksChan ex_sw_last"
proof -
  let ?a = "go 1 HasLk (ex_sw\<lparr>sw_lk := Some 1\<rparr>)"
  let ?b = "go 1 SleepBoth (?a\<lparr>sw_ptlock := Some 1\<rparr>)"
  let ?c = "go 1 SleepPt (?b\<lparr>sw_lk := None\<rparr>)"
  let ?d = "go 1 Away (?c\<lparr>sw_tab := sleep_enter 1 TicksChan (sw_tab ?c), sw_ptlock := None\<rparr>)"
  let ?e = "go 0 HasLk (?d\<lparr>sw_lk := Some 0\<rparr>)"
  let ?f = "go 0 WakeStart (?e\<lparr>sw_cond := True\<rparr>)"
  have "sw_reach TicksChan ex_sw" by (rule sw_reach.start) (auto simp: ex_sw_def psys_boot_def split: if_splits)
  then have "sw_reach TicksChan ?a" by (rule sw_reach.more [OF _ sleep_wakeup.take]) (simp_all add: ex_sw_def)
  then have "sw_reach TicksChan ?b" by (rule sw_reach.more [OF _ sleep_wakeup.sleep_acquire]) (simp_all add: ex_sw_def go_def)
  then have "sw_reach TicksChan ?c" by (rule sw_reach.more [OF _ sleep_wakeup.sleep_release]) (simp_all add: ex_sw_def go_def)
  then have "sw_reach TicksChan ?d" by (rule sw_reach.more [OF _ sleep_wakeup.sleep_switch]) (simp_all add: ex_sw_def go_def)
  then have "sw_reach TicksChan ?e" by (rule sw_reach.more [OF _ sleep_wakeup.take]) (simp_all add: ex_sw_def go_def)
  then have "sw_reach TicksChan ?f" by (rule sw_reach.more [OF _ sleep_wakeup.make]) (simp_all add: ex_sw_def go_def)
  moreover have "?f = ex_sw_last" by (simp add: ex_sw_def ex_sw_last_def go_def fun_upd_twist)
  ultimately show ?thesis by simp
qed

theorem no_lost_wakeup_witness: "\<exists>w. sw_at ex_sw_last w = WakeStart \<or> sw_at ex_sw_last w = WakePt"
  by (rule no_lost_wakeup [OF ex_sw_reach, of 1]) (auto simp: ex_sw_last_def sleep_enter_def NPROC_def)

end
