(* ===== verification/Log_Ops.thy ===== *)
theory Log_Ops
  imports Log
begin

text \<open>
  Concurrent file system operations on the log (\<open>src/xv6/log.c\<close>), from the start of the machine on: \<open>begin_op\<close>
  returns, blocks are read, changed, handed to \<open>log_write\<close> and released, \<open>end_op\<close> returns. An update of one
  block is a step; operations of different processes interleave between steps. \<open>K\<close> is the number of different blocks an
  operation may change, and \<open>u\<close> gives the blocks each open operation has changed so far.
\<close>

definition update_block :: "int \<Rightarrow> nat \<Rightarrow> byte list \<Rightarrow> lstate \<Rightarrow> (unit, lstate) outcome" where
  "update_block me blk d s =
     obind (lbread me 1 blk s) (\<lambda>i s.
     obind (log_write i (lset_data i d s)) (\<lambda>_ s. lbrelse me i s))"

abbreviation log_home :: "lstate \<Rightarrow> nat \<Rightarrow> bool" where
  "log_home s \<equiv> home (disksize (bc s)) (l_start (lg s)) (l_size (lg s))"

inductive log_ops :: "nat \<Rightarrow> (nat \<Rightarrow> byte list) \<Rightarrow> nat \<Rightarrow> lstate \<Rightarrow> (int \<Rightarrow> nat set option) \<Rightarrow> bool" for K d N where
  boot: "initlog me 1 (reset d N) = Ret () s \<Longrightarrow> log_ops K d N s Map.empty"
| begins: "log_ops K d N s u \<Longrightarrow> u me = None \<Longrightarrow> begin_op s = Ret () t \<Longrightarrow> log_ops K d N t (u(me \<mapsto> {}))"
| updates: "log_ops K d N s u \<Longrightarrow> u me = Some B \<Longrightarrow> card (insert blk B) \<le> K \<Longrightarrow> log_home s blk \<Longrightarrow> length w = BSIZE \<Longrightarrow>
    update_block me blk w s = Ret () t \<Longrightarrow> log_ops K d N t (u(me \<mapsto> insert blk B))"
| ends: "log_ops K d N s u \<Longrightarrow> u me = Some B \<Longrightarrow> end_op me s = Ret () t \<Longrightarrow> log_ops K d N t (u(me := None))"

subsection \<open>Invariant\<close>

text \<open>The number of blocks the open operations may still add to the log.\<close>

definition left :: "nat \<Rightarrow> (int \<Rightarrow> nat set option) \<Rightarrow> nat" where
  "left K u = (\<Sum>m\<in>dom u. K - card (the (u m)))"

abbreviation geom :: "lstate \<Rightarrow> nat \<times> nat \<times> nat" where
  "geom s \<equiv> (disksize (bc s), l_start (lg s), l_size (lg s))"

definition ops_inv :: "nat \<Rightarrow> nat \<times> nat \<times> nat \<Rightarrow> lstate \<Rightarrow> (int \<Rightarrow> nat set option) \<Rightarrow> bool" where
  "ops_inv K g s u \<longleftrightarrow> log_inv s \<and> unlocked s \<and> \<not> l_committing (lg s) \<and> geom s = g \<and> finite (dom u) \<and>
     l_outstanding (lg s) = int (card (dom u)) \<and> (\<forall>m B. u m = Some B \<longrightarrow> B \<subseteq> log_set (lg s) \<and> card B \<le> K) \<and>
     (dom u = {} \<longrightarrow> lh_n (lg s) = 0)"

text \<open>What an update does when there is room in the log.\<close>

lemma update_block_ok:
  assumes "log_inv s" and "unlocked s" and "log_home s blk" and "1 \<le> l_outstanding (lg s)"
    and "lh_n (lg s) + 1 < int (l_size (lg s))" and "length w = BSIZE"
  shows "\<exists>t. update_block me blk w s = Ret () t \<and> log_inv t \<and> unlocked t \<and> log_set (lg t) = insert blk (log_set (lg s)) \<and>
    view (bc t) = (view (bc s))(blk := w) \<and> disksize (bc t) = disksize (bc s) \<and>
    l_start (lg t) = l_start (lg s) \<and> l_size (lg t) = l_size (lg s) \<and>
    l_outstanding (lg t) = l_outstanding (lg s) \<and> l_committing (lg t) = l_committing (lg s)"
proof -
  have c: "card (t_busy (tabs s)) < NBUF" using log_inv_card [OF assms(1,2)] t_busy_tabs [OF assms(1)] by simp
  have l: "card (t_log (tabs s)) < t_slots (tabs s)"
    using log_inv_card_set [OF assms(1)] assms(5) log_invD(5) [OF assms(1)] by simp
  obtain i s1 s2 t where 1: "lbread me 1 blk s = Ret i s1" "log_write i (lset_data i w s1) = Ret () s2"
    "lbrelse me i s2 = Ret () t" "log_inv t" "tabs t = t_put blk w (tabs s)"
    by (rule lst.update_block [OF assms(1), of blk w me]) (use assms c l in simp_all)
  have p: "view (bc t) = (view (bc s))(blk := w)" "log_set (lg t) = insert blk (log_set (lg s))" "unlocked t"
    "disksize (bc t) = disksize (bc s)"
    using arg_cong [OF 1(5), of t_view] arg_cong [OF 1(5), of t_log] arg_cong [OF 1(5), of t_locked]
      arg_cong [OF 1(5), of t_size] assms(2) by (simp_all add: fun_eq_iff)
  have "l_start (lg t) = l_start (lg s) \<and> l_size (lg t) = l_size (lg s) \<and> l_outstanding (lg t) = l_outstanding (lg s) \<and>
    l_committing (lg t) = l_committing (lg s)"
    using 1(1-3) by (auto simp: lbread_def lbrelse_def on_bc_def olift_Ret_iff log_write_def Let_def lset_data_def split: if_splits)
  then show ?thesis using 1 p by (auto simp: update_block_def)
qed

lemma update_block_full:
  assumes "log_inv s" and "unlocked s" and "log_home s blk" and "lh_n (lg s) = int (l_size (lg s)) - 1"
  shows "update_block me blk w s = Panic ''too big a transaction''"
proof -
  have c: "card (t_busy (tabs s)) < NBUF" using log_inv_card [OF assms(1,2)] t_busy_tabs [OF assms(1)] by simp
  obtain i s1 where 1: "lbread me 1 blk s = Ret i s1"
    using lst.bread_ok [OF assms(1), of blk me] assms(2,3) c by (auto simp: home_def)
  then have "lg s1 = lg s" by (auto simp: lbread_def on_bc_def olift_Ret_iff)
  then show ?thesis using 1 assms(4) by (simp add: update_block_def log_write_def lset_data_def Let_def)
qed

lemma left_upd:
  assumes "finite (dom u)" and "u m = Some B"
  shows "left K (u(m \<mapsto> B')) + (K - card B) = left K u + (K - card B')" and "left K (u(m := None)) + (K - card B) = left K u"
proof -
  have d: "dom u = insert m (dom u - {m})" using assms(2) by auto
  have r: "left K u = (K - card B) + (\<Sum>x\<in>dom u - {m}. K - card (the (u x)))"
    unfolding left_def by (subst d, subst sum.insert) (use assms in auto)
  have "left K (u(m \<mapsto> B')) = (\<Sum>x\<in>insert m (dom u - {m}). K - card (the ((u(m \<mapsto> B')) x)))"
    unfolding left_def using d by simp
  also have "\<dots> = (K - card B') + (\<Sum>x\<in>dom u - {m}. K - card (the (u x)))"
    by (subst sum.insert) (use assms in \<open>auto intro!: sum.cong\<close>)
  finally show "left K (u(m \<mapsto> B')) + (K - card B) = left K u + (K - card B')" using r by simp
  have "left K (u(m := None)) = (\<Sum>x\<in>dom u - {m}. K - card (the (u x)))" by (auto simp: left_def intro!: sum.cong)
  then show "left K (u(m := None)) + (K - card B) = left K u" using r by simp
qed

lemma left_new:
  assumes "finite (dom u)" and "u m = None"
  shows "left K (u(m \<mapsto> {})) = left K u + K"
proof -
  have "left K (u(m \<mapsto> {})) = K + (\<Sum>x\<in>dom u. K - card (the ((u(m \<mapsto> {})) x)))"
    unfolding left_def using assms by (auto simp: domIff)
  also have "(\<Sum>x\<in>dom u. K - card (the ((u(m \<mapsto> {})) x))) = left K u"
    unfolding left_def using assms(2) by (intro sum.cong) auto
  finally show ?thesis by (simp only: add.commute)
qed

lemma left_bound: "left K u \<le> card (dom u) * K"
  unfolding left_def using sum_bounded_above [of "dom u" "\<lambda>x. K - card (the (u x))" K] by simp

lemma log_inv_count: "log_inv s \<Longrightarrow> lh_n (lg s) = int (card (log_set (lg s)))"
  using log_inv_card_set [of s] log_invD(5) [of s] by simp

definition reserved :: "nat \<Rightarrow> lstate \<Rightarrow> (int \<Rightarrow> nat set option) \<Rightarrow> bool" where
  "reserved K s u \<longleftrightarrow> lh_n (lg s) + int (left K u) \<le> MAXOPBLOCKS + 2 * int K"

text \<open>One lemma for each kind of step.\<close>

lemma ops_begins:
  assumes "ops_inv K g s u" and "u me = None" and "begin_op s = Ret () t" and "int K \<le> MAXOPBLOCKS"
  shows "ops_inv K g t (u(me \<mapsto> {})) \<and> reserved K t (u(me \<mapsto> {}))"
proof -
  have t: "t = s\<lparr>lg := (lg s)\<lparr>l_outstanding := l_outstanding (lg s) + 1\<rparr>\<rparr>"
    and g: "lh_n (lg s) + (l_outstanding (lg s) + 1) * MAXOPBLOCKS \<le> LOGSIZE"
    using assms(3) by (auto simp: begin_op_def split: if_splits)
  have I: "log_inv s" "finite (dom u)" "l_outstanding (lg s) = int (card (dom u))" "dom u = {} \<Longrightarrow> lh_n (lg s) = 0"
    using assms(1) by (auto simp: ops_inv_def)
  have n: "0 \<le> lh_n (lg s)" using log_invD(5) [OF I(1)] .
  have m: "me \<notin> dom u" using assms(2) by auto
  have "log_inv t" using I(1) by (simp add: t log_inv_def Let_def)
  then have "ops_inv K g t (u(me \<mapsto> {}))" using assms(1) m by (auto simp: ops_inv_def t log_set_def)
  moreover have "lh_n (lg s) + int (left K u + K) \<le> MAXOPBLOCKS + 2 * int K"
  proof -
    let ?c = "card (dom u)"
    have c: "int ?c * 10 + lh_n (lg s) \<le> 20" using g I(3) by (simp add: LOGSIZE_def MAXOPBLOCKS_def algebra_simps)
    then consider "?c = 0" | "?c = 1" | "?c = 2" using n by linarith
    then show ?thesis
    proof cases
      case 1
      then show ?thesis using left_bound [of K u] I(2,4) by (simp add: MAXOPBLOCKS_def)
    next
      case 2
      then show ?thesis using left_bound [of K u] c by (simp add: MAXOPBLOCKS_def)
    next
      case 3
      then show ?thesis using left_bound [of K u] c assms(4) by (simp add: MAXOPBLOCKS_def)
    qed
  qed
  ultimately show ?thesis using left_new [OF I(2) assms(2)] by (simp add: reserved_def t)
qed

lemma ops_updates:
  assumes "ops_inv K g s u" and "u me = Some B" and "card (insert blk B) \<le> K" and "log_home s blk" and "length w = BSIZE"
    and "update_block me blk w s = Ret () t" and "reserved K s u"
  shows "ops_inv K g t (u(me \<mapsto> insert blk B)) \<and> reserved K t (u(me \<mapsto> insert blk B))"
proof -
  have I: "log_inv s" "unlocked s" "finite (dom u)" "l_outstanding (lg s) = int (card (dom u))" "B \<subseteq> log_set (lg s)"
    "card B \<le> K" "geom s = g" "\<not> l_committing (lg s)"
    "\<And>m C. u m = Some C \<Longrightarrow> C \<subseteq> log_set (lg s) \<and> card C \<le> K"
    using assms(1,2) by (auto simp: ops_inv_def)
  have m: "me \<in> dom u" using assms(2) by auto
  then have o: "1 \<le> l_outstanding (lg s)" using I(3,4) card_gt_0_iff [of "dom u"] by auto
  have room: "lh_n (lg s) + 1 < int (l_size (lg s))"
    using update_block_full [OF I(1,2) assms(4), of me w] log_invD(6) [OF I(1)] assms(6) by fastforce
  obtain t' where "update_block me blk w s = Ret () t'" "log_inv t'" "unlocked t'" "log_set (lg t') = insert blk (log_set (lg s))"
    "geom t' = geom s" "l_outstanding (lg t') = l_outstanding (lg s)" "l_committing (lg t') = l_committing (lg s)"
    using update_block_ok [OF I(1,2) assms(4) o room assms(5), of me] by blast
  then have T: "log_inv t" "unlocked t" "log_set (lg t) = insert blk (log_set (lg s))"
    "geom t = geom s" "l_outstanding (lg t) = l_outstanding (lg s)" "l_committing (lg t) = l_committing (lg s)"
    using assms(6) by simp_all
  have fin: "finite (log_set (lg s))" by (simp add: log_set_def)
  have fb: "finite B" using I(5) fin by (rule finite_subset)
  have "C \<subseteq> log_set (lg t) \<and> card C \<le> K" if "(u(me \<mapsto> insert blk B)) m = Some C" for m C
    using that I(5) I(9) [of m C] assms(3) T(3) by (cases "m = me") auto
  then have "ops_inv K g t (u(me \<mapsto> insert blk B))"
    unfolding ops_inv_def using T(1,2,4-6) I(3,4,7,8) m by (auto simp: insert_absorb)
  moreover have "lh_n (lg t) + int (left K (u(me \<mapsto> insert blk B))) \<le> lh_n (lg s) + int (left K u)"
  proof (cases "blk \<in> log_set (lg s)")
    case True
    then have "lh_n (lg t) = lh_n (lg s)" using log_inv_count [OF I(1)] log_inv_count [OF T(1)] T(3) by (simp add: insert_absorb)
    moreover have "card B \<le> card (insert blk B)" by (rule card_insert_le)
    ultimately show ?thesis using left_upd(1) [OF I(3) assms(2), of K "insert blk B"] by simp
  next
    case False
    then have "lh_n (lg t) = lh_n (lg s) + 1" using log_inv_count [OF I(1)] log_inv_count [OF T(1)] T(3) fin by simp
    moreover have "card (insert blk B) = card B + 1"
      using card_insert_disjoint [OF fb, of blk] False I(5) by (auto simp: One_nat_def)
    ultimately show ?thesis using left_upd(1) [OF I(3) assms(2), of K "insert blk B"] assms(3) by simp
  qed
  ultimately show ?thesis using assms(7) by (simp add: reserved_def)
qed

lemma end_op_ok:
  assumes "ops_inv K g s u" and "u me = Some B"
  shows "\<exists>t. end_op me s = Ret () t \<and> ops_inv K g t (u(me := None)) \<and> lh_n (lg t) \<le> lh_n (lg s)"
proof -
  have I: "log_inv s" "unlocked s" "finite (dom u)" "l_outstanding (lg s) = int (card (dom u))" "\<not> l_committing (lg s)"
    using assms(1) by (auto simp: ops_inv_def)
  have m: "me \<in> dom u" using assms(2) by auto
  then have c: "card (dom u - {me}) + 1 = card (dom u)" using card.remove [OF I(3) m] by simp
  show ?thesis
  proof (cases "l_outstanding (lg s) = 1")
    case True
    let ?s = "s\<lparr>lg := (lg s)\<lparr>l_outstanding := 0, l_committing := True\<rparr>\<rparr>"
    have inv: "log_inv ?s" "unlocked ?s" using I by (simp_all add: log_inv_def Let_def)
    obtain t where t: "commit me ?s = Ret () t" using commit_ok [OF inv, of me] by blast
    note C = commit_inv [OF inv t]
    have e: "end_op me s = Ret () (t\<lparr>lg := (lg t)\<lparr>l_committing := False\<rparr>\<rparr>)" using True I(5) t by (simp add: end_op_def Let_def)
    have d: "dom u - {me} = {}" using True I(3,4) c by simp
    have "log_inv (t\<lparr>lg := (lg t)\<lparr>l_committing := False\<rparr>\<rparr>)" using C(1) by (simp add: log_inv_def Let_def)
    moreover have "u(me := None) = Map.empty" using d by (auto simp: fun_eq_iff domIff)
    ultimately have "ops_inv K g (t\<lparr>lg := (lg t)\<lparr>l_committing := False\<rparr>\<rparr>) (u(me := None))"
      using C(2,3,5) assms(1) by (auto simp: ops_inv_def)
    then show ?thesis using e C(3) log_invD(5) [OF I(1)] by simp
  next
    case False
    let ?t = "s\<lparr>lg := (lg s)\<lparr>l_outstanding := l_outstanding (lg s) - 1\<rparr>\<rparr>"
    have e: "end_op me s = Ret () ?t" using False I(5) by (simp add: end_op_def Let_def)
    have "log_inv ?t" using I(1) by (simp add: log_inv_def Let_def)
    moreover have "dom u - {me} \<noteq> {}"
    proof
      assume "dom u - {me} = {}"
      then have "card (dom u) = 1" using c by (simp only: card.empty)
      then show False using False I(4) by simp
    qed
    ultimately have "ops_inv K g ?t (u(me := None))"
      using assms(1) c by (auto simp: ops_inv_def log_set_def)
    then show ?thesis using e by simp
  qed
qed

lemma log_ops_inv:
  assumes "log_ops K d N s u" and "log_ok d N st sz" and "int K \<le> MAXOPBLOCKS"
  shows "ops_inv K (N, st, sz) s u \<and> reserved K s u"
  using assms(1)
proof (induction rule: log_ops.induct)
  case (boot me s)
  then show ?case using log_inv_initlog [OF assms(2) boot] by (simp add: ops_inv_def reserved_def left_def MAXOPBLOCKS_def)
next
  case (begins s u me t)
  then show ?case using ops_begins assms(3) by blast
next
  case (updates s u me B blk w t)
  then show ?case using ops_updates by blast
next
  case (ends s u me B t)
  have "finite (dom u)" using ends by (simp add: ops_inv_def)
  then have l: "left K (u(me := None)) \<le> left K u" using left_upd(2) [of u me B K] ends(2) by simp
  have t: "ops_inv K (N, st, sz) t (u(me := None))" "lh_n (lg t) \<le> lh_n (lg s)" using end_op_ok [of K "(N, st, sz)" s u me B] ends by auto
  have "lh_n (lg t) + int (left K (u(me := None))) \<le> MAXOPBLOCKS + 2 * int K"
    using l t(2) conjunct2 [OF ends(4), unfolded reserved_def] by linarith
  then show ?case unfolding reserved_def using t(1) by (rule conjI [rotated])
qed

subsection \<open>Properties\<close>

text \<open>
  C28: the space that \<open>begin_op\<close> reserves is enough when every operation changes fewer than \<open>MAXOPBLOCKS\<close> different
  blocks: on the log that \<open>mkfs\<close> makes, of \<open>LOGSIZE\<close> blocks with the header, in every state that concurrent operations
  reach, the blocks logged and those still reserved are within the log, an operation below its limit reads and changes any
  block outside the log without a panic or a wait for a buffer, and it can end.
\<close>

theorem log_reservation:
  assumes "log_ok d N st (nat LOGSIZE)" and "int K < MAXOPBLOCKS" and "log_ops K d N s u" and "u me = Some B"
    and "card (insert blk B) \<le> K" and "log_home s blk" and "length w = BSIZE"
  shows "lh_n (lg s) + int (left K u) < LOGSIZE - 1 \<and>
    (\<exists>t. update_block me blk w s = Ret () t \<and> view (bc t) = (view (bc s))(blk := w)) \<and> (\<exists>t. end_op me s = Ret () t)"
proof -
  have I: "ops_inv K (N, st, nat LOGSIZE) s u" "reserved K s u" using log_ops_inv [OF assms(3,1)] assms(2) by auto
  then have b: "lh_n (lg s) + int (left K u) < LOGSIZE - 1"
    using assms(2) by (simp add: reserved_def LOGSIZE_def MAXOPBLOCKS_def)
  have J: "log_inv s" "unlocked s" "l_size (lg s) = nat LOGSIZE" "l_outstanding (lg s) = int (card (dom u))" "finite (dom u)"
    using I(1) by (auto simp: ops_inv_def)
  have o: "1 \<le> l_outstanding (lg s)" using J(4,5) assms(4) card_gt_0_iff [of "dom u"] by auto
  have "lh_n (lg s) + 1 < int (l_size (lg s))" using b J(3) by (simp add: LOGSIZE_def MAXOPBLOCKS_def)
  from update_block_ok [OF J(1,2) assms(6) o this assms(7), of me]
  have "\<exists>t. update_block me blk w s = Ret () t \<and> view (bc t) = (view (bc s))(blk := w)" by blast
  then show ?thesis using b end_op_ok [OF I(1) assms(4)] by blast
qed

text \<open>The blocks of three operations that each change ten blocks behind the log.\<close>

definition ten_each :: "nat \<Rightarrow> nat \<Rightarrow> int \<Rightarrow> nat set option" where
  "ten_each b k m = (if m \<in> {0, 1, 2} then Some ((+) b ` {i. i < k \<and> int (i div 10) = m}) else None)"

lemma ten_each_Suc: "ten_each b (Suc k) = (ten_each b k)(int (k div 10) \<mapsto> insert (b + k) (the (ten_each b k (int (k div 10)))))" if "k < 30"
proof
  fix m
  have "int (k div 10) \<in> {0, 1, 2}" using that by (simp add: div_less_iff_less_mult) presburger
  then show "ten_each b (Suc k) m = ((ten_each b k)(int (k div 10) \<mapsto> insert (b + k) (the (ten_each b k (int (k div 10)))))) m"
    by (auto simp: ten_each_def less_Suc_eq)
qed

lemma ten_each_card: "k < 30 \<Longrightarrow> card (insert (b + k) (the (ten_each b k (int (k div 10))))) \<le> 10"
proof -
  assume k: "k < 30"
  let ?q = "k div 10"
  have "int ?q \<in> {0, 1, 2}" using k by (simp add: div_less_iff_less_mult) presburger
  then have "insert (b + k) (the (ten_each b k (int ?q))) \<subseteq> (+) b ` {10 * ?q..<10 * ?q + 10}" by (auto simp: ten_each_def)
  from card_mono [OF _ this] have "card (insert (b + k) (the (ten_each b k (int ?q)))) \<le> card ((+) b ` {10 * ?q..<10 * ?q + 10})" by simp
  also have "\<dots> = 10" by (subst card_image) simp_all
  finally show ?thesis .
qed

lemma ten_each_reach:
  assumes ok: "log_ok d N st 30" and N: "st + 60 \<le> N" and k: "k \<le> 29"
  shows "\<exists>s. log_ops 10 d N s (ten_each (st + 30) k) \<and> log_set (lg s) = (+) (st + 30) ` {..<k}"
  using k
proof (induction k)
  case 0
  obtain r where r: "initlog 1 1 (reset d N) = Ret () r" using initlog_ok [OF ok, of 1] by blast
  note R = log_inv_initlog [OF ok r]
  let ?s = "\<lambda>n. r\<lparr>lg := (lg r)\<lparr>l_outstanding := n\<rparr>\<rparr>"
  have b: "begin_op (?s n) = Ret () (?s (n + 1))" if "n \<le> 2" for n
    using that R(7,9) by (simp add: begin_op_def LOGSIZE_def MAXOPBLOCKS_def)
  have "r = ?s 0" using R(8) by simp
  then have "log_ops 10 d N (?s 0) Map.empty" using boot [OF r] by metis
  from begins [OF this _ b, of 0] have "log_ops 10 d N (?s 1) (Map.empty(0 \<mapsto> {}))" by simp
  from begins [OF this _ b, of 1] have "log_ops 10 d N (?s 2) (Map.empty(0 \<mapsto> {}, 1 \<mapsto> {}))" by simp
  from begins [OF this _ b, of 2] have "log_ops 10 d N (?s 3) (Map.empty(0 \<mapsto> {}, 1 \<mapsto> {}, 2 \<mapsto> {}))" by simp
  moreover have "ten_each (st + 30) 0 = Map.empty(0 \<mapsto> {}, 1 \<mapsto> {}, 2 \<mapsto> {})" by (auto simp: ten_each_def fun_eq_iff)
  moreover have "log_set (lg (?s 3)) = (+) (st + 30) ` {..<0}" using R(7) by (simp add: log_set_def)
  ultimately show ?case by metis
next
  case (Suc k)
  then obtain s where s: "log_ops 10 d N s (ten_each (st + 30) k)" "log_set (lg s) = (+) (st + 30) ` {..<k}" by auto
  have I: "ops_inv 10 (N, st, 30) s (ten_each (st + 30) k)" using log_ops_inv [OF s(1) ok] by (simp add: MAXOPBLOCKS_def)
  let ?m = "int (k div 10)" and ?w = "replicate BSIZE 0"
  have q: "?m \<in> {0, 1, 2}" using Suc.prems by (simp add: div_less_iff_less_mult) presburger
  then obtain B where B: "ten_each (st + 30) k ?m = Some B" by (simp add: ten_each_def)
  have J: "log_inv s" "unlocked s" "geom s = (N, st, 30)" "l_outstanding (lg s) = int (card (dom (ten_each (st + 30) k)))"
    "finite (dom (ten_each (st + 30) k))" using I by (auto simp: ops_inv_def)
  have o: "1 \<le> l_outstanding (lg s)" using J(4,5) B card_gt_0_iff [of "dom (ten_each (st + 30) k)"] by auto
  have n: "lh_n (lg s) = int k" using log_inv_count [OF J(1)] s(2) by (simp add: card_image)
  have h: "log_home s (st + 30 + k)" using J(3) N Suc.prems ok by (auto simp: home_def log_ok_def sb_ok_def geometry_def)
  obtain t where t: "update_block ?m (st + 30 + k) ?w s = Ret () t" "log_set (lg t) = insert (st + 30 + k) (log_set (lg s))"
    using update_block_ok [OF J(1,2) h o, of ?w ?m] n J(3) Suc.prems by auto
  have c: "card (insert (st + 30 + k) B) \<le> 10" using ten_each_card [of k "st + 30"] Suc.prems B by simp
  have "log_ops 10 d N t ((ten_each (st + 30) k)(?m \<mapsto> insert (st + 30 + k) B))"
    by (rule updates [OF s(1) B c h _ t(1)]) simp
  moreover have "ten_each (st + 30) (Suc k) = (ten_each (st + 30) k)(?m \<mapsto> insert (st + 30 + k) B)"
    using ten_each_Suc [of k "st + 30"] Suc.prems B by simp
  moreover have "log_set (lg t) = (+) (st + 30) ` {..<Suc k}" using t(2) s(2) by (simp add: lessThan_Suc)
  ultimately show ?case by metis
qed

text \<open>
  C38: for operations that change \<open>MAXOPBLOCKS\<close> blocks, which is what the limit allows, the space is one block short. On a
  disk as \<open>mkfs\<close> makes it, whose log has \<open>LOGSIZE\<close> blocks with the header, three operations that are admitted together
  reach a state in which the third of them, changing its tenth block, panics.
\<close>

theorem log_one_block_short:
  assumes "log_ok d N st (nat LOGSIZE)" and "st + 2 * nat LOGSIZE \<le> N"
  shows "\<exists>s u B blk. log_ops (nat MAXOPBLOCKS) d N s u \<and> u 2 = Some B \<and> card (insert blk B) \<le> nat MAXOPBLOCKS \<and>
    log_home s blk \<and> update_block 2 blk (replicate BSIZE 0) s = Panic ''too big a transaction''"
proof -
  have c: "nat LOGSIZE = 30" "nat MAXOPBLOCKS = 10" by (simp_all add: LOGSIZE_def MAXOPBLOCKS_def)
  have ok: "log_ok d N st 30" and N: "st + 60 \<le> N" using assms by (simp_all add: c)
  let ?u = "ten_each (st + 30) 29"
  obtain s where s: "log_ops 10 d N s ?u" "log_set (lg s) = (+) (st + 30) ` {..<29}"
    using ten_each_reach [OF ok N, of 29] by auto
  have I: "ops_inv 10 (N, st, 30) s ?u" using log_ops_inv [OF s(1) ok] by (simp add: MAXOPBLOCKS_def)
  then have J: "log_inv s" "unlocked s" "geom s = (N, st, 30)" by (auto simp: ops_inv_def)
  have n: "lh_n (lg s) = 29" using log_inv_count [OF J(1)] s(2) by (simp add: card_image)
  have h: "log_home s (st + 30 + 29)" using J(3) N ok by (auto simp: home_def log_ok_def sb_ok_def geometry_def)
  have "update_block 2 (st + 30 + 29) (replicate BSIZE 0) s = Panic ''too big a transaction''"
    using update_block_full [OF J(1,2) h, of 2] n J(3) by simp
  moreover obtain B where "?u 2 = Some B" by (simp add: ten_each_def)
  moreover from this have "card (insert (st + 30 + 29) B) \<le> 10" using ten_each_card [of 29 "st + 30"] by simp
  ultimately show ?thesis unfolding c using s(1) h by blast
qed

theorem log_one_block_short_witness:
  "\<exists>s u blk. log_ops 10 ex_disk 100 s u \<and> update_block 2 blk (replicate BSIZE 0) s = Panic ''too big a transaction''"
proof -
  have "log_ok ex_disk 100 2 (nat LOGSIZE)" "2 + 2 * nat LOGSIZE \<le> 100"
    using ex_disk_ok(1) by (simp_all add: LOGSIZE_def MAXOPBLOCKS_def)
  from log_one_block_short [OF this] show ?thesis by (auto simp: MAXOPBLOCKS_def)
qed

theorem log_reservation_witness:
  "\<exists>s u t. log_ops 9 ex_disk 100 s u \<and> u 1 = Some {} \<and> update_block 1 50 (replicate BSIZE 7) s = Ret () t \<and>
    view (bc t) 50 = replicate BSIZE 7"
proof -
  obtain r where r: "initlog 1 1 (reset ex_disk 100) = Ret () r" using initlog_ok [OF ex_disk_ok(1), of 1] by blast
  note R = log_inv_initlog [OF ex_disk_ok(1) r]
  let ?s = "r\<lparr>lg := (lg r)\<lparr>l_outstanding := 1\<rparr>\<rparr>"
  have b: "begin_op r = Ret () ?s" using R(7-9) by (simp add: begin_op_def LOGSIZE_def MAXOPBLOCKS_def)
  have o: "log_ops 9 ex_disk 100 ?s (Map.empty(1 \<mapsto> {}))" using begins [OF boot [OF r] _ b] by simp
  have ok: "log_ok ex_disk 100 2 (nat LOGSIZE)" using ex_disk_ok(1) by (simp add: LOGSIZE_def MAXOPBLOCKS_def)
  have h: "log_home ?s 50" using R(4-6) by (simp add: home_def)
  have "\<exists>t. update_block 1 50 (replicate BSIZE 7) ?s = Ret () t \<and> view (bc t) = (view (bc ?s))(50 := replicate BSIZE 7)"
    using log_reservation [OF ok _ o _ _ h, of 1 "{}" "replicate BSIZE 7"] by (simp add: MAXOPBLOCKS_def One_nat_def)
  then obtain t where "update_block 1 50 (replicate BSIZE 7) ?s = Ret () t" "view (bc t) 50 = replicate BSIZE 7" by auto
  then show ?thesis using o by (intro exI [of _ ?s] exI [of _ "Map.empty(1 \<mapsto> {})"] exI [of _ t]) simp
qed

end
