(* ===== verification/File.thy ===== *)
theory File
  imports Fs_Data Vm_Map Pipe Console
begin

text \<open>
  The state of the kernel and the open file table (\<open>src/xv6/file.c\<close>), with the routines of
  \<open>src/xv6/pipe.c\<close> that allocate and release pipes. The kernel state puts the components together:
  file system, page allocator, file table, process table, console. A file pointer is the index of the entry in
  \<open>ftable.file[NFILE]\<close>. A pipe lives in a page of its own and is kept, under the address of the
  page, beside the memory. (\<open>struct file\<close> is the record \<open>kfile\<close>.) \<open>p\<close> is the process that runs (\<open>myproc()\<close>). What the linker
  and the device drivers give is an argument \<open>env\<close>: the addresses \<open>end\<close>, \<open>data\<close>, \<open>forkret\<close> and
  \<open>trapret\<close>, the bytes of \<open>initcode\<close>, and the device switch.
\<close>

record kenv =
  ke_end :: u32
  ke_data :: u32
  ke_forkret :: u32
  ke_trapret :: u32
  ke_initcode :: "byte list"
  ke_devsw :: "nat \<Rightarrow> devsw"

definition NFILE :: nat where "NFILE = 100"

datatype fdtype = FD_NONE | FD_PIPE | FD_INODE

record kfile =
  f_type :: fdtype
  f_ref :: int
  f_readable :: bool
  f_writable :: bool
  f_pipe :: u32
  f_ip :: nat
  f_off :: u32

record kstate =
  ks_fs :: fsstate
  ks_mem :: kmem
  ks_file :: "nat \<Rightarrow> kfile"
  ks_pipe :: "u32 \<Rightarrow> pipe"
  ks_pt :: ptable
  ks_ticks :: u32
  ks_trace :: int
  ks_cons :: console

abbreviation kproc :: "kstate \<Rightarrow> nat \<Rightarrow> proc" where
  "kproc s p \<equiv> procs (ks_pt s) p"

definition pid_of :: "kstate \<Rightarrow> nat \<Rightarrow> int" where
  "pid_of s p = sint (p_pid (kproc s p))"

definition on_fs :: "(fsstate \<Rightarrow> ('a, fsstate) outcome) \<Rightarrow> kstate \<Rightarrow> ('a, kstate) outcome" where
  "on_fs f s = olift (\<lambda>t. s\<lparr>ks_fs := t\<rparr>) (f (ks_fs s))"

definition on_mem :: "(kmem \<Rightarrow> ('a, kmem) outcome) \<Rightarrow> kstate \<Rightarrow> ('a, kstate) outcome" where
  "on_mem f s = olift (\<lambda>t. s\<lparr>ks_mem := t\<rparr>) (f (ks_mem s))"

definition set_file :: "nat \<Rightarrow> kfile \<Rightarrow> kstate \<Rightarrow> kstate" where
  "set_file f x s = s\<lparr>ks_file := (ks_file s)(f := x)\<rparr>"

definition set_pipe :: "u32 \<Rightarrow> pipe \<Rightarrow> kstate \<Rightarrow> kstate" where
  "set_pipe a x s = s\<lparr>ks_pipe := (ks_pipe s)(a := x)\<rparr>"

definition upd_pt :: "(ptable \<Rightarrow> ptable) \<Rightarrow> kstate \<Rightarrow> kstate" where
  "upd_pt f s = s\<lparr>ks_pt := f (ks_pt s)\<rparr>"

lemma set_sels [simp]:
  "ks_fs (set_file f x s) = ks_fs s" "ks_mem (set_file f x s) = ks_mem s" "ks_pipe (set_file f x s) = ks_pipe s"
  "ks_pt (set_file f x s) = ks_pt s" "ks_file (set_file f x s) = (ks_file s)(f := x)"
  "ks_fs (set_pipe a y s) = ks_fs s" "ks_mem (set_pipe a y s) = ks_mem s" "ks_pipe (set_pipe a y s) = (ks_pipe s)(a := y)"
  "ks_pt (set_pipe a y s) = ks_pt s" "ks_file (set_pipe a y s) = ks_file s"
  "ks_fs (upd_pt g s) = ks_fs s" "ks_mem (upd_pt g s) = ks_mem s" "ks_pipe (upd_pt g s) = ks_pipe s"
  "ks_pt (upd_pt g s) = g (ks_pt s)" "ks_file (upd_pt g s) = ks_file s"
  by (simp_all add: set_file_def set_pipe_def upd_pt_def)

definition kbegin_op :: "kstate \<Rightarrow> (unit, kstate) outcome" where
  "kbegin_op = on_fs (on_ls begin_op)"

definition kend_op :: "nat \<Rightarrow> kstate \<Rightarrow> (unit, kstate) outcome" where
  "kend_op p s = on_fs (on_ls (end_op (pid_of s p))) s"

text \<open>Printing on the console.\<close>

definition kputs :: "byte list \<Rightarrow> kstate \<Rightarrow> (unit, kstate) outcome" where
  "kputs txt s = olift (\<lambda>c. s\<lparr>ks_cons := c\<rparr>) (consputs (map uint txt) (ks_cons s))"

subsection \<open>The file table\<close>

definition filealloc :: "kstate \<Rightarrow> nat option \<times> kstate" where
  "filealloc s =
     (case List.find (\<lambda>f. f_ref (ks_file s f) = 0) [0..<NFILE] of
        Some f \<Rightarrow> (Some f, set_file f ((ks_file s f)\<lparr>f_ref := 1\<rparr>) s)
      | None \<Rightarrow> (None, s))"

definition filedup :: "nat \<Rightarrow> kstate \<Rightarrow> (nat, kstate) outcome" where
  "filedup f s =
     (if f_ref (ks_file s f) < 1 then Panic ''filedup''
      else Ret f (set_file f ((ks_file s f)\<lparr>f_ref := f_ref (ks_file s f) + 1\<rparr>) s))"

text \<open>The wakeups of the routines of a pipe at address \<open>a\<close>.\<close>

definition pipe_wake :: "u32 \<Rightarrow> pipe_chan list \<Rightarrow> kstate \<Rightarrow> kstate" where
  "pipe_wake a wk = upd_pt (fold (\<lambda>c. wakeup (case c of Nread \<Rightarrow> PipeRead (unat a) | Nwrite \<Rightarrow> PipeWrite (unat a))) wk)"

lemma pipe_wake_simps [simp]:
  "pipe_wake a [] s = s" "pipe_wake a [Nread] s = upd_pt (wakeup (PipeRead (unat a))) s"
  "pipe_wake a [Nwrite] s = upd_pt (wakeup (PipeWrite (unat a))) s"
  by (simp_all add: pipe_wake_def upd_pt_def)

definition pipeclose :: "kenv \<Rightarrow> u32 \<Rightarrow> bool \<Rightarrow> kstate \<Rightarrow> (unit, kstate) outcome" where
  "pipeclose env a writable s =
     (case pipeclose_buf writable (ks_pipe s a) of (q, wk, unused) \<Rightarrow>
        let s = pipe_wake a wk (set_pipe a q s)
        in if unused then on_mem (kfree (ke_end env) a) s else Ret () s)"

definition fileclose :: "kenv \<Rightarrow> nat \<Rightarrow> nat \<Rightarrow> kstate \<Rightarrow> (unit, kstate) outcome" where
  "fileclose env p f s =
     (let x = ks_file s f in
      if f_ref x < 1 then Panic ''fileclose''
      else if 0 < f_ref x - 1 then Ret () (set_file f (x\<lparr>f_ref := f_ref x - 1\<rparr>) s)
      else
        let s = set_file f (x\<lparr>f_ref := 0, f_type := FD_NONE\<rparr>) s in
        case f_type x of
          FD_PIPE \<Rightarrow> pipeclose env (f_pipe x) (f_writable x) s
        | FD_INODE \<Rightarrow>
            obind (kbegin_op s) (\<lambda>_ s.
            obind (on_fs (iput (pid_of s p) (f_ip x)) s) (\<lambda>_ s. kend_op p s))
        | FD_NONE \<Rightarrow> Ret () s)"

text \<open>The value is the result and what is stored at \<open>st\<close>.\<close>

definition filestat :: "nat \<Rightarrow> nat \<Rightarrow> kstate \<Rightarrow> (int \<times> stat option, kstate) outcome" where
  "filestat p f s =
     (let x = ks_file s f in
      if f_type x = FD_INODE then
        obind (on_fs (ilock (pid_of s p) (Some (f_ip x))) s) (\<lambda>_ s.
          let st = stati (f_ip x) (ks_fs s)
          in obind (on_fs (iunlock (pid_of s p) (Some (f_ip x))) s) (\<lambda>_ s. Ret (0, Some st) s))
      else Ret (-1, None) s)"

text \<open>
  \<open>piperead\<close> and \<open>pipewrite\<close> of process \<open>p\<close> in the kernel state. A call that has to wait
  is the outcome \<open>Sleep\<close>.
\<close>

definition kpiperead :: "nat \<Rightarrow> u32 \<Rightarrow> int \<Rightarrow> kstate \<Rightarrow> (int \<times> byte list, kstate) outcome" where
  "kpiperead p a n s =
     (case piperead (p_killed (kproc s p)) n (ks_pipe s a) of
        PWait _ wk q \<Rightarrow> Sleep (PipeRead (unat a)) (pipe_wake a wk (set_pipe a q s))
      | PDone r wk q \<Rightarrow> Ret r (pipe_wake a wk (set_pipe a q s)))"

definition kpipewrite :: "nat \<Rightarrow> u32 \<Rightarrow> byte list \<Rightarrow> kstate \<Rightarrow> (int, kstate) outcome" where
  "kpipewrite p a bs s =
     (case pipewrite (p_killed (kproc s p)) bs (ks_pipe s a) of
        PWait _ wk q \<Rightarrow> Sleep (PipeWrite (unat a)) (pipe_wake a wk (set_pipe a q s))
      | PDone r wk q \<Rightarrow> Ret r (pipe_wake a wk (set_pipe a q s)))"

definition fileread :: "kenv \<Rightarrow> nat \<Rightarrow> nat \<Rightarrow> int \<Rightarrow> kstate \<Rightarrow> (int \<times> byte list, kstate) outcome" where
  "fileread env p f n s =
     (let x = ks_file s f in
      if \<not> f_readable x then Ret (-1, []) s
      else case f_type x of
          FD_PIPE \<Rightarrow> kpiperead p (f_pipe x) n s
        | FD_INODE \<Rightarrow>
            obind (on_fs (ilock (pid_of s p) (Some (f_ip x))) s) (\<lambda>_ s.
            obind (on_fs (readi (ke_devsw env) (pid_of s p) (f_ip x) (f_off (ks_file s f)) (word_of_int n)) s) (\<lambda>(r, bs) s.
              let s = (if 0 < r then set_file f ((ks_file s f)\<lparr>f_off := f_off (ks_file s f) + word_of_int r\<rparr>) s else s)
              in obind (on_fs (iunlock (pid_of s p) (Some (f_ip x))) s) (\<lambda>_ s. Ret (r, bs) s)))
        | FD_NONE \<Rightarrow> Panic ''fileread'')"

definition filewrite_max :: nat where
  "filewrite_max = ((nat MAXOPBLOCKS - 1 - 1 - 2) div 2) * 512"

text \<open>\<open>addr\<close> are the bytes from index \<open>i\<close> on; the value is whether the loop reached \<open>i == n\<close>.\<close>

function filewrite_loop :: "kenv \<Rightarrow> nat \<Rightarrow> nat \<Rightarrow> byte list \<Rightarrow> kstate \<Rightarrow> (bool, kstate) outcome" where
  "filewrite_loop env p f addr s =
     (if addr = [] then Ret True s
      else
        let n1 = min (length addr) filewrite_max; ip = f_ip (ks_file s f) in
        obind (kbegin_op s) (\<lambda>_ s.
        obind (on_fs (ilock (pid_of s p) (Some ip)) s) (\<lambda>_ s.
        obind (on_fs (writei (ke_devsw env) (pid_of s p) ip addr (f_off (ks_file s f)) (of_nat n1)) s) (\<lambda>r s.
          let s = (if 0 < r then set_file f ((ks_file s f)\<lparr>f_off := f_off (ks_file s f) + word_of_int r\<rparr>) s else s) in
          obind (on_fs (iunlock (pid_of s p) (Some ip)) s) (\<lambda>_ s.
          obind (kend_op p s) (\<lambda>_ s.
            if r < 0 then Ret False s
            else if r \<noteq> int n1 then Panic ''short filewrite''
            else filewrite_loop env p f (drop n1 addr) s))))))"
  by auto
termination
  by (relation "measure (\<lambda>(env, p, f, addr, s). length addr)") (auto simp: filewrite_max_def MAXOPBLOCKS_def)

declare filewrite_loop.simps [simp del]

definition filewrite :: "kenv \<Rightarrow> nat \<Rightarrow> nat \<Rightarrow> byte list \<Rightarrow> kstate \<Rightarrow> (int, kstate) outcome" where
  "filewrite env p f addr s =
     (let x = ks_file s f in
      if \<not> f_writable x then Ret (-1) s
      else case f_type x of
          FD_PIPE \<Rightarrow> kpipewrite p (f_pipe x) addr s
        | FD_INODE \<Rightarrow> obind (filewrite_loop env p f addr s) (\<lambda>done s. Ret (if done then int (length addr) else -1) s)
        | FD_NONE \<Rightarrow> Panic ''filewrite'')"

subsection \<open>Pipes in pages\<close>

text \<open>The array \<open>data\<close> starts after the lock, 52 bytes into the page; \<open>pipealloc\<close> does not clear it.\<close>

definition pipe_junk :: "u32 \<Rightarrow> kmem \<Rightarrow> byte list" where
  "pipe_junk a m = map (\<lambda>i. kmemory m (unat a + 52 + i)) [0..<PIPESIZE]"

definition pipe_file :: "bool \<Rightarrow> u32 \<Rightarrow> kfile \<Rightarrow> kfile" where
  "pipe_file writable a x = x\<lparr>f_type := FD_PIPE, f_readable := \<not> writable, f_writable := writable, f_pipe := a\<rparr>"

definition pipealloc :: "kenv \<Rightarrow> nat \<Rightarrow> kstate \<Rightarrow> ((nat \<times> nat) option, kstate) outcome" where
  "pipealloc env p s =
     (case filealloc s of (f0, s) \<Rightarrow>
      case (if f0 = None then (None, s) else filealloc s) of (f1, s) \<Rightarrow>
      case (if f0 = None \<or> f1 = None then (0, ks_mem s) else kalloc (ks_mem s)) of (a, m) \<Rightarrow>
      let s = s\<lparr>ks_mem := m\<rparr> in
      case (f0, f1) of
        (Some r, Some w) \<Rightarrow>
          if a \<noteq> 0 then
            let s = set_pipe a (pipe_new (pipe_junk a (ks_mem s))) s;
                s = set_file r (pipe_file False a (ks_file s r)) s;
                s = set_file w (pipe_file True a (ks_file s w)) s
            in Ret (Some (r, w)) s
          else
            obind (fileclose env p r s) (\<lambda>_ s. obind (fileclose env p w s) (\<lambda>_ s. Ret None s))
      | (Some r, None) \<Rightarrow> obind (fileclose env p r s) (\<lambda>_ s. Ret None s)
      | _ \<Rightarrow> Ret None s)"

end
