(* ===== verification/Proc.thy ===== *)
theory Proc
  imports File Sched
begin

text \<open>
  Processes with their memory, files and directory (\<open>src/xv6/proc.c\<close>), over the kernel state. The process table
  parts of the routines are in theory \<open>Ptable\<close>. A call of \<open>sleep\<close> is the outcome
  \<open>Sleep\<close>. \<open>exit\<close> ends in \<open>sched\<close>; its result is the state in which it enters the scheduler. Following a
  null pointer is a fault: the trap stops the kernel with \<open>panic("trap")\<close>.
\<close>

definition kfault :: "('a, 's) outcome" where
  "kfault = Panic ''trap''"

definition upd_kproc :: "nat \<Rightarrow> (proc \<Rightarrow> proc) \<Rightarrow> kstate \<Rightarrow> kstate" where
  "upd_kproc i f = upd_pt (upd_proc i f)"

lemma upd_kproc_sel [simp]:
  "kproc (upd_kproc i f s) j = (if j = i then f (kproc s i) else kproc s j)"
  "ks_file (upd_kproc i f s) = ks_file s" "ks_fs (upd_kproc i f s) = ks_fs s" "ks_mem (upd_kproc i f s) = ks_mem s"
  "ks_pipe (upd_kproc i f s) = ks_pipe s" "initproc (ks_pt (upd_kproc i f s)) = initproc (ks_pt s)"
  "nextpid (ks_pt (upd_kproc i f s)) = nextpid (ks_pt s)"
  by (simp_all add: upd_kproc_def)

definition zero_ctxt :: ctxt where
  "zero_ctxt = \<lparr>cx_edi = 0, cx_esi = 0, cx_ebx = 0, cx_ebp = 0, cx_eip = 0\<rparr>"

definition allocproc :: "kenv \<Rightarrow> kstate \<Rightarrow> nat option \<times> kstate" where
  "allocproc env s =
     (case alloc_slot (ks_pt s) of
        None \<Rightarrow> (None, s)
      | Some (i, t) \<Rightarrow>
          case kalloc (ks_mem s) of (k, m) \<Rightarrow>
            let s = upd_kproc i (\<lambda>p. p\<lparr>p_kstack := k\<rparr>) (s\<lparr>ks_pt := t, ks_mem := m\<rparr>) in
            if k = 0 then (None, upd_kproc i (\<lambda>p. p\<lparr>p_state := UNUSED\<rparr>) s)
            else (Some i, upd_kproc i (\<lambda>p. p\<lparr>p_ret := ke_trapret env,
                   p_context := zero_ctxt\<lparr>cx_eip := ke_forkret env\<rparr>\<rparr>) s))"

text \<open>What \<open>safestrcpy(d, t, 16)\<close> leaves in the array \<open>d\<close>.\<close>

definition set_name :: "byte list \<Rightarrow> byte list \<Rightarrow> byte list" where
  "set_name d t =
     (let t = takeWhile (\<lambda>c. c \<noteq> 0) t
      in patch d 0 (if length t < 15 then t @ [0, 0] else take 15 t @ [0]))"

definition SEG_UCODE :: u16 where "SEG_UCODE = 3"
definition SEG_UDATA :: u16 where "SEG_UDATA = 4"
definition DPL_USER :: u16 where "DPL_USER = 3"
definition FL_IF :: u32 where "FL_IF = 0x200"

definition user_tf :: trapframe where
  "user_tf = \<lparr>tf_edi = 0, tf_esi = 0, tf_ebp = 0, tf_oesp = 0, tf_ebx = 0, tf_edx = 0, tf_ecx = 0, tf_eax = 0,
     tf_gs = 0, tf_fs = 0, tf_es = push_bit 3 SEG_UDATA OR DPL_USER, tf_ds = push_bit 3 SEG_UDATA OR DPL_USER,
     tf_trapno = 0, tf_err = 0, tf_eip = 0, tf_cs = push_bit 3 SEG_UCODE OR DPL_USER, tf_eflags = FL_IF,
     tf_esp = PGSIZE, tf_ss = push_bit 3 SEG_UDATA OR DPL_USER\<rparr>"

text \<open>The path is \<open>"/"\<close>, so that \<open>namei\<close> does not look at the current directory.\<close>

definition userinit :: "kenv \<Rightarrow> kstate \<Rightarrow> (unit, kstate) outcome" where
  "userinit env s =
     (case allocproc env s of
        (None, s) \<Rightarrow> kfault
      | (Some i, s) \<Rightarrow>
          let s = upd_pt (\<lambda>t. t\<lparr>initproc := Some i\<rparr>) s in
          obind (on_mem (setupkvm (ke_end env) (ke_data env)) s) (\<lambda>d s.
            let s = upd_kproc i (\<lambda>p. p\<lparr>p_pgdir := d\<rparr>) s in
            if d = 0 then Panic ''userinit: out of memory?''
            else
              obind (on_mem (inituvm d (ke_initcode env)) s) (\<lambda>_ s.
              let s = upd_kproc i (\<lambda>p. p\<lparr>p_sz := PGSIZE, p_tf := user_tf,
                    p_name := set_name (p_name p) (bytes ''initcode'')\<rparr>) s
              in obind (on_fs (namei (ke_devsw env) 0 0 [slash]) s) (\<lambda>ip s.
                 Ret () (upd_pt (set_runnable i) (upd_kproc i (\<lambda>p. p\<lparr>p_cwd := ip\<rparr>) s))))))"

text \<open>\<open>n\<close> is an \<open>int\<close>, kept as a word; \<open>sz + n\<close> is computed on \<open>uint\<close> and wraps.\<close>

definition growproc :: "kenv \<Rightarrow> nat \<Rightarrow> u32 \<Rightarrow> kstate \<Rightarrow> (int, kstate) outcome" where
  "growproc env p n s =
     (let sz = p_sz (kproc s p); pgdir = p_pgdir (kproc s p);
          fin = (\<lambda>sz s. Ret 0 (upd_kproc p (\<lambda>q. q\<lparr>p_sz := sz\<rparr>) s))
      in if 0 < sint n then
           obind (on_mem (allocuvm (ke_end env) pgdir sz (sz + n)) s) (\<lambda>sz s. if sz = 0 then Ret (-1) s else fin sz s)
         else if sint n < 0 then
           obind (on_mem (deallocuvm (ke_end env) pgdir sz (sz + n)) s) (\<lambda>sz s. if sz = 0 then Ret (-1) s else fin sz s)
         else fin sz s)"

definition fork_file :: "nat \<Rightarrow> nat \<Rightarrow> nat \<Rightarrow> kstate \<Rightarrow> (unit, kstate) outcome" where
  "fork_file p np i s =
     (case p_ofile (kproc s p) ! i of
        None \<Rightarrow> Ret () s
      | Some f \<Rightarrow> obind (filedup f s) (\<lambda>f s.
          Ret () (upd_kproc np (\<lambda>q. q\<lparr>p_ofile := (p_ofile q)[i := Some f]\<rparr>) s)))"

text \<open>The second half of \<open>fork\<close>, after the memory has been copied.\<close>

definition fork_rest :: "nat \<Rightarrow> nat \<Rightarrow> kstate \<Rightarrow> (int, kstate) outcome" where
  "fork_rest p np s =
     (let s = upd_kproc np (\<lambda>q. q\<lparr>p_sz := p_sz (kproc s p), p_parent := Some p,
            p_tf := (p_tf (kproc s p))\<lparr>tf_eax := 0\<rparr>\<rparr>) s
      in obind (ofor [0..<NOFILE] (fork_file p np) s) (\<lambda>_ s.
         case p_cwd (kproc s p) of
           None \<Rightarrow> kfault
         | Some ip \<Rightarrow>
             obind (on_fs (idup ip) s) (\<lambda>ip s.
               let s = upd_kproc np (\<lambda>q. q\<lparr>p_cwd := Some ip, p_name := set_name (p_name q) (p_name (kproc s p))\<rparr>) s;
                   pid = pid_of s np
               in Ret pid (upd_pt (set_runnable np) s))))"

definition fork :: "kenv \<Rightarrow> nat \<Rightarrow> kstate \<Rightarrow> (int, kstate) outcome" where
  "fork env p s =
     (case allocproc env s of
        (None, s) \<Rightarrow> Ret (-1) s
      | (Some np, s) \<Rightarrow>
          obind (on_mem (copyuvm (ke_end env) (ke_data env) (p_pgdir (kproc s p)) (p_sz (kproc s p))) s) (\<lambda>d s.
            let s = upd_kproc np (\<lambda>q. q\<lparr>p_pgdir := d\<rparr>) s in
            if d = 0 then
              obind (on_mem (kfree (ke_end env) (p_kstack (kproc s np))) s) (\<lambda>_ s.
                Ret (-1) (upd_kproc np (\<lambda>q. q\<lparr>p_kstack := 0, p_state := UNUSED\<rparr>) s))
            else fork_rest p np s))"

definition exit_file :: "kenv \<Rightarrow> nat \<Rightarrow> nat \<Rightarrow> kstate \<Rightarrow> (unit, kstate) outcome" where
  "exit_file env p fd s =
     (case p_ofile (kproc s p) ! fd of
        None \<Rightarrow> Ret () s
      | Some f \<Rightarrow> obind (fileclose env p f s) (\<lambda>_ s.
          Ret () (upd_kproc p (\<lambda>q. q\<lparr>p_ofile := (p_ofile q)[fd := None]\<rparr>) s)))"

definition exit :: "kenv \<Rightarrow> nat \<Rightarrow> kstate \<Rightarrow> (unit, kstate) outcome" where
  "exit env p s =
     (if initproc (ks_pt s) = Some p then Panic ''init exiting''
      else
        obind (ofor [0..<NOFILE] (exit_file env p) s) (\<lambda>_ s.
        obind (kbegin_op s) (\<lambda>_ s.
        obind (case p_cwd (kproc s p) of None \<Rightarrow> kfault | Some ip \<Rightarrow> on_fs (iput (pid_of s p) ip) s) (\<lambda>_ s.
        obind (kend_op p s) (\<lambda>_ s.
          Ret () (upd_pt (exit_table p) (upd_kproc p (\<lambda>q. q\<lparr>p_cwd := None\<rparr>) s)))))))"

definition wait :: "kenv \<Rightarrow> nat \<Rightarrow> kstate \<Rightarrow> (int, kstate) outcome" where
  "wait env p s =
     (case wait_scan p [0..<NPROC] False (ks_pt s) of
        Inl i \<Rightarrow>
          let pid = pid_of s i in
          obind (on_mem (kfree (ke_end env) (p_kstack (kproc s i))) s) (\<lambda>_ s.
          obind (on_mem (freevm (ke_end env) (p_pgdir (kproc s i))) s) (\<lambda>_ s.
            Ret pid (upd_pt (wait_clear i) s)))
      | Inr havekids \<Rightarrow>
          if \<not> havekids \<or> p_killed (kproc s p) then Ret (-1) s else Sleep (ProcChan p) s)"

text \<open>The value is the static variable \<open>first\<close> afterwards.\<close>

definition forkret :: "bool \<Rightarrow> nat \<Rightarrow> kstate \<Rightarrow> (bool, kstate) outcome" where
  "forkret frst p s =
     (if frst then
        obind (on_fs (iinit (pid_of s p) ROOTDEV) s) (\<lambda>_ s.
        obind (on_fs (on_ls (initlog (pid_of s p) ROOTDEV)) s) (\<lambda>_ s. Ret False s))
      else Ret False s)"

definition state_name :: "procstate \<Rightarrow> byte list" where
  "state_name st = (case st of
       UNUSED \<Rightarrow> bytes ''unused'' | EMBRYO \<Rightarrow> bytes ''embryo'' | SLEEPING \<Rightarrow> bytes ''sleep ''
     | RUNNABLE \<Rightarrow> bytes ''runble'' | RUNNING \<Rightarrow> bytes ''run   '' | ZOMBIE \<Rightarrow> bytes ''zombie'')"

fun pcs_text :: "u32 list \<Rightarrow> byte list option" where
  "pcs_text [] = Some []"
| "pcs_text (pc # pcs) = (if pc = 0 then Some [] else oapp (oapp (Some [32]) (printint pc 16 False)) (pcs_text pcs))"

text \<open>The text \<open>procdump\<close> prints for one entry of the table, and for the table; \<open>m\<close> is the memory.\<close>

definition proc_line :: "mem \<Rightarrow> proc \<Rightarrow> byte list option" where
  "proc_line m p =
     (if p_state p = UNUSED then Some []
      else oapp (oapp (printint (p_pid p) 10 True)
             (Some ([32] @ state_name (p_state p) @ [32] @ takeWhile (\<lambda>c. c \<noteq> 0) (p_name p))))
           (oapp (if p_state p = SLEEPING then pcs_text (getcallerpcs m (cx_ebp (p_context p) + 8)) else Some [])
             (Some [10])))"

definition procdump :: "mem \<Rightarrow> ptable \<Rightarrow> byte list option" where
  "procdump m t = foldr (\<lambda>i. oapp (proc_line m (procs t i))) [0..<NPROC] (Some [])"

end
