(* ===== verification/Syscall.thy ===== *)
theory Syscall
  imports Proc
begin

text \<open>
  Arguments of system calls (\<open>src/xv6/syscall.c\<close>). The kernel runs on the page table of the calling
  process and reads its arguments from user addresses; \<open>uget\<close> and \<open>uput\<close> are such accesses, through the
  map the page table stands for, and an access to an address without a page is a fault in the kernel. A
  C pointer to a string argument is kept as the string; its length is the result of the routine.
\<close>

definition uget :: "nat \<Rightarrow> u32 \<Rightarrow> kstate \<Rightarrow> byte option" where
  "uget p va s =
     (let e = vmap (p_pgdir (kproc s p)) (ks_mem s) va
      in if e AND PTE_P = 0 then None
         else Some (kmemory (ks_mem s) (unat (P2V (PTE_ADDR e)) + unat va mod 4096)))"

definition uput :: "nat \<Rightarrow> u32 \<Rightarrow> byte \<Rightarrow> kstate \<Rightarrow> (unit, kstate) outcome" where
  "uput p va b s =
     (let e = vmap (p_pgdir (kproc s p)) (ks_mem s) va
      in if e AND PTE_P = 0 \<or> e AND PTE_W = 0 then kfault
         else Ret () (s\<lparr>ks_mem := (ks_mem s)\<lparr>kmemory := (kmemory (ks_mem s))
                (unat (P2V (PTE_ADDR e)) + unat va mod 4096 := b)\<rparr>\<rparr>))"

fun ugets :: "nat \<Rightarrow> u32 \<Rightarrow> nat \<Rightarrow> kstate \<Rightarrow> byte list option" where
  "ugets p va 0 s = Some []"
| "ugets p va (Suc n) s =
     (case uget p va s of None \<Rightarrow> None | Some b \<Rightarrow> map_option (Cons b) (ugets p (va + 1) n s))"

fun uputs :: "nat \<Rightarrow> u32 \<Rightarrow> byte list \<Rightarrow> kstate \<Rightarrow> (unit, kstate) outcome" where
  "uputs p va [] s = Ret () s"
| "uputs p va (b # bs) s = obind (uput p va b s) (\<lambda>_ s. uputs p (va + 1) bs s)"

text \<open>The result is \<open>None\<close> for \<open>-1\<close>, otherwise what is stored at \<open>*ip\<close> or \<open>*pp\<close>.\<close>

definition fetchint :: "nat \<Rightarrow> u32 \<Rightarrow> kstate \<Rightarrow> (u32 option, kstate) outcome" where
  "fetchint p addr s =
     (let sz = p_sz (kproc s p) in
      if sz \<le> addr \<or> sz < addr + 4 then Ret None s
      else case ugets p addr 4 s of None \<Rightarrow> kfault | Some bs \<Rightarrow> Ret (Some (un_le32 bs)) s)"

text \<open>\<open>n\<close> bytes are left up to \<open>ep\<close>.\<close>

fun fetchstr_loop :: "nat \<Rightarrow> u32 \<Rightarrow> nat \<Rightarrow> kstate \<Rightarrow> (byte list option, kstate) outcome" where
  "fetchstr_loop p s 0 t = Ret None t"
| "fetchstr_loop p s (Suc n) t =
     (case uget p s t of
        None \<Rightarrow> kfault
      | Some b \<Rightarrow>
          if b = 0 then Ret (Some []) t
          else obind (fetchstr_loop p (s + 1) n t) (\<lambda>r t. Ret (map_option (Cons b) r) t))"

definition fetchstr :: "nat \<Rightarrow> u32 \<Rightarrow> kstate \<Rightarrow> (byte list option, kstate) outcome" where
  "fetchstr p addr s =
     (let sz = p_sz (kproc s p)
      in if sz \<le> addr then Ret None s else fetchstr_loop p addr (unat sz - unat addr) s)"

definition argint :: "nat \<Rightarrow> nat \<Rightarrow> kstate \<Rightarrow> (u32 option, kstate) outcome" where
  "argint p n s = fetchint p (tf_esp (p_tf (kproc s p)) + 4 + 4 * of_nat n) s"

text \<open>\<open>len\<close> (\<open>size\<close> in the code) is an \<open>int\<close>, kept as a word.\<close>

definition argptr :: "nat \<Rightarrow> nat \<Rightarrow> u32 \<Rightarrow> kstate \<Rightarrow> (u32 option, kstate) outcome" where
  "argptr p n len s =
     obind (argint p n s) (\<lambda>r s.
       case r of
         None \<Rightarrow> Ret None s
       | Some i \<Rightarrow>
           let sz = p_sz (kproc s p)
           in if sint len < 0 \<or> sz \<le> i \<or> sz < i + len then Ret None s else Ret (Some i) s)"

definition argstr :: "nat \<Rightarrow> nat \<Rightarrow> kstate \<Rightarrow> (byte list option, kstate) outcome" where
  "argstr p n s =
     obind (argint p n s) (\<lambda>r s. case r of None \<Rightarrow> Ret None s | Some addr \<Rightarrow> fetchstr p addr s)"

end
