(* ===== verification/Sysfile.thy ===== *)
theory Sysfile
  imports Syscall
begin

text \<open>
  The system calls on files (\<open>src/xv6/sysfile.c\<close>). Each is a function of the environment, the calling
  process and the kernel state; its value is the \<open>int\<close> the call returns. The array \<open>name\<close> is a local
  variable without a value; \<open>nameiparent\<close> fills it up to the first NUL, and no routine looks further.
\<close>

definition O_RDONLY :: u32 where "O_RDONLY = 0"
definition O_WRONLY :: u32 where "O_WRONLY = 1"
definition O_RDWR :: u32 where "O_RDWR = 2"
definition O_CREATE :: u32 where "O_CREATE = 0x200"

definition fsop :: "nat \<Rightarrow> (int \<Rightarrow> fsstate \<Rightarrow> ('a, fsstate) outcome) \<Rightarrow> kstate \<Rightarrow> ('a, kstate) outcome" where
  "fsop p f s = on_fs (f (pid_of s p)) s"

text \<open>\<open>namei\<close> and \<open>nameiparent\<close> start at \<open>myproc()->cwd\<close> for a relative path.\<close>

definition knamei :: "kenv \<Rightarrow> nat \<Rightarrow> byte list \<Rightarrow> kstate \<Rightarrow> (nat option, kstate) outcome" where
  "knamei env p path s =
     (case p_cwd (kproc s p) of
        Some cwd \<Rightarrow> fsop p (\<lambda>me. namei (ke_devsw env) me cwd path) s
      | None \<Rightarrow> if ch path = slash then fsop p (\<lambda>me. namei (ke_devsw env) me 0 path) s else kfault)"

definition knameiparent :: "kenv \<Rightarrow> nat \<Rightarrow> byte list \<Rightarrow> kstate \<Rightarrow> (nat option \<times> byte list, kstate) outcome" where
  "knameiparent env p path s =
     (case p_cwd (kproc s p) of
        Some cwd \<Rightarrow> fsop p (\<lambda>me. nameiparent (ke_devsw env) me cwd path (replicate DIRSIZ 0)) s
      | None \<Rightarrow> if ch path = slash then fsop p (\<lambda>me. nameiparent (ke_devsw env) me 0 path (replicate DIRSIZ 0)) s
          else kfault)"

definition kinode :: "kstate \<Rightarrow> nat \<Rightarrow> inode" where
  "kinode s ip = icache (ks_fs s) ip"

definition set_kinode :: "nat \<Rightarrow> (inode \<Rightarrow> inode) \<Rightarrow> kstate \<Rightarrow> kstate" where
  "set_kinode ip f s = s\<lparr>ks_fs := set_inode ip (f (kinode s ip)) (ks_fs s)\<rparr>"

subsection \<open>Descriptors\<close>

definition argfd :: "nat \<Rightarrow> nat \<Rightarrow> kstate \<Rightarrow> ((nat \<times> nat) option, kstate) outcome" where
  "argfd p n s =
     obind (argint p n s) (\<lambda>r s.
       case r of
         None \<Rightarrow> Ret None s
       | Some w \<Rightarrow>
           let fd = sint w in
           if fd < 0 \<or> int NOFILE \<le> fd then Ret None s
           else case p_ofile (kproc s p) ! nat fd of None \<Rightarrow> Ret None s | Some f \<Rightarrow> Ret (Some (nat fd, f)) s)"

definition fdalloc :: "nat \<Rightarrow> nat \<Rightarrow> kstate \<Rightarrow> nat option \<times> kstate" where
  "fdalloc p f s =
     (case List.find (\<lambda>fd. p_ofile (kproc s p) ! fd = None) [0..<NOFILE] of
        None \<Rightarrow> (None, s)
      | Some fd \<Rightarrow> (Some fd, upd_kproc p (\<lambda>q. q\<lparr>p_ofile := (p_ofile q)[fd := Some f]\<rparr>) s))"

definition sys_dup :: "nat \<Rightarrow> kstate \<Rightarrow> (int, kstate) outcome" where
  "sys_dup p s =
     obind (argfd p 0 s) (\<lambda>r s.
       case r of
         None \<Rightarrow> Ret (-1) s
       | Some (_, f) \<Rightarrow>
           (case fdalloc p f s of
              (None, s) \<Rightarrow> Ret (-1) s
            | (Some fd, s) \<Rightarrow> obind (filedup f s) (\<lambda>_ s. Ret (int fd) s)))"

text \<open>The common argument check of \<open>sys_read\<close> and \<open>sys_write\<close>: the file, the address and the length.\<close>

definition rw_args :: "nat \<Rightarrow> kstate \<Rightarrow> ((nat \<times> u32 \<times> u32) option, kstate) outcome" where
  "rw_args p s =
     obind (argfd p 0 s) (\<lambda>r s.
       case r of None \<Rightarrow> Ret None s
       | Some (_, f) \<Rightarrow>
         obind (argint p 2 s) (\<lambda>r s.
           case r of None \<Rightarrow> Ret None s
           | Some n \<Rightarrow>
             obind (argptr p 1 n s) (\<lambda>r s.
               case r of None \<Rightarrow> Ret None s | Some a \<Rightarrow> Ret (Some (f, a, n)) s)))"

definition sys_read :: "kenv \<Rightarrow> nat \<Rightarrow> kstate \<Rightarrow> (int, kstate) outcome" where
  "sys_read env p s =
     obind (rw_args p s) (\<lambda>r s.
       case r of None \<Rightarrow> Ret (-1) s
       | Some (f, a, n) \<Rightarrow>
           obind (fileread env p f (sint n) s) (\<lambda>(r, bs) s. obind (uputs p a bs s) (\<lambda>_ s. Ret r s)))"

definition sys_write :: "kenv \<Rightarrow> nat \<Rightarrow> kstate \<Rightarrow> (int, kstate) outcome" where
  "sys_write env p s =
     obind (rw_args p s) (\<lambda>r s.
       case r of None \<Rightarrow> Ret (-1) s
       | Some (f, a, n) \<Rightarrow>
           (case ugets p a (unat n) s of None \<Rightarrow> kfault | Some bs \<Rightarrow> filewrite env p f bs s))"

definition sys_close :: "kenv \<Rightarrow> nat \<Rightarrow> kstate \<Rightarrow> (int, kstate) outcome" where
  "sys_close env p s =
     obind (argfd p 0 s) (\<lambda>r s.
       case r of None \<Rightarrow> Ret (-1) s
       | Some (fd, f) \<Rightarrow>
           obind (fileclose env p f (upd_kproc p (\<lambda>q. q\<lparr>p_ofile := (p_ofile q)[fd := None]\<rparr>) s)) (\<lambda>_ s. Ret 0 s))"

text \<open>The layout of \<open>struct stat\<close>: two bytes of padding after the type and after the link count.\<close>

definition stat_fields :: "stat \<Rightarrow> (u32 \<times> byte list) list" where
  "stat_fields st = [(0, le16 (st_type st)), (4, le32 (of_nat (st_dev st))), (8, le32 (of_nat (st_ino st))),
     (12, le16 (st_nlink st)), (16, le32 (st_size st))]"

fun put_fields :: "nat \<Rightarrow> u32 \<Rightarrow> (u32 \<times> byte list) list \<Rightarrow> kstate \<Rightarrow> (unit, kstate) outcome" where
  "put_fields p a [] s = Ret () s"
| "put_fields p a ((off, bs) # fs) s = obind (uputs p (a + off) bs s) (\<lambda>_ s. put_fields p a fs s)"

definition sys_fstat :: "nat \<Rightarrow> kstate \<Rightarrow> (int, kstate) outcome" where
  "sys_fstat p s =
     obind (argfd p 0 s) (\<lambda>r s.
       case r of None \<Rightarrow> Ret (-1) s
       | Some (_, f) \<Rightarrow>
         obind (argptr p 1 20 s) (\<lambda>r s.
           case r of None \<Rightarrow> Ret (-1) s
           | Some a \<Rightarrow>
             obind (filestat p f s) (\<lambda>(r, st) s.
               case st of None \<Rightarrow> Ret r s
               | Some st \<Rightarrow> obind (put_fields p a (stat_fields st) s) (\<lambda>_ s. Ret r s))))"

subsection \<open>Directories\<close>

definition link_bad :: "nat \<Rightarrow> nat \<Rightarrow> kstate \<Rightarrow> (int, kstate) outcome" where
  "link_bad p ip s =
     obind (fsop p (\<lambda>me. ilock me (Some ip)) s) (\<lambda>_ s.
     obind (fsop p (\<lambda>me. iupdate me ip) (set_kinode ip (\<lambda>i. i\<lparr>i_nlink := i_nlink i - 1\<rparr>) s)) (\<lambda>_ s.
     obind (fsop p (\<lambda>me. iunlockput me ip) s) (\<lambda>_ s.
     obind (kend_op p s) (\<lambda>_ s. Ret (-1) s))))"

definition sys_link :: "kenv \<Rightarrow> nat \<Rightarrow> kstate \<Rightarrow> (int, kstate) outcome" where
  "sys_link env p s =
     obind (argstr p 0 s) (\<lambda>old s. case old of None \<Rightarrow> Ret (-1) s | Some old \<Rightarrow>
     obind (argstr p 1 s) (\<lambda>new s. case new of None \<Rightarrow> Ret (-1) s | Some new \<Rightarrow>
     obind (kbegin_op s) (\<lambda>_ s.
     obind (knamei env p old s) (\<lambda>ip s. case ip of None \<Rightarrow> obind (kend_op p s) (\<lambda>_ s. Ret (-1) s) | Some ip \<Rightarrow>
     obind (fsop p (\<lambda>me. ilock me (Some ip)) s) (\<lambda>_ s.
       if i_type (kinode s ip) = T_DIR then
         obind (fsop p (\<lambda>me. iunlockput me ip) s) (\<lambda>_ s. obind (kend_op p s) (\<lambda>_ s. Ret (-1) s))
       else
         obind (fsop p (\<lambda>me. iupdate me ip) (set_kinode ip (\<lambda>i. i\<lparr>i_nlink := i_nlink i + 1\<rparr>) s)) (\<lambda>_ s.
         obind (fsop p (\<lambda>me. iunlock me (Some ip)) s) (\<lambda>_ s.
         obind (knameiparent env p new s) (\<lambda>(dp, name) s. case dp of None \<Rightarrow> link_bad p ip s | Some dp \<Rightarrow>
         obind (fsop p (\<lambda>me. ilock me (Some dp)) s) (\<lambda>_ s.
         obind (if i_dev (kinode s dp) \<noteq> i_dev (kinode s ip) then Ret (-1) s
                else fsop p (\<lambda>me. dirlink (ke_devsw env) me dp name (i_inum (kinode s ip))) s) (\<lambda>r s.
           if r < 0 then obind (fsop p (\<lambda>me. iunlockput me dp) s) (\<lambda>_ s. link_bad p ip s)
           else
             obind (fsop p (\<lambda>me. iunlockput me dp) s) (\<lambda>_ s.
             obind (fsop p (\<lambda>me. iput me ip) s) (\<lambda>_ s.
             obind (kend_op p s) (\<lambda>_ s. Ret 0 s)))))))))))))"

text \<open>\<open>sz\<close> is \<open>dp->size\<close>, which does not change while the directory is locked.\<close>

function isdirempty_loop :: "(nat \<Rightarrow> devsw) \<Rightarrow> int \<Rightarrow> nat \<Rightarrow> nat \<Rightarrow> nat \<Rightarrow> fsstate \<Rightarrow> (bool, fsstate) outcome" where
  "isdirempty_loop dev me dp sz off s =
     (if off < sz then
        obind (readi dev me dp (of_nat off) 16 s) (\<lambda>(r, de) s.
          if r \<noteq> 16 then Panic ''isdirempty: readi''
          else if de_inum de \<noteq> 0 then Ret False s
          else isdirempty_loop dev me dp sz (off + 16) s)
      else Ret True s)"
  by auto
termination
  by (relation "measure (\<lambda>(dev, me, dp, sz, off, s). sz - off)") auto

declare isdirempty_loop.simps [simp del]

definition isdirempty :: "(nat \<Rightarrow> devsw) \<Rightarrow> int \<Rightarrow> nat \<Rightarrow> fsstate \<Rightarrow> (bool, fsstate) outcome" where
  "isdirempty dev me dp s = isdirempty_loop dev me dp (unat (i_size (icache s dp))) (2 * 16) s"

definition unlink_bad :: "nat \<Rightarrow> nat \<Rightarrow> kstate \<Rightarrow> (int, kstate) outcome" where
  "unlink_bad p dp s =
     obind (fsop p (\<lambda>me. iunlockput me dp) s) (\<lambda>_ s. obind (kend_op p s) (\<lambda>_ s. Ret (-1) s))"

definition sys_unlink :: "kenv \<Rightarrow> nat \<Rightarrow> kstate \<Rightarrow> (int, kstate) outcome" where
  "sys_unlink env p s =
     obind (argstr p 0 s) (\<lambda>path s. case path of None \<Rightarrow> Ret (-1) s | Some path \<Rightarrow>
     obind (kbegin_op s) (\<lambda>_ s.
     obind (knameiparent env p path s) (\<lambda>(dp, name) s.
       case dp of None \<Rightarrow> obind (kend_op p s) (\<lambda>_ s. Ret (-1) s) | Some dp \<Rightarrow>
     obind (fsop p (\<lambda>me. ilock me (Some dp)) s) (\<lambda>_ s.
       if namecmp name [46] = 0 \<or> namecmp name [46, 46] = 0 then unlink_bad p dp s
       else
         obind (fsop p (\<lambda>me. dirlookup (ke_devsw env) me dp name) s) (\<lambda>r s.
           case r of None \<Rightarrow> unlink_bad p dp s | Some (ip, off) \<Rightarrow>
         obind (fsop p (\<lambda>me. ilock me (Some ip)) s) (\<lambda>_ s.
           if sint (i_nlink (kinode s ip)) < 1 then Panic ''unlink: nlink < 1''
           else
             obind (if i_type (kinode s ip) = T_DIR then fsop p (\<lambda>me. isdirempty (ke_devsw env) me ip) s else Ret True s) (\<lambda>e s.
               if \<not> e then obind (fsop p (\<lambda>me. iunlockput me ip) s) (\<lambda>_ s. unlink_bad p dp s)
               else
                 obind (fsop p (\<lambda>me. writei (ke_devsw env) me dp (replicate 16 0) (of_nat off) 16) s) (\<lambda>r s.
                   if r \<noteq> 16 then Panic ''unlink: writei''
                   else
                     obind (if i_type (kinode s ip) = T_DIR
                            then fsop p (\<lambda>me. iupdate me dp) (set_kinode dp (\<lambda>i. i\<lparr>i_nlink := i_nlink i - 1\<rparr>) s)
                            else Ret () s) (\<lambda>_ s.
                     obind (fsop p (\<lambda>me. iunlockput me dp) s) (\<lambda>_ s.
                     obind (fsop p (\<lambda>me. iupdate me ip) (set_kinode ip (\<lambda>i. i\<lparr>i_nlink := i_nlink i - 1\<rparr>) s)) (\<lambda>_ s.
                     obind (fsop p (\<lambda>me. iunlockput me ip) s) (\<lambda>_ s.
                     obind (kend_op p s) (\<lambda>_ s. Ret 0 s)))))))))))))"

definition create :: "kenv \<Rightarrow> nat \<Rightarrow> byte list \<Rightarrow> u16 \<Rightarrow> u16 \<Rightarrow> u16 \<Rightarrow> kstate \<Rightarrow> (nat option, kstate) outcome" where
  "create env p path type major minor s =
     obind (knameiparent env p path s) (\<lambda>(dp, name) s. case dp of None \<Rightarrow> Ret None s | Some dp \<Rightarrow>
     obind (fsop p (\<lambda>me. ilock me (Some dp)) s) (\<lambda>_ s.
     obind (fsop p (\<lambda>me. dirlookup (ke_devsw env) me dp name) s) (\<lambda>r s. case r of
       Some (ip, _) \<Rightarrow>
         obind (fsop p (\<lambda>me. iunlockput me dp) s) (\<lambda>_ s.
         obind (fsop p (\<lambda>me. ilock me (Some ip)) s) (\<lambda>_ s.
           if type = T_FILE \<and> i_type (kinode s ip) = T_FILE then Ret (Some ip) s
           else obind (fsop p (\<lambda>me. iunlockput me ip) s) (\<lambda>_ s. Ret None s)))
     | None \<Rightarrow>
         obind (fsop p (\<lambda>me. ialloc me (i_dev (kinode s dp)) type) s) (\<lambda>ip s.
         obind (fsop p (\<lambda>me. ilock me (Some ip)) s) (\<lambda>_ s.
         obind (fsop p (\<lambda>me. iupdate me ip)
             (set_kinode ip (\<lambda>i. i\<lparr>i_major := major, i_minor := minor, i_nlink := 1\<rparr>) s)) (\<lambda>_ s.
         obind (if type = T_DIR then
             obind (fsop p (\<lambda>me. iupdate me dp) (set_kinode dp (\<lambda>i. i\<lparr>i_nlink := i_nlink i + 1\<rparr>) s)) (\<lambda>_ s.
             obind (fsop p (\<lambda>me. dirlink (ke_devsw env) me ip [46] (i_inum (kinode s ip))) s) (\<lambda>r s.
             obind (if r < 0 then Ret r s
                    else fsop p (\<lambda>me. dirlink (ke_devsw env) me ip [46, 46] (i_inum (kinode s dp))) s) (\<lambda>r s.
               if r < 0 then Panic ''create dots'' else Ret () s)))
           else Ret () s) (\<lambda>_ s.
         obind (fsop p (\<lambda>me. dirlink (ke_devsw env) me dp name (i_inum (kinode s ip))) s) (\<lambda>r s.
           if r < 0 then Panic ''create: dirlink''
           else obind (fsop p (\<lambda>me. iunlockput me dp) s) (\<lambda>_ s. Ret (Some ip) s)))))))))"

subsection \<open>Opening\<close>

text \<open>The part of \<open>sys_open\<close> that finds or makes the inode and locks it.\<close>

definition open_inode :: "kenv \<Rightarrow> nat \<Rightarrow> byte list \<Rightarrow> u32 \<Rightarrow> kstate \<Rightarrow> (nat option, kstate) outcome" where
  "open_inode env p path omode s =
     (if omode AND O_CREATE \<noteq> 0 then
        obind (create env p path T_FILE 0 0 s) (\<lambda>ip s.
          if ip = None then obind (kend_op p s) (\<lambda>_ s. Ret None s) else Ret ip s)
      else
        obind (knamei env p path s) (\<lambda>ip s. case ip of None \<Rightarrow> obind (kend_op p s) (\<lambda>_ s. Ret None s) | Some ip \<Rightarrow>
        obind (fsop p (\<lambda>me. ilock me (Some ip)) s) (\<lambda>_ s.
          if i_type (kinode s ip) = T_DIR \<and> omode \<noteq> O_RDONLY then
            obind (fsop p (\<lambda>me. iunlockput me ip) s) (\<lambda>_ s. obind (kend_op p s) (\<lambda>_ s. Ret None s))
          else Ret (Some ip) s)))"

definition open_file :: "u32 \<Rightarrow> nat \<Rightarrow> kfile \<Rightarrow> kfile" where
  "open_file omode ip x = x\<lparr>f_type := FD_INODE, f_ip := ip, f_off := 0, f_readable := (omode AND O_WRONLY = 0),
     f_writable := (omode AND O_WRONLY \<noteq> 0 \<or> omode AND O_RDWR \<noteq> 0)\<rparr>"

text \<open>The part of \<open>sys_open\<close> that allocates the file and the descriptor for the locked inode.\<close>

definition open_fd :: "kenv \<Rightarrow> nat \<Rightarrow> u32 \<Rightarrow> nat \<Rightarrow> kstate \<Rightarrow> (int, kstate) outcome" where
  "open_fd env p omode ip s =
     (case filealloc s of
        (None, s) \<Rightarrow>
          obind (fsop p (\<lambda>me. iunlockput me ip) s) (\<lambda>_ s.
          obind (kend_op p s) (\<lambda>_ s. Ret (-1) s))
      | (Some f, s) \<Rightarrow>
          (case fdalloc p f s of
             (None, s) \<Rightarrow>
               obind (fileclose env p f s) (\<lambda>_ s.
               obind (fsop p (\<lambda>me. iunlockput me ip) s) (\<lambda>_ s.
               obind (kend_op p s) (\<lambda>_ s. Ret (-1) s)))
           | (Some fd, s) \<Rightarrow>
               obind (fsop p (\<lambda>me. iunlock me (Some ip)) s) (\<lambda>_ s.
               obind (kend_op p s) (\<lambda>_ s. Ret (int fd) (set_file f (open_file omode ip (ks_file s f)) s)))))"

definition sys_open :: "kenv \<Rightarrow> nat \<Rightarrow> kstate \<Rightarrow> (int, kstate) outcome" where
  "sys_open env p s =
     obind (argstr p 0 s) (\<lambda>path s. case path of None \<Rightarrow> Ret (-1) s | Some path \<Rightarrow>
     obind (argint p 1 s) (\<lambda>omode s. case omode of None \<Rightarrow> Ret (-1) s | Some omode \<Rightarrow>
     obind (kbegin_op s) (\<lambda>_ s.
     obind (open_inode env p path omode s) (\<lambda>ip s. case ip of None \<Rightarrow> Ret (-1) s | Some ip \<Rightarrow> open_fd env p omode ip s))))"

text \<open>The common end of \<open>sys_mkdir\<close> and \<open>sys_mknod\<close>.\<close>

definition created :: "nat \<Rightarrow> nat option \<Rightarrow> kstate \<Rightarrow> (int, kstate) outcome" where
  "created p ip s =
     (case ip of
        None \<Rightarrow> obind (kend_op p s) (\<lambda>_ s. Ret (-1) s)
      | Some ip \<Rightarrow> obind (fsop p (\<lambda>me. iunlockput me ip) s) (\<lambda>_ s. obind (kend_op p s) (\<lambda>_ s. Ret 0 s)))"

definition sys_mkdir :: "kenv \<Rightarrow> nat \<Rightarrow> kstate \<Rightarrow> (int, kstate) outcome" where
  "sys_mkdir env p s =
     obind (kbegin_op s) (\<lambda>_ s.
     obind (argstr p 0 s) (\<lambda>path s.
     obind (case path of None \<Rightarrow> Ret None s | Some path \<Rightarrow> create env p path T_DIR 0 0 s) (\<lambda>ip s. created p ip s)))"

definition sys_mknod :: "kenv \<Rightarrow> nat \<Rightarrow> kstate \<Rightarrow> (int, kstate) outcome" where
  "sys_mknod env p s =
     obind (kbegin_op s) (\<lambda>_ s.
     obind (argstr p 0 s) (\<lambda>path s. case path of None \<Rightarrow> created p None s | Some path \<Rightarrow>
     obind (argint p 1 s) (\<lambda>major s. case major of None \<Rightarrow> created p None s | Some major \<Rightarrow>
     obind (argint p 2 s) (\<lambda>minor s. case minor of None \<Rightarrow> created p None s | Some minor \<Rightarrow>
     obind (create env p path T_DEV (ucast major) (ucast minor) s) (\<lambda>ip s. created p ip s)))))"

definition sys_chdir :: "kenv \<Rightarrow> nat \<Rightarrow> kstate \<Rightarrow> (int, kstate) outcome" where
  "sys_chdir env p s =
     obind (kbegin_op s) (\<lambda>_ s.
     obind (argstr p 0 s) (\<lambda>path s.
     obind (case path of None \<Rightarrow> Ret None s | Some path \<Rightarrow> knamei env p path s) (\<lambda>ip s.
       case ip of None \<Rightarrow> obind (kend_op p s) (\<lambda>_ s. Ret (-1) s) | Some ip \<Rightarrow>
     obind (fsop p (\<lambda>me. ilock me (Some ip)) s) (\<lambda>_ s.
       if i_type (kinode s ip) \<noteq> T_DIR then
         obind (fsop p (\<lambda>me. iunlockput me ip) s) (\<lambda>_ s. obind (kend_op p s) (\<lambda>_ s. Ret (-1) s))
       else
         obind (fsop p (\<lambda>me. iunlock me (Some ip)) s) (\<lambda>_ s.
         obind (case p_cwd (kproc s p) of None \<Rightarrow> kfault | Some cwd \<Rightarrow> fsop p (\<lambda>me. iput me cwd) s) (\<lambda>_ s.
         obind (kend_op p s) (\<lambda>_ s. Ret 0 (upd_kproc p (\<lambda>q. q\<lparr>p_cwd := Some ip\<rparr>) s))))))))"

text \<open>The part of \<open>sys_pipe\<close> that allocates the descriptors; \<open>a\<close> is the user's array \<open>fd\<close>.\<close>

definition pipe_fds :: "kenv \<Rightarrow> nat \<Rightarrow> u32 \<Rightarrow> nat \<Rightarrow> nat \<Rightarrow> kstate \<Rightarrow> (int, kstate) outcome" where
  "pipe_fds env p a rf wrf s =
     (let bad = (\<lambda>s. obind (fileclose env p rf s) (\<lambda>_ s. obind (fileclose env p wrf s) (\<lambda>_ s. Ret (-1) s))) in
      case fdalloc p rf s of
        (None, s) \<Rightarrow> bad s
      | (Some fd0, s) \<Rightarrow>
          (case fdalloc p wrf s of
             (None, s) \<Rightarrow> bad (upd_kproc p (\<lambda>q. q\<lparr>p_ofile := (p_ofile q)[fd0 := None]\<rparr>) s)
           | (Some fd1, s) \<Rightarrow>
               obind (uputs p a (le32 (of_nat fd0)) s) (\<lambda>_ s.
               obind (uputs p (a + 4) (le32 (of_nat fd1)) s) (\<lambda>_ s. Ret 0 s))))"

definition sys_pipe :: "kenv \<Rightarrow> nat \<Rightarrow> kstate \<Rightarrow> (int, kstate) outcome" where
  "sys_pipe env p s =
     obind (argptr p 0 8 s) (\<lambda>a s. case a of None \<Rightarrow> Ret (-1) s | Some a \<Rightarrow>
     obind (pipealloc env p s) (\<lambda>r s. case r of None \<Rightarrow> Ret (-1) s | Some (rf, wrf) \<Rightarrow> pipe_fds env p a rf wrf s))"

end
