(* ===== verification/Exec.thy ===== *)
theory Exec
  imports Sysfile
begin

text \<open>
  Loading a program (\<open>src/xv6/exec.c\<close>, \<open>loaduvm\<close> of \<open>src/xv6/vm.c\<close>, \<open>sys_exec\<close>). The ELF headers are read from the
  file as bytes and decoded at the offsets of \<open>src/xv6/elf.h\<close>. The argument strings are byte lists
  without their NUL.
\<close>

definition MAXARG :: nat where "MAXARG = 32"
definition ELF_MAGIC :: u32 where "ELF_MAGIC = 0x464C457F"
definition ELF_PROG_LOAD :: u32 where "ELF_PROG_LOAD = 1"

record elfhdr =
  elf_magic :: u32
  elf_entry :: u32
  elf_phoff :: u32
  elf_phnum :: u16

definition dec_elfhdr :: "byte list \<Rightarrow> elfhdr" where
  "dec_elfhdr d = \<lparr>elf_magic = get32 d 0, elf_entry = get32 d 24, elf_phoff = get32 d 28, elf_phnum = get16 d 44\<rparr>"

record proghdr =
  ph_type :: u32
  ph_off :: u32
  ph_vaddr :: u32
  ph_filesz :: u32
  ph_memsz :: u32

definition dec_proghdr :: "byte list \<Rightarrow> proghdr" where
  "dec_proghdr d = \<lparr>ph_type = get32 d 0, ph_off = get32 d 4, ph_vaddr = get32 d 8, ph_filesz = get32 d 16, ph_memsz = get32 d 20\<rparr>"

definition kreadi :: "kenv \<Rightarrow> nat \<Rightarrow> nat \<Rightarrow> u32 \<Rightarrow> u32 \<Rightarrow> kstate \<Rightarrow> (int \<times> byte list, kstate) outcome" where
  "kreadi env p ip off n = fsop p (\<lambda>me. readi (ke_devsw env) me ip off n)"

function loaduvm_loop :: "kenv \<Rightarrow> nat \<Rightarrow> u32 \<Rightarrow> u32 \<Rightarrow> nat \<Rightarrow> u32 \<Rightarrow> nat \<Rightarrow> u32 \<Rightarrow> kstate \<Rightarrow> (int, kstate) outcome" where
  "loaduvm_loop env p pgdir addr ip offset i sz s =
     (if i < unat sz then
        (case walkpgdir pgdir (addr + of_nat i) False (ks_mem s) of (pte, _) \<Rightarrow>
          if pte = 0 then Panic ''loaduvm: address should exist''
          else
            let pa = PTE_ADDR (kload pte (ks_mem s)); n = (if unat sz - i < 4096 then of_nat (unat sz - i) else PGSIZE) in
            obind (kreadi env p ip (offset + of_nat i) n s) (\<lambda>(r, bs) s.
              let s = s\<lparr>ks_mem := kmemput (P2V pa) bs (ks_mem s)\<rparr>
              in if r \<noteq> int (unat n) then Ret (-1) s else loaduvm_loop env p pgdir addr ip offset (i + 4096) sz s))
      else Ret 0 s)"
  by auto
termination
  by (relation "measure (\<lambda>(env, p, pgdir, addr, ip, offset, i, sz, s). unat sz - i)") auto

declare loaduvm_loop.simps [simp del]

definition loaduvm :: "kenv \<Rightarrow> nat \<Rightarrow> u32 \<Rightarrow> u32 \<Rightarrow> nat \<Rightarrow> u32 \<Rightarrow> u32 \<Rightarrow> kstate \<Rightarrow> (int, kstate) outcome" where
  "loaduvm env p pgdir addr ip offset sz s =
     (if addr mod PGSIZE \<noteq> 0 then Panic ''loaduvm: addr must be page aligned''
      else loaduvm_loop env p pgdir addr ip offset 0 sz s)"

text \<open>The loop over \<open>k\<close> more program headers; \<open>None\<close> is \<open>goto bad\<close>.\<close>

fun exec_load :: "kenv \<Rightarrow> nat \<Rightarrow> nat \<Rightarrow> u32 \<Rightarrow> nat \<Rightarrow> u32 \<Rightarrow> u32 \<Rightarrow> kstate \<Rightarrow> (u32 option, kstate) outcome" where
  "exec_load env p ip pgdir 0 off sz s = Ret (Some sz) s"
| "exec_load env p ip pgdir (Suc k) off sz s =
     obind (kreadi env p ip off 32 s) (\<lambda>(r, d) s.
       if r \<noteq> 32 then Ret None s
       else
         let ph = dec_proghdr d in
         if ph_type ph \<noteq> ELF_PROG_LOAD then exec_load env p ip pgdir k (off + 32) sz s
         else if ph_memsz ph < ph_filesz ph then Ret None s
         else if ph_vaddr ph + ph_memsz ph < ph_vaddr ph then Ret None s
         else
           obind (on_mem (allocuvm (ke_end env) pgdir sz (ph_vaddr ph + ph_memsz ph)) s) (\<lambda>sz s.
             if sz = 0 then Ret None s
             else if ph_vaddr ph mod PGSIZE \<noteq> 0 then Ret None s
             else
               obind (loaduvm env p pgdir (ph_vaddr ph) ip (ph_off ph) (ph_filesz ph) s) (\<lambda>r s.
                 if r < 0 then Ret None s else exec_load env p ip pgdir k (off + 32) sz s)))"

text \<open>
  Pushing the argument strings: the stack pointer and the addresses of the strings. \<open>cur\<close> is the page table of the
  processor, that of the process until \<open>exec\<close> succeeds.
\<close>

fun exec_args :: "u32 \<Rightarrow> u32 \<Rightarrow> byte list list \<Rightarrow> nat \<Rightarrow> u32 \<Rightarrow> u32 list \<Rightarrow> kstate \<Rightarrow> ((u32 \<times> u32 list) option, kstate) outcome" where
  "exec_args cur pgdir [] argc sp us s = Ret (Some (sp, us)) s"
| "exec_args cur pgdir (a # argv) argc sp us s =
     (if MAXARG \<le> argc then Ret None s
      else
        let sp = (sp - (of_nat (length a) + 1)) AND NOT 3 in
        obind (on_mem (copyout cur pgdir sp (a @ [0])) s) (\<lambda>r s.
          if r < 0 then Ret None s else exec_args cur pgdir argv (argc + 1) sp (us @ [sp]) s))"

definition last_elem :: "byte list \<Rightarrow> byte list" where
  "last_elem path = rev (takeWhile (\<lambda>c. c \<noteq> slash) (rev (takeWhile (\<lambda>c. c \<noteq> 0) path)))"

definition exec_bad :: "kenv \<Rightarrow> nat \<Rightarrow> u32 \<Rightarrow> nat option \<Rightarrow> kstate \<Rightarrow> (int, kstate) outcome" where
  "exec_bad env p pgdir ip s =
     obind (if pgdir \<noteq> 0 then on_mem (freevm (ke_end env) pgdir) s else Ret () s) (\<lambda>_ s.
       case ip of
         None \<Rightarrow> Ret (-1) s
       | Some ip \<Rightarrow> obind (fsop p (\<lambda>me. iunlockput me ip) s) (\<lambda>_ s. obind (kend_op p s) (\<lambda>_ s. Ret (-1) s)))"

text \<open>The stack: two pages, the lower one inaccessible to the user; arguments and frame of \<open>main\<close>.\<close>

definition exec_stack :: "kenv \<Rightarrow> u32 \<Rightarrow> u32 \<Rightarrow> u32 \<Rightarrow> byte list list \<Rightarrow> kstate \<Rightarrow> ((u32 \<times> u32) option, kstate) outcome" where
  "exec_stack env cur pgdir sz argv s =
     (let sz = PGROUNDUP sz in
      obind (on_mem (allocuvm (ke_end env) pgdir sz (sz + 2 * PGSIZE)) s) (\<lambda>sz s.
        if sz = 0 then Ret None s
        else
          obind (on_mem (clearpteu pgdir (sz - 2 * PGSIZE)) s) (\<lambda>_ s.
          obind (exec_args cur pgdir argv 0 sz [] s) (\<lambda>r s. case r of
              None \<Rightarrow> Ret None s
            | Some (sp, us) \<Rightarrow>
                let argc = of_nat (length us);
                    ustack = [0xFFFFFFFF, argc, sp - (argc + 1) * 4] @ us @ [0];
                    sp = sp - (3 + argc + 1) * 4
                in obind (on_mem (copyout cur pgdir sp (concat (map le32 ustack))) s) (\<lambda>r s.
                     if r < 0 then Ret None s else Ret (Some (sz, sp)) s)))))"

definition exec :: "kenv \<Rightarrow> nat \<Rightarrow> byte list \<Rightarrow> byte list list \<Rightarrow> kstate \<Rightarrow> (int, kstate) outcome" where
  "exec env p path argv s =
     obind (kbegin_op s) (\<lambda>_ s.
     obind (knamei env p path s) (\<lambda>ip s. case ip of
       None \<Rightarrow> obind (kend_op p s) (\<lambda>_ s. obind (kputs (bytes ''exec: fail\<newline>'') s) (\<lambda>_ s. Ret (-1) s))
     | Some ip \<Rightarrow>
     obind (fsop p (\<lambda>me. ilock me (Some ip)) s) (\<lambda>_ s.
     obind (kreadi env p ip 0 52 s) (\<lambda>(r, d) s.
       if r \<noteq> 52 then exec_bad env p 0 (Some ip) s
       else if elf_magic (dec_elfhdr d) \<noteq> ELF_MAGIC then exec_bad env p 0 (Some ip) s
       else
         let elf = dec_elfhdr d in
         obind (on_mem (setupkvm (ke_end env) (ke_data env)) s) (\<lambda>pgdir s.
           if pgdir = 0 then exec_bad env p 0 (Some ip) s
           else
             obind (exec_load env p ip pgdir (unat (elf_phnum elf)) (elf_phoff elf) 0 s) (\<lambda>sz s.
               case sz of None \<Rightarrow> exec_bad env p pgdir (Some ip) s | Some sz \<Rightarrow>
             obind (fsop p (\<lambda>me. iunlockput me ip) s) (\<lambda>_ s.
             obind (kend_op p s) (\<lambda>_ s.
             obind (exec_stack env (p_pgdir (kproc s p)) pgdir sz argv s) (\<lambda>r s.
               case r of None \<Rightarrow> exec_bad env p pgdir None s | Some (sz, sp) \<Rightarrow>
                 let oldpgdir = p_pgdir (kproc s p);
                     s = upd_kproc p (\<lambda>q. q\<lparr>p_name := set_name (p_name q) (last_elem path), p_pgdir := pgdir, p_sz := sz,
                           p_tf := (p_tf q)\<lparr>tf_eip := elf_entry elf, tf_esp := sp\<rparr>\<rparr>) s
                 in obind (on_mem (freevm (ke_end env) oldpgdir) s) (\<lambda>_ s. Ret 0 s))))))))))"

text \<open>The loop of \<open>sys_exec\<close>, with room for \<open>n\<close> more entries of \<open>argv\<close>.\<close>

fun exec_argv :: "nat \<Rightarrow> u32 \<Rightarrow> nat \<Rightarrow> kstate \<Rightarrow> (byte list list option, kstate) outcome" where
  "exec_argv p uargv 0 s = Ret None s"
| "exec_argv p uargv (Suc n) s =
     obind (fetchint p uargv s) (\<lambda>r s. case r of None \<Rightarrow> Ret None s | Some uarg \<Rightarrow>
       if uarg = 0 then Ret (Some []) s
       else
         obind (fetchstr p uarg s) (\<lambda>r s. case r of None \<Rightarrow> Ret None s | Some a \<Rightarrow>
         obind (exec_argv p (uargv + 4) n s) (\<lambda>r s. Ret (map_option (Cons a) r) s)))"

definition sys_exec :: "kenv \<Rightarrow> nat \<Rightarrow> kstate \<Rightarrow> (int, kstate) outcome" where
  "sys_exec env p s =
     obind (argstr p 0 s) (\<lambda>path s. case path of None \<Rightarrow> Ret (-1) s | Some path \<Rightarrow>
     obind (argint p 1 s) (\<lambda>uargv s. case uargv of None \<Rightarrow> Ret (-1) s | Some uargv \<Rightarrow>
     obind (exec_argv p uargv MAXARG s) (\<lambda>argv s. case argv of None \<Rightarrow> Ret (-1) s | Some argv \<Rightarrow> exec env p path argv s)))"

end
