(* ===== verification/Trap.thy ===== *)
theory Trap
  imports Exec
begin

text \<open>
  The system calls on processes (\<open>src/xv6/sysproc.c\<close>), the dispatch of system calls
  (\<open>syscall\<close> of \<open>src/xv6/syscall.c\<close>) and of traps (\<open>src/xv6/trap.c\<close>). The acknowledgement of interrupts to the APIC has no
  effect on the state. The characters a device holds when its interrupt is handled are an argument.
\<close>

subsection \<open>System calls on processes\<close>

definition sys_kill :: "nat \<Rightarrow> kstate \<Rightarrow> (int, kstate) outcome" where
  "sys_kill p s =
     obind (argint p 0 s) (\<lambda>r s. case r of None \<Rightarrow> Ret (-1) s | Some pid \<Rightarrow>
       (case kill pid (ks_pt s) of (r, t) \<Rightarrow> Ret r (s\<lparr>ks_pt := t\<rparr>)))"

definition sys_getpid :: "nat \<Rightarrow> kstate \<Rightarrow> (int, kstate) outcome" where
  "sys_getpid p s = Ret (pid_of s p) s"

text \<open>
  The field \<open>pid\<close> is 16 bytes into \<open>struct proc\<close>. For a null parent the load is from address 16, which
  is an address of the process.
\<close>

definition sys_getppid :: "nat \<Rightarrow> kstate \<Rightarrow> (int, kstate) outcome" where
  "sys_getppid p s =
     (case p_parent (kproc s p) of
        Some q \<Rightarrow> Ret (pid_of s q) s
      | None \<Rightarrow> (case ugets p 16 4 s of None \<Rightarrow> kfault | Some bs \<Rightarrow> Ret (sint (un_le32 bs)) s))"

definition sys_sbrk :: "kenv \<Rightarrow> nat \<Rightarrow> kstate \<Rightarrow> (int, kstate) outcome" where
  "sys_sbrk env p s =
     obind (argint p 0 s) (\<lambda>r s. case r of None \<Rightarrow> Ret (-1) s | Some n \<Rightarrow>
       let addr = sint (p_sz (kproc s p))
       in obind (growproc env p n s) (\<lambda>r s. if r < 0 then Ret (-1) s else Ret addr s))"

text \<open>
  One pass of the loop of \<open>sys_sleep\<close>, which starts with \<open>ticks0 = ticks\<close> and is run again each time the process wakes
  up. The comparison is one of \<open>uint\<close>s.
\<close>

definition sleep_pass :: "nat \<Rightarrow> u32 \<Rightarrow> u32 \<Rightarrow> kstate \<Rightarrow> (int, kstate) outcome" where
  "sleep_pass p ticks0 n s =
     (if ks_ticks s - ticks0 < n then (if p_killed (kproc s p) then Ret (-1) s else Sleep TicksChan s)
      else Ret 0 s)"

definition sys_sleep :: "nat \<Rightarrow> kstate \<Rightarrow> (int, kstate) outcome" where
  "sys_sleep p s =
     obind (argint p 0 s) (\<lambda>r s. case r of None \<Rightarrow> Ret (-1) s | Some n \<Rightarrow> sleep_pass p (ks_ticks s) n s)"

definition sys_uptime :: "kstate \<Rightarrow> (int, kstate) outcome" where
  "sys_uptime s = Ret (sint (ks_ticks s)) s"

definition sys_trace :: "nat \<Rightarrow> kstate \<Rightarrow> (int, kstate) outcome" where
  "sys_trace p s =
     obind (argint p 0 s) (\<lambda>r s. case r of None \<Rightarrow> Ret (-1) s | Some n \<Rightarrow> Ret 0 (s\<lparr>ks_trace := sint n\<rparr>))"

definition sys_answer :: "kstate \<Rightarrow> (int, kstate) outcome" where
  "sys_answer s = Ret 42 s"

definition NPTENTRIES :: nat where "NPTENTRIES = 1024"

definition pgcnt_table :: "u32 \<Rightarrow> kmem \<Rightarrow> nat" where
  "pgcnt_table pte m = length (filter (\<lambda>j. kload (pte + 4 * of_nat j) m AND (PTE_P OR PTE_U) = PTE_P OR PTE_U) [0..<NPTENTRIES])"

definition pgcnt :: "u32 \<Rightarrow> kmem \<Rightarrow> nat" where
  "pgcnt pgdir m =
     sum_list (map (\<lambda>i. let pde = kload (pgdir + 4 * of_nat i) m
       in if pde AND PTE_P \<noteq> 0 then pgcnt_table (P2V (PTE_ADDR pde)) m else 0) [0..<NPDENTRIES])"

definition sys_pgcnt :: "nat \<Rightarrow> kstate \<Rightarrow> (int, kstate) outcome" where
  "sys_pgcnt p s = Ret (int (pgcnt (p_pgdir (kproc s p)) (ks_mem s))) s"

subsection \<open>Dispatch\<close>

text \<open>
  The table \<open>syscalls\<close>. The value \<open>None\<close> says that the call does not come back, which is so for \<open>exit\<close> only.
\<close>

definition comes_back :: "(kstate \<Rightarrow> (int, kstate) outcome) \<Rightarrow> kstate \<Rightarrow> (int option, kstate) outcome" where
  "comes_back f s = obind (f s) (\<lambda>r s. Ret (Some r) s)"

definition syscalls :: "kenv \<Rightarrow> nat \<Rightarrow> int \<Rightarrow> (kstate \<Rightarrow> (int option, kstate) outcome) option" where
  "syscalls env p num =
     (if num = 1 then Some (comes_back (fork env p))
      else if num = 2 then Some (\<lambda>s. obind (exit env p s) (\<lambda>_ s. Ret None s))
      else if num = 3 then Some (comes_back (wait env p))
      else if num = 4 then Some (comes_back (sys_pipe env p))
      else if num = 5 then Some (comes_back (sys_read env p))
      else if num = 6 then Some (comes_back (sys_kill p))
      else if num = 7 then Some (comes_back (sys_exec env p))
      else if num = 8 then Some (comes_back (sys_fstat p))
      else if num = 9 then Some (comes_back (sys_chdir env p))
      else if num = 10 then Some (comes_back (sys_dup p))
      else if num = 11 then Some (comes_back (sys_getpid p))
      else if num = 12 then Some (comes_back (sys_sbrk env p))
      else if num = 13 then Some (comes_back (sys_sleep p))
      else if num = 14 then Some (comes_back sys_uptime)
      else if num = 15 then Some (comes_back (sys_open env p))
      else if num = 16 then Some (comes_back (sys_write env p))
      else if num = 17 then Some (comes_back (sys_mknod env p))
      else if num = 18 then Some (comes_back (sys_unlink env p))
      else if num = 19 then Some (comes_back (sys_link env p))
      else if num = 20 then Some (comes_back (sys_mkdir env p))
      else if num = 21 then Some (comes_back (sys_close env p))
      else if num = 22 then Some (comes_back (sys_trace p))
      else if num = 23 then Some (comes_back sys_answer)
      else if num = 24 then Some (comes_back (sys_getppid p))
      else if num = 25 then Some (comes_back (\<lambda>s. Ret (sys_pscnt (ks_pt s)) s))
      else if num = 26 then Some (comes_back (sys_pgcnt p))
      else None)"

definition syscalls_names :: "string list" where
  "syscalls_names = [''sys_fork'', ''sys_exit'', ''sys_wait'', ''sys_pipe'', ''sys_read'', ''sys_kill'', ''sys_exec'',
     ''sys_fstat'', ''sys_chdir'', ''sys_dup'', ''sys_getpid'', ''sys_sbrk'', ''sys_sleep'', ''sys_uptime'', ''sys_open'',
     ''sys_write'', ''sys_mknod'', ''sys_unlink'', ''sys_link'', ''sys_mkdir'', ''sys_close'', ''sys_trace'', ''sys_answer'',
     ''sys_getppid'', ''sys_pscnt'', ''sys_pgcnt'']"

text \<open>Numbers always fit the buffer of \<open>printint\<close>; \<open>dec\<close> is the text of \<open>%d\<close>.\<close>

definition dec :: "u32 \<Rightarrow> byte list" where
  "dec w = the (printint w 10 True)"

definition hex :: "u32 \<Rightarrow> byte list" where
  "hex w = the (printint w 16 False)"

definition cstring :: "byte list \<Rightarrow> byte list" where
  "cstring = takeWhile (\<lambda>c. c \<noteq> 0)"

definition set_eax :: "nat \<Rightarrow> u32 \<Rightarrow> kstate \<Rightarrow> kstate" where
  "set_eax p w = upd_kproc p (\<lambda>q. q\<lparr>p_tf := (p_tf q)\<lparr>tf_eax := w\<rparr>\<rparr>)"

text \<open>The value of \<open>syscall\<close> is whether it comes back.\<close>

definition syscall :: "kenv \<Rightarrow> nat \<Rightarrow> kstate \<Rightarrow> (bool, kstate) outcome" where
  "syscall env p s =
     (let num = sint (tf_eax (p_tf (kproc s p))) in
      case syscalls env p num of
        Some f \<Rightarrow>
          obind (f s) (\<lambda>r s.
            case r of None \<Rightarrow> Ret False s
            | Some r \<Rightarrow>
              let s = set_eax p (word_of_int r) s in
              obind (if 0 < ks_trace s then
                  kputs (bytes ''['' @ dec (word_of_int num) @ bytes ''] '' @ bytes (syscalls_names ! (nat num - 1)) @ bytes '': ''
                    @ dec (tf_eax (p_tf (kproc s p))) @ [10]) s
                else Ret () s) (\<lambda>_ s. Ret True s))
      | None \<Rightarrow>
          obind (kputs (dec (p_pid (kproc s p)) @ [32] @ cstring (p_name (kproc s p)) @ bytes '': unknown sys call ''
              @ dec (word_of_int num) @ [10]) s) (\<lambda>_ s. Ret True (set_eax p (- 1) s)))"

subsection \<open>Traps\<close>

definition T_SYSCALL :: u32 where "T_SYSCALL = 64"
definition T_IRQ0 :: u32 where "T_IRQ0 = 32"
definition IRQ_TIMER :: u32 where "IRQ_TIMER = 0"
definition IRQ_KBD :: u32 where "IRQ_KBD = 1"
definition IRQ_COM1 :: u32 where "IRQ_COM1 = 4"
definition IRQ_IDE :: u32 where "IRQ_IDE = 14"
definition IRQ_SPURIOUS :: u32 where "IRQ_SPURIOUS = 31"

text \<open>\<open>kbdintr\<close> and \<open>uartintr\<close>: \<open>consoleintr\<close> with what the device holds.\<close>

definition devintr :: "int list \<Rightarrow> kstate \<Rightarrow> (unit, kstate) outcome" where
  "devintr cs s =
     obind (olift (\<lambda>c. s\<lparr>ks_cons := c\<rparr>) (consoleintr cs (ks_cons s))) (\<lambda>(w, d) s.
       let s = (if w then upd_pt (wakeup InputChan) s else s)
       in if d then kputs (the (procdump (kmemory (ks_mem s)) (ks_pt s))) s else Ret () s)"

text \<open>How a trap ends: back to what was interrupted, or in the scheduler, for good or for one round.\<close>

datatype trap_end = Resumed | Exited | Yielded

definition clock_tick :: "kstate \<Rightarrow> kstate" where
  "clock_tick s = upd_pt (wakeup TicksChan) (s\<lparr>ks_ticks := ks_ticks s + 1\<rparr>)"

text \<open>
  The \<open>switch\<close> of \<open>trap\<close>: \<open>cpu\<close> is \<open>cpuid()\<close>, \<open>cr2\<close> the fault address, \<open>cs\<close> the characters of the device.
\<close>

definition trap_switch :: "nat \<Rightarrow> u32 \<Rightarrow> int list \<Rightarrow> nat option \<Rightarrow> trapframe \<Rightarrow> kstate \<Rightarrow> (unit, kstate) outcome" where
  "trap_switch cpu cr2 cs po tf s =
     (let no = tf_trapno tf in
      if no = T_IRQ0 + IRQ_TIMER then Ret () (if cpu = 0 then clock_tick s else s)
      else if no = T_IRQ0 + IRQ_IDE then Ret () s
      else if no = T_IRQ0 + IRQ_IDE + 1 then Ret () s
      else if no = T_IRQ0 + IRQ_KBD then devintr cs s
      else if no = T_IRQ0 + IRQ_COM1 then devintr cs s
      else if no = T_IRQ0 + 7 \<or> no = T_IRQ0 + IRQ_SPURIOUS then
        kputs (bytes ''cpu'' @ dec (of_nat cpu) @ bytes '': spurious interrupt at '' @ hex (ucast (tf_cs tf)) @ bytes '':''
          @ hex (tf_eip tf) @ [10]) s
      else case po of
          None \<Rightarrow> Panic ''trap''
        | Some p \<Rightarrow>
            if tf_cs tf AND 3 = 0 then Panic ''trap''
            else
              obind (kputs (bytes ''pid '' @ dec (p_pid (kproc s p)) @ [32] @ cstring (p_name (kproc s p)) @ bytes '': trap ''
                @ dec no @ bytes '' err '' @ dec (tf_err tf) @ bytes '' on cpu '' @ dec (of_nat cpu) @ bytes '' eip 0x''
                @ hex (tf_eip tf) @ bytes '' addr 0x'' @ hex cr2 @ bytes ''--kill proc'' @ [10]) s) (\<lambda>_ s.
              Ret () (upd_kproc p (\<lambda>q. q\<lparr>p_killed := True\<rparr>) s)))"

definition must_exit :: "nat option \<Rightarrow> trapframe \<Rightarrow> kstate \<Rightarrow> bool" where
  "must_exit po tf s \<longleftrightarrow> (case po of None \<Rightarrow> False | Some p \<Rightarrow> p_killed (kproc s p)) \<and> tf_cs tf AND 3 = DPL_USER"

definition trap_exit :: "kenv \<Rightarrow> nat option \<Rightarrow> kstate \<Rightarrow> (trap_end, kstate) outcome" where
  "trap_exit env po s = (case po of None \<Rightarrow> kfault | Some p \<Rightarrow> obind (exit env p s) (\<lambda>_ s. Ret Exited s))"

text \<open>The end of \<open>trap\<close>, after \<open>yield\<close> has come back or was not called.\<close>

definition trap_done :: "kenv \<Rightarrow> nat option \<Rightarrow> trapframe \<Rightarrow> kstate \<Rightarrow> (trap_end, kstate) outcome" where
  "trap_done env po tf s = (if must_exit po tf s then trap_exit env po s else Ret Resumed s)"

definition trap :: "kenv \<Rightarrow> nat \<Rightarrow> u32 \<Rightarrow> int list \<Rightarrow> nat option \<Rightarrow> trapframe \<Rightarrow> kstate \<Rightarrow> (trap_end, kstate) outcome" where
  "trap env cpu cr2 cs po tf s =
     (if tf_trapno tf = T_SYSCALL then
        (case po of
           None \<Rightarrow> kfault
         | Some p \<Rightarrow>
             if p_killed (kproc s p) then trap_exit env po s
             else
               obind (syscall env p (upd_kproc p (\<lambda>q. q\<lparr>p_tf := tf\<rparr>) s)) (\<lambda>ret s.
                 if \<not> ret then Ret Exited s
                 else if p_killed (kproc s p) then trap_exit env po s else Ret Resumed s))
      else
        obind (trap_switch cpu cr2 cs po tf s) (\<lambda>_ s.
          if must_exit po tf s then trap_exit env po s
          else case po of
              Some p \<Rightarrow>
                if pstate (ks_pt s) p = RUNNING \<and> tf_trapno tf = T_IRQ0 + IRQ_TIMER then Ret Yielded (upd_pt (yield p) s)
                else trap_done env po tf s
            | None \<Rightarrow> trap_done env po tf s))"

end
