(* ===== verification/File_Refs.thy ===== *)
theory File_Refs
  imports Trap
begin

text \<open>
  Reference counts of open files: the count of every entry of the file table is the number of descriptors, over
  all processes, that refer to it. The proofs follow the routines with the references a routine holds in its
  local variables, and show that all other routines leave files and descriptors alone.
\<close>

subsection \<open>What the counts depend on\<close>

definition idle :: "procstate \<Rightarrow> bool" where
  "idle st \<longleftrightarrow> st = UNUSED \<or> st = EMBRYO \<or> st = ZOMBIE"

type_synonym fview = "(nat \<Rightarrow> int) \<times> (nat \<Rightarrow> nat option list) \<times> (nat \<Rightarrow> bool)"

definition fview :: "kstate \<Rightarrow> fview" where
  "fview s = (\<lambda>f. f_ref (ks_file s f), \<lambda>p. p_ofile (kproc s p), \<lambda>p. idle (p_state (kproc s p)))"

lemma fview_eqI:
  assumes "\<And>f. f_ref (ks_file s f) = f_ref (ks_file t f)" and "\<And>p. p_ofile (kproc s p) = p_ofile (kproc t p)"
    and "\<And>p. idle (p_state (kproc s p)) = idle (p_state (kproc t p))"
  shows "fview s = fview t"
  using assms by (simp add: fview_def fun_eq_iff)

text \<open>A routine that, when it returns, leaves the view as \<open>v\<close>.\<close>

definition keeps :: "fview \<Rightarrow> ('a, kstate) outcome \<Rightarrow> bool" where
  "keeps v m \<longleftrightarrow> (\<forall>a s. m = Ret a s \<longrightarrow> fview s = v)"

lemma keeps_basic [simp]: "keeps v (Ret a s) \<longleftrightarrow> fview s = v" "keeps v (Panic e)" "keeps v (Sleep c s)" "keeps v kfault"
  by (auto simp: keeps_def kfault_def)

lemma keeps_bind: "keeps v m \<Longrightarrow> (\<And>a s. fview s = v \<Longrightarrow> keeps v (f a s)) \<Longrightarrow> keeps v (obind m f)"
  by (cases m) (auto simp: keeps_def)

lemma keeps_if: "(b \<Longrightarrow> keeps v x) \<Longrightarrow> (\<not> b \<Longrightarrow> keeps v y) \<Longrightarrow> keeps v (if b then x else y)"
  by simp

lemma keeps_option:
  "(z = None \<Longrightarrow> keeps v x) \<Longrightarrow> (\<And>a. z = Some a \<Longrightarrow> keeps v (y a)) \<Longrightarrow> keeps v (case z of None \<Rightarrow> x | Some a \<Rightarrow> y a)"
  by (cases z) auto

lemma keeps_prod: "(\<And>a b. z = (a, b) \<Longrightarrow> keeps v (f a b)) \<Longrightarrow> keeps v (case z of (a, b) \<Rightarrow> f a b)"
  by (cases z) auto

lemma keeps_let: "keeps v (f x) \<Longrightarrow> keeps v (Let x f)"
  by simp

lemma fview_upd [simp]:
  "fview (s\<lparr>ks_fs := a\<rparr>) = fview s" "fview (s\<lparr>ks_mem := b\<rparr>) = fview s" "fview (s\<lparr>ks_cons := c\<rparr>) = fview s"
  "fview (s\<lparr>ks_ticks := d\<rparr>) = fview s" "fview (s\<lparr>ks_trace := e\<rparr>) = fview s" "fview (s\<lparr>ks_pipe := g\<rparr>) = fview s"
  "fview (set_pipe h q s) = fview s" "fview (set_kinode ip i s) = fview s"
  by (simp_all add: fview_def set_pipe_def set_kinode_def)

lemma fview_wakeup [simp]: "fview (upd_pt (wakeup cn) s) = fview s"
  by (rule fview_eqI) (auto simp: wakeup_def wakeup1_def idle_def)

lemma fview_pipe_wake [simp]: "fview (pipe_wake a wk s) = fview s"
proof (induction wk arbitrary: s)
  case (Cons c wk)
  have "pipe_wake a (c # wk) s = pipe_wake a wk (pipe_wake a [c] s)" by (simp add: pipe_wake_def upd_pt_def)
  then show ?case using Cons by (cases c) simp_all
qed simp

lemma fview_file [simp]: "f_ref x = f_ref (ks_file s f) \<Longrightarrow> fview (set_file f x s) = fview s"
  by (rule fview_eqI) auto

lemma fview_proc [simp]:
  "(\<And>q. p_ofile (g q) = p_ofile q \<and> p_state (g q) = p_state q) \<Longrightarrow> fview (upd_kproc p g s) = fview s"
  by (rule fview_eqI) auto

lemma keeps_lift:
  "fview s = v \<Longrightarrow> keeps v (on_fs f s)" "fview s = v \<Longrightarrow> keeps v (on_mem g s)" "fview s = v \<Longrightarrow> keeps v (fsop p h s)"
  "fview s = v \<Longrightarrow> keeps v (kbegin_op s)" "fview s = v \<Longrightarrow> keeps v (kend_op p s)" "fview s = v \<Longrightarrow> keeps v (kputs txt s)"
  by (auto simp: keeps_def on_fs_def on_mem_def fsop_def kbegin_op_def kend_op_def kputs_def olift_Ret_iff)

lemmas keeps_rules = keeps_bind keeps_if keeps_option keeps_prod keeps_let keeps_lift

subsection \<open>Routines without effect on files\<close>

lemma keeps_uput: "fview s = v \<Longrightarrow> keeps v (uput p a b s)"
  by (simp add: uput_def Let_def)

lemma keeps_uputs: "fview s = v \<Longrightarrow> keeps v (uputs p a bs s)"
  by (induction bs arbitrary: a s) (auto intro!: keeps_bind keeps_uput)

lemma keeps_fetchint: "fview s = v \<Longrightarrow> keeps v (fetchint p a s)"
  unfolding fetchint_def by (intro keeps_rules) auto

lemma keeps_fetchstr_loop: "fview s = v \<Longrightarrow> keeps v (fetchstr_loop p a n s)"
  by (induction n arbitrary: a s) (auto intro!: keeps_bind split: option.splits)

lemma keeps_args:
  "fview s = v \<Longrightarrow> keeps v (fetchstr p a s)" "fview s = v \<Longrightarrow> keeps v (argint p n s)"
  "fview s = v \<Longrightarrow> keeps v (argptr p n w s)" "fview s = v \<Longrightarrow> keeps v (argstr p n s)" "fview s = v \<Longrightarrow> keeps v (argfd p n s)"
  unfolding fetchstr_def argint_def argptr_def argstr_def argfd_def
  by (auto intro!: keeps_rules keeps_fetchint keeps_fetchstr_loop simp: fetchstr_def)

lemma keeps_pipes:
  "fview s = v \<Longrightarrow> keeps v (kpiperead p a n s)" "fview s = v \<Longrightarrow> keeps v (kpipewrite p a bs s)"
  "fview s = v \<Longrightarrow> keeps v (pipeclose env a w s)"
  unfolding kpiperead_def kpipewrite_def pipeclose_def
  by (auto simp: Let_def intro!: keeps_rules split: pipe_result.splits prod.splits)

lemma keeps_filestat: "fview s = v \<Longrightarrow> keeps v (filestat p f s)"
  unfolding filestat_def by (intro keeps_rules) auto

lemma keeps_fileread: "fview s = v \<Longrightarrow> keeps v (fileread env p f n s)"
  unfolding fileread_def by (auto simp: Let_def intro!: keeps_rules keeps_pipes split: fdtype.splits)

lemma keeps_filewrite_loop: "fview s = v \<Longrightarrow> keeps v (filewrite_loop env p f bs s)"
proof (induction "length bs" arbitrary: bs s rule: less_induct)
  case less
  have "length (drop (min (length bs) filewrite_max) bs) < length bs" if "bs \<noteq> []"
    using that by (auto simp: filewrite_max_def MAXOPBLOCKS_def)
  then have IH: "keeps v (filewrite_loop env p f (drop (min (length bs) filewrite_max) bs) t)" if "bs \<noteq> []" "fview t = v" for t
    using less.hyps that by blast
  show ?case
    by (subst filewrite_loop.simps) (use less.prems IH in \<open>auto simp: Let_def intro!: keeps_rules\<close>)
qed

lemma keeps_filewrite: "fview s = v \<Longrightarrow> keeps v (filewrite env p f bs s)"
  unfolding filewrite_def
  by (auto simp: Let_def intro!: keeps_rules keeps_pipes keeps_filewrite_loop split: fdtype.splits)

lemma keeps_knamei: "fview s = v \<Longrightarrow> keeps v (knamei env p path s)" "fview s = v \<Longrightarrow> keeps v (knameiparent env p path s)"
  unfolding knamei_def knameiparent_def by (auto intro!: keeps_rules)

lemma keeps_rw_args: "fview s = v \<Longrightarrow> keeps v (rw_args p s)"
  unfolding rw_args_def by (auto intro!: keeps_rules keeps_args)

lemma keeps_put_fields: "fview s = v \<Longrightarrow> keeps v (put_fields p a fs s)"
  by (induction fs arbitrary: s) (auto intro!: keeps_bind keeps_uputs)

lemma keeps_create: "fview s = v \<Longrightarrow> keeps v (create env p path ty ma mi s)"
  unfolding create_def by (auto intro!: keeps_rules keeps_knamei)

lemma keeps_open_inode: "fview s = v \<Longrightarrow> keeps v (open_inode env p path om s)"
  unfolding open_inode_def by (auto intro!: keeps_rules keeps_knamei keeps_create)

lemma keeps_sys_link: "fview s = v \<Longrightarrow> keeps v (sys_link env p s)"
  unfolding sys_link_def link_bad_def by (auto intro!: keeps_rules keeps_knamei keeps_args)

lemma keeps_sys_unlink: "fview s = v \<Longrightarrow> keeps v (sys_unlink env p s)"
  unfolding sys_unlink_def unlink_bad_def by (auto intro!: keeps_rules keeps_knamei keeps_args)

lemma keeps_sys_file:
  "fview s = v \<Longrightarrow> keeps v (sys_read env p s)" "fview s = v \<Longrightarrow> keeps v (sys_write env p s)"
  "fview s = v \<Longrightarrow> keeps v (sys_fstat p s)" "fview s = v \<Longrightarrow> keeps v (sys_mkdir env p s)"
  "fview s = v \<Longrightarrow> keeps v (sys_mknod env p s)" "fview s = v \<Longrightarrow> keeps v (sys_chdir env p s)"
  unfolding sys_read_def sys_write_def sys_fstat_def sys_mkdir_def sys_mknod_def sys_chdir_def created_def
  by (auto intro!: keeps_rules keeps_knamei keeps_args keeps_rw_args keeps_fileread keeps_filewrite keeps_filestat
      keeps_put_fields keeps_uputs keeps_create)

lemma keeps_loaduvm: "fview s = v \<Longrightarrow> keeps v (loaduvm env p d a ip off sz s)"
proof -
  have "fview s = v \<Longrightarrow> keeps v (loaduvm_loop env p d a ip off i sz s)" for i
  proof (induction "unat sz - i" arbitrary: i s rule: less_induct)
    case less
    show ?case
      by (subst loaduvm_loop.simps) (use less in \<open>auto simp: Let_def kreadi_def intro!: keeps_rules\<close>)
  qed
  then show "fview s = v \<Longrightarrow> ?thesis" by (simp add: loaduvm_def)
qed

lemma keeps_exec_load: "fview s = v \<Longrightarrow> keeps v (exec_load env p ip d k off sz s)"
  by (induction k arbitrary: off sz s) (auto simp: Let_def kreadi_def intro!: keeps_rules keeps_loaduvm)

lemma keeps_exec_args: "fview s = v \<Longrightarrow> keeps v (exec_args c d argv n sp us s)"
  by (induction argv arbitrary: n sp us s) (auto simp: Let_def intro!: keeps_rules)

lemma keeps_exec_stack: "fview s = v \<Longrightarrow> keeps v (exec_stack env c d sz argv s)"
  unfolding exec_stack_def by (auto simp: Let_def intro!: keeps_rules keeps_exec_args)

lemma keeps_exec: "fview s = v \<Longrightarrow> keeps v (exec env p path argv s)"
  unfolding exec_def exec_bad_def
  by (auto simp: Let_def kreadi_def intro!: keeps_rules keeps_knamei keeps_exec_load keeps_exec_stack)

lemma keeps_exec_argv: "fview s = v \<Longrightarrow> keeps v (exec_argv p a n s)"
  by (induction n arbitrary: a s) (auto intro!: keeps_rules keeps_fetchint keeps_args)

lemma keeps_sys_exec: "fview s = v \<Longrightarrow> keeps v (sys_exec env p s)"
  unfolding sys_exec_def by (auto intro!: keeps_rules keeps_args keeps_exec keeps_exec_argv)

lemma keeps_sys_proc:
  "fview s = v \<Longrightarrow> keeps v (sys_getpid p s)" "fview s = v \<Longrightarrow> keeps v (sys_getppid p s)"
  "fview s = v \<Longrightarrow> keeps v (growproc env p n s)" "fview s = v \<Longrightarrow> keeps v (sys_sleep p s)"
  "fview s = v \<Longrightarrow> keeps v (sys_uptime s)" "fview s = v \<Longrightarrow> keeps v (sys_trace p s)" "fview s = v \<Longrightarrow> keeps v (sys_answer s)"
  "fview s = v \<Longrightarrow> keeps v (sys_pgcnt p s)"
  unfolding sys_getpid_def sys_getppid_def growproc_def sys_sleep_def sleep_pass_def sys_uptime_def sys_trace_def
    sys_answer_def sys_pgcnt_def
  by (auto simp: Let_def intro!: keeps_rules keeps_args)

lemma keeps_sys_sbrk: "fview s = v \<Longrightarrow> keeps v (sys_sbrk env p s)"
  unfolding sys_sbrk_def by (auto simp: Let_def intro!: keeps_rules keeps_args keeps_sys_proc)

lemma keeps_sys_kill: "fview s = v \<Longrightarrow> keeps v (sys_kill p s)"
proof -
  have "fview (t\<lparr>ks_pt := u\<rparr>) = fview t" if "kill pid (ks_pt t) = (r, u)" for t u pid r
    by (rule fview_eqI) (use that in \<open>auto simp: kill_def idle_def split: option.splits if_splits\<close>)
  then show "fview s = v \<Longrightarrow> ?thesis" unfolding sys_kill_def by (auto intro!: keeps_rules keeps_args)
qed

subsection \<open>Counting descriptors\<close>

definition frefs :: "(nat \<Rightarrow> nat option list) \<Rightarrow> nat \<Rightarrow> nat" where
  "frefs o1 f = card {(p, fd). p < NPROC \<and> fd < NOFILE \<and> o1 p ! fd = Some f}"

text \<open>
  The counts are right when \<open>X f\<close> references to \<open>f\<close> are held outside the descriptor tables; the slots
  \<open>N\<close> are being set up.
\<close>

definition refs_x :: "nat set \<Rightarrow> (nat \<Rightarrow> int) \<Rightarrow> fview \<Rightarrow> bool" where
  "refs_x N X v = (case v of (r, o1, d) \<Rightarrow>
     (\<forall>f<NFILE. r f = int (frefs o1 f) + X f) \<and>
     (\<forall>p<NPROC. length (o1 p) = NOFILE \<and> (\<forall>fd<NOFILE. \<forall>f. o1 p ! fd = Some f \<longrightarrow> f < NFILE) \<and>
        (d p \<and> p \<notin> N \<longrightarrow> o1 p = replicate NOFILE None)))"

lemma frefs_upd:
  assumes "p < NPROC" and "fd < NOFILE" and "length (o1 p) = NOFILE"
  shows "int (frefs (o1(p := (o1 p)[fd := w])) f) = int (frefs o1 f) - of_bool (o1 p ! fd = Some f) + of_bool (w = Some f)"
proof -
  let ?A = "{(q, e). q < NPROC \<and> e < NOFILE \<and> o1 q ! e = Some f}"
  let ?B = "{(q, e). q < NPROC \<and> e < NOFILE \<and> (o1(p := (o1 p)[fd := w])) q ! e = Some f}"
  have fin: "finite ?A" by (rule finite_subset [of _ "{..<NPROC} \<times> {..<NOFILE}"]) auto
  have B: "?B = (?A - {(p, fd)}) \<union> (if w = Some f then {(p, fd)} else {})"
    using assms by (auto simp: nth_list_update split: if_splits)
  have "int (card ?B) = int (card (?A - {(p, fd)})) + of_bool (w = Some f)"
    unfolding B using fin by (cases "w = Some f") (simp_all add: card.insert_remove)
  also have "int (card (?A - {(p, fd)})) = int (card ?A) - of_bool (o1 p ! fd = Some f)"
  proof (cases "o1 p ! fd = Some f")
    case True
    then have m: "(p, fd) \<in> ?A" using assms by simp
    then have "0 < card ?A" using fin card_gt_0_iff by blast
    then show ?thesis using m True fin by (simp add: card_Diff_singleton of_nat_diff)
  next
    case False
    then have "?A - {(p, fd)} = ?A" by auto
    then show ?thesis using False by simp
  qed
  finally show ?thesis by (simp add: frefs_def)
qed

lemma refs_slot:
  assumes "refs_x N X (r, o1, d)" and "p < NPROC" and "fd < NOFILE" and "\<not> d p \<or> p \<in> N" and "\<And>f. w = Some f \<Longrightarrow> f < NFILE"
  shows "refs_x N (\<lambda>f. X f + of_bool (o1 p ! fd = Some f) - of_bool (w = Some f)) (r, o1(p := (o1 p)[fd := w]), d)"
proof -
  have l: "length (o1 p) = NOFILE" using assms(1,2) by (simp add: refs_x_def)
  show ?thesis using assms frefs_upd [of p fd o1 w, OF assms(2,3) l]
    by (auto simp: refs_x_def nth_list_update split: if_splits)
qed

lemma refs_count:
  assumes "refs_x N X (r, o1, d)"
  shows "refs_x N (X(f := X f + k)) (r(f := r f + k), o1, d)"
  using assms by (auto simp: refs_x_def)

lemma refs_cong: "refs_x N X v \<Longrightarrow> (\<And>f. X f = Y f) \<Longrightarrow> refs_x N Y v"
  by (simp add: refs_x_def split: prod.splits)

subsection \<open>The routines that count\<close>

definition add_ref :: "nat \<Rightarrow> int \<Rightarrow> fview \<Rightarrow> fview" where
  "add_ref f k v = (case v of (r, o1, d) \<Rightarrow> (r(f := r f + k), o1, d))"

definition set_fd :: "nat \<Rightarrow> nat \<Rightarrow> nat option \<Rightarrow> fview \<Rightarrow> fview" where
  "set_fd p fd w v = (case v of (r, o1, d) \<Rightarrow> (r, o1(p := (o1 p)[fd := w]), d))"

lemma refs_add_ref: "refs_x N X v \<Longrightarrow> refs_x N (\<lambda>g. X g + (if g = f then k else 0)) (add_ref f k v)"
proof -
  assume "refs_x N X v"
  moreover obtain r o1 d where "v = (r, o1, d)" by (cases v) auto
  moreover have "(\<lambda>g. X g + (if g = f then k else 0)) = X(f := X f + k)" by auto
  ultimately show ?thesis using refs_count by (simp add: add_ref_def)
qed

lemma refs_set_fd:
  assumes "refs_x N X v" and "p < NPROC" and "fd < NOFILE" and "\<not> snd (snd v) p \<or> p \<in> N" and "\<And>f. w = Some f \<Longrightarrow> f < NFILE"
  shows "refs_x N (\<lambda>f. X f + of_bool (fst (snd v) p ! fd = Some f) - of_bool (w = Some f)) (set_fd p fd w v)"
  using assms refs_slot by (cases v) (simp add: set_fd_def)

lemma fview_set_ref: "fview (set_file f x s) = add_ref f (f_ref x - f_ref (ks_file s f)) (fview s)"
  by (auto simp: fview_def add_ref_def fun_eq_iff)

lemma fview_set_fd: "fview (upd_kproc p (\<lambda>q. q\<lparr>p_ofile := (p_ofile q)[fd := w]\<rparr>) s) = set_fd p fd w (fview s)"
  by (auto simp: fview_def set_fd_def fun_eq_iff)

lemma view_filealloc: "filealloc s = (Some f, t) \<Longrightarrow> f < NFILE \<and> fview t = add_ref f 1 (fview s)"
  by (auto simp: filealloc_def find_upt_Some fview_set_ref split: option.splits)

lemma view_filealloc_None: "filealloc s = (None, t) \<Longrightarrow> t = s"
  by (auto simp: filealloc_def split: option.splits)

lemma view_filedup: "filedup f s = Ret a t \<Longrightarrow> a = f \<and> fview t = add_ref f 1 (fview s)"
  by (auto simp: filedup_def fview_set_ref split: if_splits)

lemma view_fileclose:
  assumes "fileclose env p f s = Ret a t"
  shows "fview t = add_ref f (-1) (fview s)"
proof -
  let ?x = "ks_file s f"
  consider "1 < f_ref ?x" | "f_ref ?x = 1" using assms by (fastforce simp: fileclose_def Let_def split: if_splits)
  then show ?thesis
  proof cases
    case 1
    then show ?thesis using assms by (auto simp: fileclose_def Let_def fview_set_ref)
  next
    case 2
    let ?s = "set_file f (?x\<lparr>f_ref := 0, f_type := FD_NONE\<rparr>) s"
    have "fview ?s = add_ref f (-1) (fview s)" using 2 by (simp add: fview_set_ref)
    then have "keeps (add_ref f (-1) (fview s)) (fileclose env p f s)"
      using 2 by (auto simp: fileclose_def Let_def intro!: keeps_rules keeps_pipes split: fdtype.splits)
    then show ?thesis using assms by (simp add: keeps_def)
  qed
qed

lemma view_fdalloc:
  "fdalloc p f s = (Some fd, t) \<Longrightarrow> fd < NOFILE \<and> p_ofile (kproc s p) ! fd = None \<and> fview t = set_fd p fd (Some f) (fview s)"
  "fdalloc p f s = (None, t) \<Longrightarrow> t = s"
  by (auto simp: fdalloc_def find_upt_Some fview_set_fd split: option.splits)

abbreviation no_refs :: "nat \<Rightarrow> int" where
  "no_refs \<equiv> \<lambda>_. 0"

definition refs_ok :: "kstate \<Rightarrow> bool" where
  "refs_ok s \<longleftrightarrow> refs_x {} no_refs (fview s)"

lemma keepsD: "m = Ret a t \<Longrightarrow> keeps v m \<Longrightarrow> fview t = v"
  by (simp add: keeps_def)

lemma argfd_Some:
  assumes "argfd p n s = Ret (Some (fd, f)) t"
  shows "fd < NOFILE" and "p_ofile (kproc t p) ! fd = Some f" and "fview t = fview s"
proof -
  show "fview t = fview s" using keepsD [OF assms keeps_args(5)] by simp
  obtain w u where u: "argint p n s = Ret w u"
      "(case w of None \<Rightarrow> Ret None u | Some w \<Rightarrow> let fd = sint w in
         if fd < 0 \<or> int NOFILE \<le> fd then Ret None u
         else case p_ofile (kproc u p) ! nat fd of None \<Rightarrow> Ret None u | Some f \<Rightarrow> Ret (Some (nat fd, f)) u) = Ret (Some (fd, f)) t"
    using assms unfolding argfd_def by (rule obind_RetE) blast
  then obtain x where x: "w = Some x" by (cases w) auto
  then have r: "\<not> (sint x < 0 \<or> int NOFILE \<le> sint x)" using u(2) by (auto simp: Let_def)
  then obtain g where "p_ofile (kproc u p) ! nat (sint x) = Some g"
    using u(2) x by (cases "p_ofile (kproc u p) ! nat (sint x)") (auto simp: Let_def)
  then show "fd < NOFILE" "p_ofile (kproc t p) ! fd = Some f" using u(2) x r by (auto simp: Let_def)
qed

lemma refs_okD:
  assumes "refs_x N X (fview s)" and "p < NPROC"
  shows "fd < NOFILE \<Longrightarrow> p_ofile (kproc s p) ! fd = Some f \<Longrightarrow> f < NFILE" and "length (p_ofile (kproc s p)) = NOFILE"
    and "idle (pstate (ks_pt s) p) \<Longrightarrow> p \<notin> N \<Longrightarrow> p_ofile (kproc s p) = replicate NOFILE None"
  using assms by (auto simp: refs_x_def fview_def)

lemma view_idle [simp]:
  "snd (snd (fview s)) p = idle (pstate (ks_pt s) p)" "fst (snd (fview s)) p = p_ofile (kproc s p)"
  "snd (snd (add_ref f k v)) = snd (snd v)" "snd (snd (set_fd q fd w v)) = snd (snd v)"
  "fst (snd (add_ref f k v)) = fst (snd v)"
  by (simp_all add: fview_def add_ref_def set_fd_def split: prod.splits)

text \<open>Storing a held reference in a free descriptor, and taking one out of a descriptor.\<close>

lemma refs_give:
  assumes "refs_x N X v" and "p < NPROC" and "fd < NOFILE" and "\<not> snd (snd v) p \<or> p \<in> N" and "f < NFILE"
    and "fst (snd v) p ! fd = None"
  shows "refs_x N (\<lambda>g. X g - (if g = f then 1 else 0)) (set_fd p fd (Some f) v)"
  by (rule refs_cong [OF refs_set_fd [OF assms(1-4)]]) (use assms(5,6) in auto)

lemma refs_take:
  assumes "refs_x N X v" and "p < NPROC" and "fd < NOFILE" and "\<not> snd (snd v) p \<or> p \<in> N" and "fst (snd v) p ! fd = Some f"
  shows "refs_x N (\<lambda>g. X g + (if g = f then 1 else 0)) (set_fd p fd None v)"
  by (rule refs_cong [OF refs_set_fd [OF assms(1-4)]]) (use assms(5) in auto)

lemma refs_fdalloc:
  assumes "refs_x {} X (fview s)" and "p < NPROC" and "\<not> idle (pstate (ks_pt s) p)" and "f < NFILE"
    and "fdalloc p f s = (Some fd, t)"
  shows "refs_x {} (\<lambda>g. X g - (if g = f then 1 else 0)) (fview t)"
proof -
  note F = view_fdalloc(1) [OF assms(5)]
  show ?thesis unfolding F [THEN conjunct2, THEN conjunct2]
    by (rule refs_give [OF assms(1,2)]) (use F assms(3,4) in simp_all)
qed

lemma refs_sys_dup:
  assumes "refs_ok s" and "p < NPROC" and "\<not> idle (pstate (ks_pt s) p)" and "sys_dup p s = Ret r t"
  shows "refs_ok t"
proof -
  obtain a u where u: "argfd p 0 s = Ret a u"
      "(case a of None \<Rightarrow> Ret (-1) u | Some (_, f) \<Rightarrow> (case fdalloc p f u of (None, s) \<Rightarrow> Ret (-1) s
         | (Some fd, s) \<Rightarrow> obind (filedup f s) (\<lambda>_ s. Ret (int fd) s))) = Ret r t"
    using assms(4) unfolding sys_dup_def by (rule obind_RetE) blast
  have vu: "fview u = fview s" using keepsD [OF u(1) keeps_args(5)] by simp
  then have iu: "\<not> idle (pstate (ks_pt u) p)" using assms(3) view_idle(1) by metis
  show ?thesis
  proof (cases a)
    case None
    then show ?thesis using u(2) vu assms(1) by (auto simp: refs_ok_def)
  next
    case (Some b)
    then obtain d f where b: "a = Some (d, f)" by (cases b) auto
    note A = argfd_Some [OF u(1) [unfolded b]]
    have R: "refs_x {} no_refs (fview u)" using assms(1) vu by (simp add: refs_ok_def)
    have f: "f < NFILE" using refs_okD(1) [OF R assms(2) A(1,2)] .
    obtain fd w where w: "fdalloc p f u = (fd, w)" by fastforce
    show ?thesis
    proof (cases fd)
      case None
      then show ?thesis using u(2) b w view_fdalloc(2) [of p f u w] R by (auto simp: refs_ok_def)
    next
      case (Some e)
      note F = view_fdalloc(1) [OF w [unfolded Some]]
      obtain g where g: "filedup f w = Ret g t" using u(2) b w Some by (auto simp: obind_Ret_iff)
      have "refs_x {} (\<lambda>g. 0 - (if g = f then 1 else 0)) (fview w)"
        using refs_fdalloc [OF R assms(2) iu f w [unfolded Some]] .
      from refs_add_ref [OF this, of f 1] show ?thesis
        unfolding refs_ok_def view_filedup [OF g, THEN conjunct2, symmetric] by (rule refs_cong) simp
    qed
  qed
qed

lemma refs_sys_close:
  assumes "refs_ok s" and "p < NPROC" and "\<not> idle (pstate (ks_pt s) p)" and "sys_close env p s = Ret r t"
  shows "refs_ok t"
proof -
  obtain a u where u: "argfd p 0 s = Ret a u"
      "(case a of None \<Rightarrow> Ret (-1) u | Some (fd, f) \<Rightarrow>
         obind (fileclose env p f (upd_kproc p (\<lambda>q. q\<lparr>p_ofile := (p_ofile q)[fd := None]\<rparr>) u)) (\<lambda>_ s. Ret 0 s)) = Ret r t"
    using assms(4) unfolding sys_close_def by (rule obind_RetE) blast
  have vu: "fview u = fview s" using keepsD [OF u(1) keeps_args(5)] by simp
  then have iu: "\<not> idle (pstate (ks_pt u) p)" using assms(3) view_idle(1) by metis
  show ?thesis
  proof (cases a)
    case None
    then show ?thesis using u(2) vu assms(1) by (auto simp: refs_ok_def)
  next
    case (Some b)
    then obtain d f where b: "a = Some (d, f)" by (cases b) auto
    note A = argfd_Some [OF u(1) [unfolded b]]
    have R: "refs_x {} no_refs (fview u)" using assms(1) vu by (simp add: refs_ok_def)
    let ?w = "upd_kproc p (\<lambda>q. q\<lparr>p_ofile := (p_ofile q)[d := None]\<rparr>) u"
    obtain x where x: "fileclose env p f ?w = Ret x t" using u(2) b by (auto simp: obind_Ret_iff)
    have "refs_x {} (\<lambda>g. 0 + (if g = f then 1 else 0)) (fview ?w)"
      unfolding fview_set_fd using refs_take [OF R assms(2) A(1)] A(2) iu by simp
    from refs_add_ref [OF this, of f "-1"] show ?thesis
      unfolding refs_ok_def view_fileclose [OF x, symmetric] by (rule refs_cong) simp
  qed
qed

lemma add_ref_0 [simp]: "add_ref f 0 v = v"
  by (cases v) (simp add: add_ref_def)

lemma add_ref_add [simp]: "add_ref f j (add_ref f k v) = add_ref f (k + j) v"
  by (cases v) (simp add: add_ref_def add.assoc)

lemma add_ref_swap: "add_ref f j (add_ref g k v) = add_ref g k (add_ref f j v)"
  by (cases v) (auto simp: add_ref_def fun_eq_iff)

lemma f_ref_kept [simp]: "f_ref (pipe_file w a x) = f_ref x" "f_ref (open_file om ip x) = f_ref x"
  by (simp_all add: pipe_file_def open_file_def)

lemma view_pipealloc:
  assumes "pipealloc env p s = Ret r t"
  shows "case r of None \<Rightarrow> fview t = fview s
    | Some (a, b) \<Rightarrow> a < NFILE \<and> b < NFILE \<and> fview t = add_ref b 1 (add_ref a 1 (fview s))"
proof -
  obtain f0 s1 where 1: "filealloc s = (f0, s1)" by fastforce
  show ?thesis
  proof (cases f0)
    case None
    then show ?thesis using assms 1 view_filealloc_None by (auto simp: pipealloc_def)
  next
    case (Some a)
    note A = view_filealloc [OF 1 [unfolded Some]]
    obtain f1 s2 where 2: "filealloc s1 = (f1, s2)" by fastforce
    show ?thesis
    proof (cases f1)
      case None
      then have s2: "s2 = s1" using view_filealloc_None 2 by simp
      have r: "r = None" "\<exists>x. fileclose env p a (s1\<lparr>ks_mem := ks_mem s1\<rparr>) = Ret x t"
        using assms 1 2 Some None s2 by (auto simp: pipealloc_def obind_Ret_iff)
      then show ?thesis using view_fileclose A by fastforce
    next
      case (Some b)
      note B = view_filealloc [OF 2 [unfolded Some]]
      obtain k m where k: "kalloc (ks_mem s2) = (k, m)" by fastforce
      let ?s = "s2\<lparr>ks_mem := m\<rparr>"
      have v: "fview ?s = add_ref b 1 (add_ref a 1 (fview s))" using A B by simp
      show ?thesis
      proof (cases "k = 0")
        case True
        then obtain x u y where "fileclose env p a ?s = Ret x u" "fileclose env p b u = Ret y t" "r = None"
          using assms 1 2 \<open>f0 = Some a\<close> Some k by (auto simp: pipealloc_def obind_Ret_iff)
        then show ?thesis using view_fileclose v by (auto simp: add_ref_swap [of a "-1" b])
      next
        case False
        then have "r = Some (a, b)" "fview t = fview ?s"
          using assms 1 2 \<open>f0 = Some a\<close> Some k by (auto simp: pipealloc_def Let_def)
        then show ?thesis using v A B by simp
      qed
    qed
  qed
qed

text \<open>The outcome of a routine satisfies \<open>Q\<close> if it returns.\<close>

definition yields :: "('a \<Rightarrow> kstate \<Rightarrow> bool) \<Rightarrow> ('a, kstate) outcome \<Rightarrow> bool" where
  "yields Q m \<longleftrightarrow> (\<forall>a s. m = Ret a s \<longrightarrow> Q a s)"

lemma yields_basic [simp]: "yields Q (Ret a s) \<longleftrightarrow> Q a s" "yields Q (Panic e)" "yields Q (Sleep c s)" "yields Q kfault"
  by (auto simp: yields_def kfault_def)

lemma yields_bind: "yields P m \<Longrightarrow> (\<And>a s. P a s \<Longrightarrow> yields Q (f a s)) \<Longrightarrow> yields Q (obind m f)"
  by (cases m) (auto simp: yields_def)

lemma keeps_yields: "keeps v m \<longleftrightarrow> yields (\<lambda>_ s. fview s = v) m"
  by (simp add: keeps_def yields_def)

lemma yields_keep: "keeps v m \<Longrightarrow> (\<And>a s. fview s = v \<Longrightarrow> yields Q (f a s)) \<Longrightarrow> yields Q (obind m f)"
  unfolding keeps_yields by (rule yields_bind)

lemma yields_close:
  "(\<And>a t. fview t = add_ref f (-1) (fview s) \<Longrightarrow> yields Q (g a t)) \<Longrightarrow> yields Q (obind (fileclose env p f s) g)"
  by (rule yields_bind [of "\<lambda>_ t. fview t = add_ref f (-1) (fview s)"]) (auto simp: yields_def dest: view_fileclose)

lemma yields_option:
  "(z = None \<Longrightarrow> yields Q x) \<Longrightarrow> (\<And>a. z = Some a \<Longrightarrow> yields Q (y a)) \<Longrightarrow> yields Q (case z of None \<Rightarrow> x | Some a \<Rightarrow> y a)"
  by (cases z) auto

lemma refs_ok_view: "refs_x {} X (fview s) \<Longrightarrow> (\<And>f. X f = 0) \<Longrightarrow> refs_ok s"
  unfolding refs_ok_def by (rule refs_cong)

text \<open>A new file: the reference from \<open>filealloc\<close> goes into a descriptor or is given back.\<close>

lemma refs_open_fd:
  assumes "refs_x {} no_refs v" and "fview s = v" and "p < NPROC" and "\<not> snd (snd v) p"
  shows "yields (\<lambda>_ t. refs_ok t) (open_fd env p omode ip s)"
proof -
  have same: "yields (\<lambda>_ t. refs_ok t) m" if "keeps v m" for m :: "(int, kstate) outcome"
    using that assms(1) by (auto simp: keeps_yields yields_def refs_ok_def)
  obtain fo s1 where 1: "filealloc s = (fo, s1)" by fastforce
  show ?thesis
  proof (cases fo)
    case None
    then have "s1 = s" using 1 view_filealloc_None by simp
    then show ?thesis using 1 None assms(2) by (auto simp: open_fd_def intro!: same keeps_rules)
  next
    case (Some f)
    note A = view_filealloc [OF 1 [unfolded Some]]
    obtain fd s2 where 2: "fdalloc p f s1 = (fd, s2)" by fastforce
    show ?thesis
    proof (cases fd)
      case None
      then have "s2 = s1" using 2 view_fdalloc(2) by simp
      then have v: "fview t = v" if "fview t = add_ref f (-1) (fview s2)" for t using that A assms(2) by simp
      have "open_fd env p omode ip s = obind (fileclose env p f s2) (\<lambda>_ s. obind (fsop p (\<lambda>me. iunlockput me ip) s) (\<lambda>_ s.
          obind (kend_op p s) (\<lambda>_ s. Ret (-1) s)))"
        using 1 2 Some None by (simp add: open_fd_def)
      moreover have "yields (\<lambda>_ t. refs_ok t) \<dots>"
      proof (rule yields_close, rule same)
        fix a t
        assume "fview t = add_ref f (-1) (fview s2)"
        then have "fview t = v" by (rule v)
        then show "keeps v (obind (fsop p (\<lambda>me. iunlockput me ip) t) (\<lambda>_ s. obind (kend_op p s) (\<lambda>_ s. Ret (-1 :: int) s)))"
          by (intro keeps_rules) simp_all
      qed
      ultimately show ?thesis by simp
    next
      case (Some e)
      note F = view_fdalloc(1) [OF 2 [unfolded Some]]
      have R: "refs_x {} (\<lambda>g. 0 + (if g = f then 1 else 0)) (fview s1)" using refs_add_ref [OF assms(1)] A assms(2) by simp
      have i: "\<not> idle (pstate (ks_pt s1) p)" using A assms(2,4) by (metis view_idle(1,3))
      have S: "refs_x {} (\<lambda>g. 0 + (if g = f then 1 else 0) - (if g = f then 1 else 0)) (fview s2)"
        using refs_fdalloc [OF R assms(3) i _ 2 [unfolded Some]] A by blast
      have ok: "refs_ok t" if "fview t = fview s2" for t
        by (rule refs_ok_view [OF S [folded that]]) simp
      have "keeps (fview s2) (open_fd env p omode ip s)" using 1 2 \<open>fo = Some f\<close> Some
        by (auto simp: open_fd_def intro!: keeps_rules)
      then show ?thesis using ok by (auto simp: keeps_yields yields_def)
    qed
  qed
qed

lemma refs_sys_open:
  assumes "refs_x {} no_refs v" and "fview s = v" and "p < NPROC" and "\<not> snd (snd v) p"
  shows "yields (\<lambda>_ t. refs_ok t) (sys_open env p s)"
proof -
  have k: "refs_ok t" if "fview t = v" for t using that assms(1) by (simp add: refs_ok_def)
  have ok: "yields (\<lambda>_ t. refs_ok t) (Ret x t :: (int, kstate) outcome)" if "fview t = v" for x t using k that by simp
  show ?thesis unfolding sys_open_def
    by (rule yields_keep [OF keeps_args(4) [OF assms(2)]], rule yields_option, rule ok, assumption,
        rule yields_keep [OF keeps_args(2)], assumption, rule yields_option, rule ok, assumption,
        rule yields_keep [OF keeps_lift(4)], assumption, rule yields_keep [OF keeps_open_inode], assumption,
        rule yields_option, rule ok, assumption, rule refs_open_fd [OF assms(1) _ assms(3,4)])
qed

lemma refs_pipe_fds:
  assumes "refs_x {} no_refs v" and "fview s = add_ref w 1 (add_ref r 1 v)" and "p < NPROC" and "\<not> snd (snd v) p"
    and "r < NFILE" and "w < NFILE"
  shows "yields (\<lambda>_ t. refs_ok t) (pipe_fds env p a r w s)"
proof -
  have i: "\<not> idle (pstate (ks_pt s) p)" using assms(2,4) by (metis view_idle(1,3))
  have R: "refs_x {} (\<lambda>g. 0 + (if g = r then 1 else 0) + (if g = w then 1 else 0)) (fview s)"
    unfolding assms(2) by (intro refs_add_ref assms(1))
  have bad: "yields (\<lambda>_ t. refs_ok t) (obind (fileclose env p r u) (\<lambda>_ u. obind (fileclose env p w u) (\<lambda>_ u. Ret (-1 :: int) u)))"
    if "fview u = fview s" for u
  proof (intro yields_close)
    fix t x t' y
    assume "fview t = add_ref r (-1) (fview u)" "fview t' = add_ref w (-1) (fview t)"
    then have "fview t' = v" using that assms(2) by (simp add: add_ref_swap [of r "-1" w])
    then show "yields (\<lambda>_ t. refs_ok t) (Ret (-1 :: int) t')" using assms(1) by (simp add: refs_ok_def)
  qed
  obtain f0 s1 where 1: "fdalloc p r s = (f0, s1)" by fastforce
  show ?thesis
  proof (cases f0)
    case None
    then have "s1 = s" using 1 view_fdalloc(2) by simp
    then show ?thesis using bad [of s] 1 None by (simp add: pipe_fds_def Let_def)
  next
    case (Some d)
    note F = view_fdalloc(1) [OF 1 [unfolded Some]]
    have R1: "refs_x {} (\<lambda>g. 0 + (if g = r then 1 else 0) + (if g = w then 1 else 0) - (if g = r then 1 else 0)) (fview s1)"
      using refs_fdalloc [OF R assms(3) i assms(5) 1 [unfolded Some]] .
    have i1: "\<not> idle (pstate (ks_pt s1) p)" using F i by (metis view_idle(1,4))
    obtain f1 s2 where 2: "fdalloc p w s1 = (f1, s2)" by fastforce
    show ?thesis
    proof (cases f1)
      case None
      then have s2: "s2 = s1" using 2 view_fdalloc(2) by simp
      have l: "length (p_ofile (kproc s p)) = NOFILE" using refs_okD(2) [OF R assms(3)] .
      have "fview (upd_kproc p (\<lambda>q. q\<lparr>p_ofile := (p_ofile q)[d := None]\<rparr>) s1) = fview s"
        unfolding fview_set_fd using F l
        by (auto simp: set_fd_def fview_def fun_eq_iff list_update_same_conv split: prod.splits)
      then show ?thesis using bad 1 2 None Some s2 by (simp add: pipe_fds_def Let_def)
    next
      case (Some e)
      note G = view_fdalloc(1) [OF 2 [unfolded Some]]
      have S: "refs_x {} (\<lambda>g. 0 + (if g = r then 1 else 0) + (if g = w then 1 else 0) - (if g = r then 1 else 0) - (if g = w then 1 else 0)) (fview s2)"
        using refs_fdalloc [OF R1 assms(3) i1 assms(6) 2 [unfolded Some]] .
      have ok: "refs_ok t" if "fview t = fview s2" for t
        by (rule refs_ok_view [OF S [folded that]]) simp
      have "keeps (fview s2) (pipe_fds env p a r w s)" using 1 2 \<open>f0 = Some d\<close> Some
        by (auto simp: pipe_fds_def Let_def intro!: keeps_rules keeps_uputs)
      then show ?thesis using ok by (auto simp: keeps_yields yields_def)
    qed
  qed
qed

lemma refs_sys_pipe:
  assumes "refs_x {} no_refs v" and "fview s = v" and "p < NPROC" and "\<not> snd (snd v) p"
  shows "yields (\<lambda>_ t. refs_ok t) (sys_pipe env p s)"
proof -
  have k: "refs_ok t" if "fview t = v" for t using that assms(1) by (simp add: refs_ok_def)
  have P: "yields (\<lambda>r t. case r of None \<Rightarrow> fview t = v | Some (a, b) \<Rightarrow> a < NFILE \<and> b < NFILE \<and> fview t = add_ref b 1 (add_ref a 1 v))
      (pipealloc env p u)" if "fview u = v" for u
    using view_pipealloc that by (fastforce simp: yields_def)
  have ok: "yields (\<lambda>_ t. refs_ok t) (Ret x t :: (int, kstate) outcome)" if "fview t = v" for x t using k that by simp
  show ?thesis unfolding sys_pipe_def
  proof (rule yields_keep [OF keeps_args(3) [OF assms(2)]], rule yields_option, rule ok, assumption, rule yields_bind [OF P], assumption)
    fix a0 s0 a r t
    assume "case r of None \<Rightarrow> fview t = v | Some (a, b) \<Rightarrow> a < NFILE \<and> b < NFILE \<and> fview t = add_ref b 1 (add_ref a 1 v)"
    then show "yields (\<lambda>_ t. refs_ok t) (case r of None \<Rightarrow> Ret (-1) t | Some (rf, wrf) \<Rightarrow> pipe_fds env p a rf wrf t)"
      using ok refs_pipe_fds [OF assms(1) _ assms(3,4)] by (auto split: option.splits)
  qed
qed

subsection \<open>Making and ending processes\<close>

lemma yields_ofor:
  assumes "\<And>j t. i \<le> j \<Longrightarrow> j < n \<Longrightarrow> P j t \<Longrightarrow> yields (\<lambda>_ u. P (Suc j) u) (f j t)" and "P i s" and "i \<le> n"
  shows "yields (\<lambda>_ t. P n t) (ofor [i..<n] f s)"
  using assms
proof (induction "n - i" arbitrary: i s)
  case 0
  then show ?case by simp
next
  case (Suc k)
  then have "i < n" by simp
  then have "[i..<n] = i # [Suc i..<n]" by (simp add: upt_conv_Cons)
  moreover have "yields (\<lambda>_ t. P n t) (obind (f i s) (\<lambda>_ s. ofor [Suc i..<n] f s))"
  proof (rule yields_bind [of "\<lambda>_ u. P (Suc i) u"])
    show "yields (\<lambda>_ u. P (Suc i) u) (f i s)" using Suc.prems(1,2) \<open>i < n\<close> by simp
    show "yields (\<lambda>_ t. P n t) (ofor [Suc i..<n] f u)" if "P (Suc i) u" for u
      using Suc.hyps(1) [of "Suc i" u] Suc.hyps(2) Suc.prems(1) that \<open>i < n\<close> by simp
  qed
  ultimately show ?case by simp
qed

lemma fview_idle_proc:
  assumes "\<And>q. p_ofile (g q) = p_ofile q" and "idle (p_state (g (kproc s i))) = idle (pstate (ks_pt s) i)"
  shows "fview (upd_kproc i g s) = fview s"
  by (rule fview_eqI) (use assms in auto)

lemma view_allocproc:
  assumes "allocproc env s = (r, t)"
  shows "fview t = fview s" and "r = Some i \<Longrightarrow> i < NPROC \<and> idle (pstate (ks_pt t) i)"
proof -
  show "fview t = fview s"
  proof (cases "alloc_slot (ks_pt s)")
    case None
    then show ?thesis using assms by (simp add: allocproc_def)
  next
    case (Some x)
    then obtain j u where x: "alloc_slot (ks_pt s) = Some (j, u)" by (cases x) auto
    note a = alloc_slot_Some [OF x]
    show ?thesis using assms x a
      by (intro fview_eqI) (auto simp: allocproc_def Let_def idle_def split: prod.splits if_splits)
  qed
  show "i < NPROC \<and> idle (pstate (ks_pt t) i)" if "r = Some i"
    using assms that alloc_slot_Some [of "ks_pt s" i]
    by (auto simp: allocproc_def Let_def idle_def split: prod.splits if_splits option.splits)
qed

lemma refs_awake:
  assumes "refs_x {np} X (fview s)"
  shows "refs_x {} X (fview (upd_pt (set_runnable np) s))"
proof -
  have o1: "(\<lambda>p. p_ofile (kproc (upd_pt (set_runnable np) s) p)) = (\<lambda>p. p_ofile (kproc s p))"
    by (auto simp: set_runnable_def fun_eq_iff)
  show ?thesis using assms unfolding refs_x_def fview_def o1 by (auto simp: set_runnable_def idle_def split: if_splits)
qed

definition forking :: "nat \<Rightarrow> nat \<Rightarrow> nat \<Rightarrow> kstate \<Rightarrow> bool" where
  "forking p np i s \<longleftrightarrow> refs_x {np} no_refs (fview s) \<and> idle (pstate (ks_pt s) np) \<and> \<not> idle (pstate (ks_pt s) p) \<and>
     (\<forall>j. i \<le> j \<and> j < NOFILE \<longrightarrow> p_ofile (kproc s np) ! j = None)"

lemma forking_view: "fview t = fview s \<Longrightarrow> forking p np i s \<Longrightarrow> forking p np i t"
  unfolding forking_def by (metis view_idle(1,2))

lemma refs_fork_file:
  assumes "forking p np i s" and "p < NPROC" and "np < NPROC" and "i < NOFILE"
  shows "yields (\<lambda>_ t. forking p np (Suc i) t) (fork_file p np i s)"
proof (cases "p_ofile (kproc s p) ! i")
  case None
  then show ?thesis using assms(1) by (auto simp: fork_file_def forking_def)
next
  case (Some f)
  have R: "refs_x {np} no_refs (fview s)" using assms(1) by (simp add: forking_def)
  have f: "f < NFILE" using refs_okD(1) [OF R assms(2,4) Some] .
  show ?thesis unfolding fork_file_def Some option.case
  proof (rule yields_bind [of "\<lambda>a t. a = f \<and> fview t = add_ref f 1 (fview s)"])
    show "yields (\<lambda>a t. a = f \<and> fview t = add_ref f 1 (fview s)) (filedup f s)"
      using view_filedup by (auto simp: yields_def)
    fix a t
    assume t: "a = f \<and> fview t = add_ref f 1 (fview s)"
    let ?u = "upd_kproc np (\<lambda>q. q\<lparr>p_ofile := (p_ofile q)[i := Some a]\<rparr>) t"
    have same: "idle (pstate (ks_pt t) q) = idle (pstate (ks_pt s) q)" "p_ofile (kproc t q) = p_ofile (kproc s q)" for q
      using t by (metis view_idle(1,3), metis view_idle(2,5))
    have A: "refs_x {np} (\<lambda>g. 0 + (if g = f then 1 else 0)) (fview t)"
      using refs_add_ref [OF R, of f 1] t by simp
    have "refs_x {np} (\<lambda>g. 0 + (if g = f then 1 else 0) - (if g = f then 1 else 0)) (set_fd np i (Some f) (fview t))"
      by (rule refs_give [OF A assms(3,4)]) (use f same assms(1,4) in \<open>simp_all add: forking_def\<close>)
    then have "refs_x {np} no_refs (set_fd np i (Some f) (fview t))" by (rule refs_cong) simp
    then have "refs_x {np} no_refs (fview ?u)" using t by (simp add: fview_set_fd)
    then have "forking p np (Suc i) ?u"
      using assms(1) same by (auto simp: forking_def nth_list_update)
    then show "yields (\<lambda>_ t. forking p np (Suc i) t) (Ret () ?u)" by simp
  qed
qed

lemma refs_fork:
  assumes "refs_ok s" and "p < NPROC" and "\<not> idle (pstate (ks_pt s) p)"
  shows "yields (\<lambda>_ t. refs_ok t) (fork env p s)"
proof -
  define v where "v = fview s"
  have ok: "refs_ok t" if "fview t = v" for t using assms(1) that by (simp add: refs_ok_def v_def)
  obtain r t where a: "allocproc env s = (r, t)" by fastforce
  note V = view_allocproc [OF a, folded v_def]
  show ?thesis
  proof (cases r)
    case None
    then show ?thesis using a V(1) ok by (simp add: fork_def)
  next
    case (Some np)
    note np = V(2) [OF Some]
    have idle_np: "idle (pstate (ks_pt u) np)" and idle_p: "\<not> idle (pstate (ks_pt u) p)" if "fview u = v" for u
      using that V(1) np assms(3) v_def by (metis view_idle(1))+
    have rest: "yields (\<lambda>_ t. refs_ok t) (fork_rest p np u)" if u: "fview u = v" for u
    proof -
      let ?w = "upd_kproc np (\<lambda>q. q\<lparr>p_sz := p_sz (kproc u p), p_parent := Some p, p_tf := (p_tf (kproc u p))\<lparr>tf_eax := 0\<rparr>\<rparr>) u"
      have w: "fview ?w = v" using u by simp
      have R: "refs_x {} no_refs (fview ?w)" using ok [OF w] by (simp add: refs_ok_def)
      have "refs_x {np} no_refs (fview ?w)" using R by (auto simp: refs_x_def split: prod.splits)
      moreover have "p_ofile (kproc ?w np) = replicate NOFILE None"
        using refs_okD(3) [OF R np [THEN conjunct1] idle_np [OF w]] by blast
      ultimately have F: "forking p np 0 ?w" using idle_np [OF w] idle_p [OF w] by (simp add: forking_def)
      have L: "yields (\<lambda>_ t. forking p np NOFILE t) (ofor [0..<NOFILE] (fork_file p np) ?w)"
        by (rule yields_ofor [where P = "forking p np"]) (use F refs_fork_file assms(2) np in auto)
      show ?thesis unfolding fork_rest_def Let_def
      proof (rule yields_bind [OF L])
        fix a1 x
        assume x: "forking p np NOFILE x"
        show "yields (\<lambda>_ t. refs_ok t) (case p_cwd (kproc x p) of None \<Rightarrow> kfault | Some ip \<Rightarrow>
             obind (on_fs (idup ip) x) (\<lambda>ip s. Ret (pid_of (upd_kproc np (\<lambda>q. q\<lparr>p_cwd := Some ip,
                 p_name := set_name (p_name q) (p_name (kproc s p))\<rparr>) s) np)
               (upd_pt (set_runnable np) (upd_kproc np (\<lambda>q. q\<lparr>p_cwd := Some ip, p_name := set_name (p_name q) (p_name (kproc s p))\<rparr>) s))))"
        proof (rule yields_option, simp, rule yields_keep [OF keeps_lift(1) [OF refl]])
          fix ip0 ip y
          assume "fview y = fview x"
          then have "forking p np NOFILE (upd_kproc np (\<lambda>q. q\<lparr>p_cwd := Some ip, p_name := set_name (p_name q) (p_name (kproc y p))\<rparr>) y)"
            using forking_view [OF _ x] by simp
          then show "yields (\<lambda>_ t. refs_ok t) (Ret (pid_of (upd_kproc np (\<lambda>q. q\<lparr>p_cwd := Some ip,
                 p_name := set_name (p_name q) (p_name (kproc y p))\<rparr>) y) np)
               (upd_pt (set_runnable np) (upd_kproc np (\<lambda>q. q\<lparr>p_cwd := Some ip, p_name := set_name (p_name q) (p_name (kproc y p))\<rparr>) y)))"
            using refs_awake by (simp add: forking_def refs_ok_def)
        qed
      qed
    qed
    show ?thesis unfolding fork_def a prod.case Some option.case
    proof (rule yields_keep [OF keeps_lift(2) [OF V(1)]])
      fix d u
      assume u: "fview u = v"
      let ?w = "upd_kproc np (\<lambda>q. q\<lparr>p_pgdir := d\<rparr>) u"
      have w: "fview ?w = v" using u by simp
      have "yields (\<lambda>_ t. refs_ok t) (obind (on_mem (kfree (ke_end env) (p_kstack (kproc ?w np))) ?w) (\<lambda>_ s.
                Ret (-1) (upd_kproc np (\<lambda>q. q\<lparr>p_kstack := 0, p_state := UNUSED\<rparr>) s)))"
      proof (rule yields_keep [OF keeps_lift(2) [OF w]])
        fix a1 x
        assume x: "fview x = v"
        have "fview (upd_kproc np (\<lambda>q. q\<lparr>p_kstack := 0, p_state := UNUSED\<rparr>) x) = fview x"
          by (rule fview_idle_proc) (use idle_np [OF x] in \<open>simp_all add: idle_def\<close>)
        then show "yields (\<lambda>_ t. refs_ok t) (Ret (-1) (upd_kproc np (\<lambda>q. q\<lparr>p_kstack := 0, p_state := UNUSED\<rparr>) x))"
          using ok x by simp
      qed
      then show "yields (\<lambda>_ t. refs_ok t) (let s = ?w in if d = 0 then
              obind (on_mem (kfree (ke_end env) (p_kstack (kproc s np))) s) (\<lambda>_ s.
                Ret (-1) (upd_kproc np (\<lambda>q. q\<lparr>p_kstack := 0, p_state := UNUSED\<rparr>) s))
            else fork_rest p np s)"
        using rest [OF w] by (cases "d = 0") (simp_all add: Let_def)
    qed
  qed
qed

text \<open>The part of \<open>exit\<close> under the lock leaves the descriptors and frees no slot but its own.\<close>

lemma reparent_view:
  "p_ofile (procs (reparent me is t) j) = p_ofile (procs t j) \<and> idle (pstate (reparent me is t) j) = idle (pstate t j)"
proof (induction me "is" t rule: reparent.induct)
  case (2 me i "is" t)
  let ?t = "upd_proc i (\<lambda>p. p\<lparr>p_parent := initproc t\<rparr>) t"
  let ?u = "if pstate ?t i = ZOMBIE then wakeup1 (proc_chan (initproc ?t)) ?t else ?t"
  have "p_ofile (procs ?u j) = p_ofile (procs t j) \<and> idle (pstate ?u j) = idle (pstate t j)"
    by (auto simp: wakeup1_def idle_def)
  then show ?case using 2 by (auto simp: Let_def)
qed simp

lemma exit_table_view:
  "p_ofile (procs (exit_table p t) j) = p_ofile (procs t j)" "idle (pstate (exit_table p t) j) \<longleftrightarrow> j = p \<or> idle (pstate t j)"
proof -
  let ?w = "wakeup1 (proc_chan (parent t p)) t"
  have w: "p_ofile (procs ?w j) = p_ofile (procs t j)" "idle (pstate ?w j) = idle (pstate t j)"
    by (auto simp: wakeup1_def idle_def)
  show "p_ofile (procs (exit_table p t) j) = p_ofile (procs t j)" "idle (pstate (exit_table p t) j) \<longleftrightarrow> j = p \<or> idle (pstate t j)"
    unfolding exit_table_def Let_def using w reparent_view [of p "[0..<NPROC]" ?w j] reparent_view [of p "[0..<NPROC]" ?w p]
    by (auto simp: idle_def)
qed

definition exiting :: "nat \<Rightarrow> nat \<Rightarrow> kstate \<Rightarrow> bool" where
  "exiting p i s \<longleftrightarrow> refs_x {} no_refs (fview s) \<and> \<not> idle (pstate (ks_pt s) p) \<and> (\<forall>j<i. p_ofile (kproc s p) ! j = None)"

lemma exiting_view: "fview t = fview s \<Longrightarrow> exiting p i s \<Longrightarrow> exiting p i t"
  unfolding exiting_def by (metis view_idle(1,2))

lemma refs_exit_file:
  assumes "exiting p i s" and "p < NPROC" and "i < NOFILE"
  shows "yields (\<lambda>_ t. exiting p (Suc i) t) (exit_file env p i s)"
proof (cases "p_ofile (kproc s p) ! i")
  case None
  then show ?thesis using assms(1) by (auto simp: exit_file_def exiting_def less_Suc_eq)
next
  case (Some f)
  have R: "refs_x {} no_refs (fview s)" using assms(1) by (simp add: exiting_def)
  show ?thesis unfolding exit_file_def Some option.case
  proof (rule yields_close)
    fix a t
    assume t: "fview t = add_ref f (-1) (fview s)"
    let ?u = "upd_kproc p (\<lambda>q. q\<lparr>p_ofile := (p_ofile q)[i := None]\<rparr>) t"
    have same: "idle (pstate (ks_pt t) p) = idle (pstate (ks_pt s) p)" "p_ofile (kproc t p) = p_ofile (kproc s p)"
      using t by (metis view_idle(1,3), metis view_idle(2,5))
    have A: "refs_x {} (\<lambda>g. 0 + (if g = f then -1 else 0)) (fview t)"
      using refs_add_ref [OF R, of f "-1"] t by simp
    have "refs_x {} (\<lambda>g. 0 + (if g = f then -1 else 0) + (if g = f then 1 else 0)) (set_fd p i None (fview t))"
      by (rule refs_take [OF A assms(2,3)]) (use same Some assms(1) in \<open>simp_all add: exiting_def\<close>)
    then have "refs_x {} no_refs (set_fd p i None (fview t))" by (rule refs_cong) simp
    then have "refs_x {} no_refs (fview ?u)" by (simp add: fview_set_fd)
    moreover have "length (p_ofile (kproc s p)) = NOFILE" using refs_okD(2) [OF R assms(2)] .
    ultimately have "exiting p (Suc i) ?u" using assms(1,3) same by (auto simp: exiting_def less_Suc_eq nth_list_update)
    then show "yields (\<lambda>_ t. exiting p (Suc i) t) (Ret () ?u)" by simp
  qed
qed

lemma refs_exit_table:
  assumes "exiting p NOFILE s" and "p < NPROC"
  shows "refs_ok (upd_pt (exit_table p) s)"
proof -
  let ?t = "upd_pt (exit_table p) s"
  have R: "refs_x {} no_refs (fview s)" using assms(1) by (simp add: exiting_def)
  have "p_ofile (kproc s p) = replicate NOFILE None"
    using assms refs_okD(2) [OF R assms(2)] by (simp add: exiting_def list_eq_iff_nth_eq)
  moreover have o1: "(\<lambda>q. p_ofile (kproc ?t q)) = (\<lambda>q. p_ofile (kproc s q))" by (simp add: exit_table_view)
  ultimately show ?thesis using R unfolding refs_ok_def refs_x_def fview_def o1
    by (simp add: exit_table_view)
qed

lemma refs_exit:
  assumes "refs_ok s" and "p < NPROC" and "\<not> idle (pstate (ks_pt s) p)"
  shows "yields (\<lambda>_ t. refs_ok t) (exit env p s)"
proof -
  have E: "exiting p 0 s" using assms by (simp add: exiting_def refs_ok_def)
  have L: "yields (\<lambda>_ t. exiting p NOFILE t) (ofor [0..<NOFILE] (exit_file env p) s)"
    by (rule yields_ofor [where P = "exiting p"]) (use E refs_exit_file assms(2) in auto)
  have step: "yields Q (obind m f)" if "exiting p NOFILE u" "keeps (fview u) m" "\<And>a t. exiting p NOFILE t \<Longrightarrow> yields Q (f a t)"
    for u Q and m :: "(unit, kstate) outcome" and f :: "unit \<Rightarrow> kstate \<Rightarrow> (unit, kstate) outcome"
    by (rule yields_keep [OF that(2)]) (use that(1,3) exiting_view in blast)
  have tail: "yields (\<lambda>_ t. refs_ok t) (obind (kbegin_op u) (\<lambda>_ s.
      obind (case p_cwd (kproc s p) of None \<Rightarrow> kfault | Some ip \<Rightarrow> on_fs (iput (pid_of s p) ip) s) (\<lambda>_ s.
      obind (kend_op p s) (\<lambda>_ s. Ret () (upd_pt (exit_table p) (upd_kproc p (\<lambda>q. q\<lparr>p_cwd := None\<rparr>) s))))))"
    if u: "exiting p NOFILE u" for u
  proof (rule step [OF u keeps_lift(4) [OF refl]])
    fix a t
    assume t: "exiting p NOFILE t"
    show "yields (\<lambda>_ t. refs_ok t) (obind (case p_cwd (kproc t p) of None \<Rightarrow> kfault | Some ip \<Rightarrow> on_fs (iput (pid_of t p) ip) t) (\<lambda>_ s.
      obind (kend_op p s) (\<lambda>_ s. Ret () (upd_pt (exit_table p) (upd_kproc p (\<lambda>q. q\<lparr>p_cwd := None\<rparr>) s)))))"
    proof (rule step [OF t])
      show "keeps (fview t) (case p_cwd (kproc t p) of None \<Rightarrow> kfault | Some ip \<Rightarrow> on_fs (iput (pid_of t p) ip) t)"
        by (intro keeps_option keeps_lift) simp_all
      fix a1 w
      assume w: "exiting p NOFILE w"
      show "yields (\<lambda>_ t. refs_ok t) (obind (kend_op p w) (\<lambda>_ s. Ret () (upd_pt (exit_table p) (upd_kproc p (\<lambda>q. q\<lparr>p_cwd := None\<rparr>) s))))"
      proof (rule step [OF w keeps_lift(5) [OF refl]])
        fix a2 x
        assume "exiting p NOFILE x"
        then have "exiting p NOFILE (upd_kproc p (\<lambda>q. q\<lparr>p_cwd := None\<rparr>) x)" by (rule exiting_view [rotated]) simp
        then show "yields (\<lambda>_ t. refs_ok t) (Ret () (upd_pt (exit_table p) (upd_kproc p (\<lambda>q. q\<lparr>p_cwd := None\<rparr>) x)))"
          using refs_exit_table assms(2) by simp
      qed
    qed
  qed
  show ?thesis
  proof (cases "initproc (ks_pt s) = Some p")
    case False
    then show ?thesis unfolding exit_def using yields_bind [OF L tail] by simp
  qed (simp add: exit_def)
qed

lemma view_wait_clear:
  assumes "idle (pstate (ks_pt s) i)"
  shows "fview (upd_pt (wait_clear i) s) = fview s"
  by (rule fview_eqI) (use assms in \<open>auto simp: wait_clear_def idle_def\<close>)

lemma keeps_wait:
  assumes "fview s = v"
  shows "keeps v (wait env p s)"
proof (cases "wait_scan p [0..<NPROC] False (ks_pt s)")
  case (Inl i)
  have "idle (pstate (ks_pt s) i)" using wait_scan_Inl [OF Inl] by (simp add: idle_def)
  then have i: "snd (snd v) i" unfolding assms [symmetric] by simp
  have "keeps v (Ret pid (upd_pt (wait_clear i) t))" if t: "fview t = v" for t and pid :: int
  proof -
    have "idle (pstate (ks_pt t) i)" using i unfolding t [symmetric] by simp
    then show ?thesis using view_wait_clear t by (simp add: keeps_def)
  qed
  then show ?thesis unfolding wait_def Inl sum.case Let_def by (intro keeps_bind keeps_lift assms)
next
  case (Inr b)
  show ?thesis unfolding wait_def Inr sum.case using assms by (auto simp: keeps_def)
qed

subsection \<open>Every system call\<close>

lemma refs_keeps:
  assumes "refs_ok s" and "keeps (fview s) m"
  shows "yields (\<lambda>_ t. refs_ok t) m"
  using assms by (auto simp: keeps_yields yields_def refs_ok_def)

lemmas keeps_calls = keeps_sys_link keeps_sys_unlink keeps_sys_file keeps_sys_exec keeps_sys_proc keeps_sys_sbrk keeps_sys_kill
  keeps_wait

lemma refs_syscalls:
  assumes "refs_ok s" and "p < NPROC" and "\<not> idle (pstate (ks_pt s) p)" and "syscalls env p num = Some f"
  shows "yields (\<lambda>_ t. refs_ok t) (f s)"
proof -
  define ok where "ok c \<longleftrightarrow> (\<forall>f. c = Some f \<longrightarrow> yields (\<lambda>_ t. refs_ok t) (f s))" for c :: "(kstate \<Rightarrow> (int option, kstate) outcome) option"
  have sel: "ok (if b then x else y)" if "ok x" "ok y" for b x y using that by simp
  have none: "ok None" by (simp add: ok_def)
  have ret: "ok (Some (comes_back g))" if "yields (\<lambda>_ t. refs_ok t) (g s)" for g
    unfolding ok_def comes_back_def by (auto intro: yields_bind [OF that])
  have keep: "ok (Some (comes_back g))" if "keeps (fview s) (g s)" for g
    by (rule ret) (rule refs_keeps [OF assms(1) that])
  have R: "refs_x {} no_refs (fview s)" and i: "\<not> snd (snd (fview s)) p" using assms(1,3) by (simp_all add: refs_ok_def)
  have d: "yields (\<lambda>_ t. refs_ok t) (sys_dup p s)" "yields (\<lambda>_ t. refs_ok t) (sys_close env p s)"
    using refs_sys_dup [OF assms(1-3)] refs_sys_close [OF assms(1-3)] by (auto simp: yields_def)
  have e: "ok (Some (\<lambda>s. obind (exit env p s) (\<lambda>_ s. Ret None s)))"
    unfolding ok_def by (auto intro: yields_bind [OF refs_exit [OF assms(1-3)]])
  have n: "ok (Some (comes_back (\<lambda>s. Ret (sys_pscnt (ks_pt s)) s)))" by (rule keep) (simp add: keeps_def)
  note changes = refs_fork [OF assms(1-3)] refs_sys_pipe [OF R refl assms(2) i] refs_sys_open [OF R refl assms(2) i] d
  have "ok (syscalls env p num)" unfolding syscalls_def
    by (intro sel none e n) ((rule ret, rule changes) | (rule keep, rule keeps_calls, rule refl))+
  then show ?thesis using assms(4) by (simp add: ok_def)
qed

lemma fview_set_eax [simp]: "fview (set_eax p w s) = fview s"
  unfolding set_eax_def by (rule fview_eqI) auto

text \<open>
  C4: reference counts of open files are exact. When they are before a system call of a running process, they
  are after it, whichever of the 26 calls it is and whatever its arguments and outcome: for every entry of the
  file table, \<open>ref\<close> is the number of descriptors of all processes that refer to it, every descriptor refers to an
  entry of the table, and a slot of the process table that runs no process has no descriptor.
\<close>

theorem syscall_keeps_refs:
  assumes "refs_ok s" and "p < NPROC" and "\<not> idle (pstate (ks_pt s) p)" and "syscall env p s = Ret b t"
  shows "refs_ok t"
proof -
  let ?num = "sint (tf_eax (p_tf (kproc s p)))"
  have S: "refs_ok u" if "fview u = fview s" for u using assms(1) that by (simp add: refs_ok_def)
  have "yields (\<lambda>_ t. refs_ok t) (syscall env p s)"
  proof (cases "syscalls env p ?num")
    case None
    have "keeps (fview s) (syscall env p s)"
      unfolding syscall_def Let_def None option.case by (intro keeps_bind keeps_lift refl) simp
    then show ?thesis using refs_keeps assms(1) by blast
  next
    case (Some f)
    have "yields (\<lambda>_ t. refs_ok t) (obind (if 0 < ks_trace u then kputs msg u else Ret () u) (\<lambda>_ s. Ret True s))"
      if "refs_ok u" for u msg
      by (rule refs_keeps [OF that]) (auto intro!: keeps_bind keeps_if keeps_lift)
    moreover have "refs_ok (set_eax p w u)" if "refs_ok u" for u w using that by (simp add: refs_ok_def)
    ultimately show ?thesis unfolding syscall_def Let_def Some option.case
      by (intro yields_bind [OF refs_syscalls [OF assms(1-3) Some]] yields_option) auto
  qed
  then show ?thesis using assms(4) by (simp add: yields_def)
qed

text \<open>A process that duplicates descriptor 0; its page directory, page table and only page are at \<open>0x80001000\<close>.\<close>

definition ex_mem :: mem where
  "ex_mem a = (if a = 0x80001000 \<or> a = 0x80002000 then 7 else if a = 0x80001001 then 0x20 else if a = 0x80002001 then 0x30 else 0)"

definition ex_env :: kenv where
  "ex_env = \<lparr>ke_end = 0x80100000, ke_data = 0x80100000, ke_forkret = 0, ke_trapret = 0, ke_initcode = [],
     ke_devsw = \<lambda>_. \<lparr>dv_read = None, dv_write = None\<rparr>\<rparr>"

definition ex_k :: kstate where
  "ex_k =
     \<lparr>ks_fs = \<lparr>ls = reset (\<lambda>_. replicate BSIZE 0) 100,
        fsb = \<lparr>sb_size = 100, sb_nblocks = 40, sb_ninodes = 10, sb_nlog = 30, sb_logstart = 2, sb_inodestart = 32, sb_bmapstart = 34\<rparr>,
        icache = \<lambda>_. \<lparr>i_dev = 0, i_inum = 0, i_ref = 0, i_lock = initsleeplock, i_valid = False, i_type = 0, i_major = 0,
          i_minor = 0, i_nlink = 0, i_size = 0, i_addrs = []\<rparr>\<rparr>,
      ks_mem = \<lparr>use_lock = True, freelist = 0, kmemory = ex_mem\<rparr>,
      ks_file = (\<lambda>_. \<lparr>f_type = FD_NONE, f_ref = 0, f_readable = False, f_writable = False, f_pipe = 0, f_ip = 0, f_off = 0\<rparr>)
        (0 := \<lparr>f_type = FD_INODE, f_ref = 1, f_readable = True, f_writable = True, f_pipe = 0, f_ip = 0, f_off = 0\<rparr>),
      ks_pipe = \<lambda>_. \<lparr>p_data = replicate PIPESIZE 0, p_nread = 0, p_nwrite = 0, p_readopen = False, p_writeopen = False\<rparr>,
      ks_pt = \<lparr>procs = (\<lambda>_. ex_proc)(0 := ex_proc\<lparr>p_state := RUNNING, p_pid := 1, p_sz := 4096, p_pgdir := 0x80001000,
          p_tf := ex_tf\<lparr>tf_eax := 10\<rparr>, p_ofile := (replicate NOFILE None)[0 := Some 0]\<rparr>), nextpid = 2, initproc = Some 0\<rparr>,
      ks_ticks = 0, ks_trace = 0, ks_cons = ex_cons\<rparr>"

lemma ex_k_refs: "refs_ok ex_k"
proof -
  have "{(p, fd). p < NPROC \<and> fd < NOFILE \<and> p_ofile (kproc ex_k p) ! fd = Some f} = (if f = 0 then {(0, 0)} else {})" for f
    by (auto simp: ex_k_def ex_proc_def NPROC_def NOFILE_def nth_list_update split: if_splits)
  then have "frefs (\<lambda>p. p_ofile (kproc ex_k p)) f = (if f = 0 then 1 else 0)" for f by (simp add: frefs_def)
  then show ?thesis unfolding refs_ok_def refs_x_def fview_def
    by (auto simp: ex_k_def ex_proc_def idle_def nth_list_update NFILE_def split: if_splits)
qed

lemma ex_k_load: "load32 ex_mem 0x80001000 = 0x2007" "load32 ex_mem 0x80002000 = 0x3007"
  by (simp_all add: load32_def ex_mem_def un_le32_def One_nat_def)

lemma ex_k_mem: "uget 0 4 ex_k = Some 0" "uget 0 5 ex_k = Some 0" "uget 0 6 ex_k = Some 0" "uget 0 7 ex_k = Some 0"
  by (simp_all add: uget_def vmap_def pde_p_def pgtab_def kload_def ex_k_def ex_k_load PDX_def PTX_def PTE_ADDR_def P2V_def
      KERNBASE_def PTE_P_def ex_mem_def)

lemma ex_k_arg: "ugets 0 4 4 ex_k = Some [0, 0, 0, 0]"
proof -
  have "ugets 0 4 (Suc (Suc (Suc (Suc 0)))) ex_k = Some [0, 0, 0, 0]" by (simp add: ex_k_mem)
  then show ?thesis by (simp add: numeral_eq_Suc)
qed

theorem syscall_keeps_refs_witness:
  "\<exists>t. syscall ex_env 0 ex_k = Ret True t \<and> refs_ok t \<and> f_ref (ks_file t 0) = 2 \<and> p_ofile (kproc t 0) ! 1 = Some 0"
proof -
  let ?t = "set_eax 0 1 (set_file 0 ((ks_file ex_k 0)\<lparr>f_ref := 2\<rparr>) (upd_kproc 0 (\<lambda>q. q\<lparr>p_ofile := (p_ofile q)[1 := Some 0]\<rparr>) ex_k))"
  have p: "p_sz (kproc ex_k 0) = 4096" "p_tf (kproc ex_k 0) = ex_tf\<lparr>tf_eax := 10\<rparr>" "p_ofile (kproc ex_k 0) = (replicate NOFILE None)[0 := Some 0]"
    "f_ref (ks_file ex_k 0) = 1" "ks_trace ex_k = 0" "pstate (ks_pt ex_k) 0 = RUNNING"
    by (simp_all add: ex_k_def)
  have ks_trace_set_eax: "ks_trace (set_eax q w u) = ks_trace u" for q w u by (simp add: set_eax_def upd_kproc_def upd_pt_def)
  have f: "argfd 0 0 ex_k = Ret (Some (0, 0)) ex_k"
    by (simp add: argfd_def argint_def fetchint_def p ex_tf_def ex_k_arg un_le32_def NOFILE_def)
  have "List.find (\<lambda>fd. p_ofile (kproc ex_k 0) ! fd = None) [0..<NOFILE] = Some 1"
    by (simp add: p NOFILE_def upt_rec One_nat_def)
  then have "syscall ex_env 0 ex_k = Ret True ?t"
    by (simp add: syscall_def syscalls_def comes_back_def sys_dup_def f fdalloc_def filedup_def p Let_def ks_trace_set_eax set_file_def upd_kproc_def upd_pt_def)
  moreover have "f_ref (ks_file ?t 0) = 2" "p_ofile (kproc ?t 0) ! 1 = Some 0"
    by (simp_all add: set_eax_def p NOFILE_def)
  ultimately show ?thesis using syscall_keeps_refs [OF ex_k_refs, of 0 ex_env True ?t] by (simp add: p NPROC_def idle_def)
qed

end
