(* ===== verification/Pipe_Wait.thy ===== *)
theory Pipe_Wait
  imports File_Refs
begin

text \<open>
  Processes that wait for a pipe: the calls of \<open>src/xv6/pipe.c\<close> with their wakeups and sleeps in the process table.
  A process that goes to sleep does so while it holds the lock of the pipe, so the end of its call and \<open>sleep\<close> are
  one step; when it is woken it calls the routine again with what is left to do.
\<close>

definition asleep :: "chan \<Rightarrow> kstate \<Rightarrow> nat set" where
  "asleep c s = {i. i < NPROC \<and> pstate (ks_pt s) i = SLEEPING \<and> p_chan (kproc s i) = Some c}"

abbreviation readers :: "u32 \<Rightarrow> kstate \<Rightarrow> nat set" where
  "readers a \<equiv> asleep (PipeRead (unat a))"

abbreviation writers :: "u32 \<Rightarrow> kstate \<Rightarrow> nat set" where
  "writers a \<equiv> asleep (PipeWrite (unat a))"

text \<open>
  A pipe at address \<open>a\<close> in use. \<open>k\<close> records whether some call of \<open>pipewrite\<close> has returned -1. In the last rule
  the rest of the system runs, which neither touches the pipe nor puts a process to sleep on it, but may wake some.
\<close>

inductive pipe_sys :: "u32 \<Rightarrow> bool \<Rightarrow> kstate \<Rightarrow> bool" for a where
  created: "ks_pipe s a = pipe_new junk \<Longrightarrow> length junk = PIPESIZE \<Longrightarrow> readers a s = {} \<Longrightarrow> writers a s = {} \<Longrightarrow> pipe_sys a False s"
| wrote: "pipe_sys a k s \<Longrightarrow> kpipewrite p a bs s = Ret r t \<Longrightarrow> pipe_sys a (k \<or> r = -1) t"
| write_waits: "pipe_sys a k s \<Longrightarrow> kpipewrite p a bs s = Sleep c t \<Longrightarrow> pipe_sys a k (upd_pt (sleep_enter p c) t)"
| did_read: "pipe_sys a k s \<Longrightarrow> kpiperead p a n s = Ret r t \<Longrightarrow> pipe_sys a k t"
| read_waits: "pipe_sys a k s \<Longrightarrow> kpiperead p a n s = Sleep c t \<Longrightarrow> pipe_sys a k (upd_pt (sleep_enter p c) t)"
| closed: "pipe_sys a k s \<Longrightarrow> pipeclose env a writable s = Ret u t \<Longrightarrow> pipe_sys a k t"
| others: "pipe_sys a k s \<Longrightarrow> ks_pipe t a = ks_pipe s a \<Longrightarrow> readers a t \<subseteq> readers a s \<Longrightarrow> writers a t \<subseteq> writers a s \<Longrightarrow>
    pipe_sys a k t"

subsection \<open>Invariant\<close>

lemma asleep_wakeup [simp]: "asleep c (upd_pt (wakeup c') s) = (if c = c' then {} else asleep c s)"
  by (auto simp: asleep_def wakeup_def wakeup1_def)

lemma asleep_set_pipe [simp]: "asleep c (set_pipe a q s) = asleep c s"
  by (simp add: asleep_def)

lemma asleep_enter: "asleep c (upd_pt (sleep_enter p c') s) \<subseteq> (if c = c' then insert p (asleep c s) else asleep c s)"
  by (auto simp: asleep_def sleep_enter_def split: if_splits)

definition pipe_inv :: "u32 \<Rightarrow> bool \<Rightarrow> kstate \<Rightarrow> bool" where
  "pipe_inv a k s \<longleftrightarrow> pipe_ok (ks_pipe s a) \<and>
     (writers a s \<noteq> {} \<longrightarrow> readers a s = {} \<and> length (pipe_q (ks_pipe s a)) = PIPESIZE \<and> p_readopen (ks_pipe s a)) \<and>
     (readers a s \<noteq> {} \<longrightarrow> p_writeopen (ks_pipe s a) \<and> (\<not> k \<longrightarrow> pipe_q (ks_pipe s a) = []))"

lemma pipe_inv_others:
  "pipe_inv a k s \<Longrightarrow> ks_pipe t a = ks_pipe s a \<Longrightarrow> readers a t \<subseteq> readers a s \<Longrightarrow> writers a t \<subseteq> writers a s \<Longrightarrow> pipe_inv a k t"
  unfolding pipe_inv_def by (metis subset_empty)

text \<open>What a call of \<open>pipewrite\<close> does: it takes all bytes and wakes the readers, or it is turned away, or it waits.\<close>

lemma kpipewrite_cases:
  assumes "pipe_ok (ks_pipe s a)"
  obtains q where "kpipewrite p a bs s = Ret (int (length bs)) (upd_pt (wakeup (PipeRead (unat a))) (set_pipe a q s))"
    and "pipe_ok q" and "pipe_q q = pipe_q (ks_pipe s a) @ bs" and "length bs \<le> PIPESIZE - length (pipe_q (ks_pipe s a))"
    and "p_readopen q = p_readopen (ks_pipe s a)" and "p_writeopen q = p_writeopen (ks_pipe s a)"
  | q where "kpipewrite p a bs s = Ret (-1) (set_pipe a q s)" and "pipe_ok q"
    and "PIPESIZE - length (pipe_q (ks_pipe s a)) < length bs" and "\<not> p_readopen (ks_pipe s a) \<or> p_killed (kproc s p)"
    and "pipe_q q = pipe_q (ks_pipe s a) @ take (PIPESIZE - length (pipe_q (ks_pipe s a))) bs"
    and "p_readopen q = p_readopen (ks_pipe s a)" and "p_writeopen q = p_writeopen (ks_pipe s a)"
  | q where "kpipewrite p a bs s = Sleep (PipeWrite (unat a)) (upd_pt (wakeup (PipeRead (unat a))) (set_pipe a q s))"
    and "pipe_ok q" and "length (pipe_q q) = PIPESIZE" and "p_readopen q" and "\<not> p_killed (kproc s p)"
    and "p_writeopen q = p_writeopen (ks_pipe s a)"
proof -
  note Q = pipewrite_loop_q [OF assms, where killed = "p_killed (kproc s p)" and addr = bs and n = "int (length bs)"]
  show thesis
  proof (cases "pipewrite_loop (p_killed (kproc s p)) bs (int (length bs)) (ks_pipe s a)")
    case (PDone r wk q)
    then show thesis using Q that(1) [of q] that(2) [of q]
      by (cases "length bs \<le> PIPESIZE - length (pipe_q (ks_pipe s a))") (simp_all add: kpipewrite_def pipewrite_def)
  next
    case (PWait rest wk q)
    then show thesis using Q that(3) [of q] by (simp add: kpipewrite_def pipewrite_def)
  qed
qed

lemma kpiperead_cases:
  assumes "pipe_ok (ks_pipe s a)"
  obtains q where "kpiperead p a n s = Ret (int (length (take (nat n) (pipe_q (ks_pipe s a)))), take (nat n) (pipe_q (ks_pipe s a)))
      (upd_pt (wakeup (PipeWrite (unat a))) (set_pipe a q s))"
    and "pipe_ok q" and "pipe_q q = drop (nat n) (pipe_q (ks_pipe s a))" and "p_writeopen q = p_writeopen (ks_pipe s a)"
  | "kpiperead p a n s = Ret (-1, []) (set_pipe a (ks_pipe s a) s)" and "pipe_q (ks_pipe s a) = []" and "p_killed (kproc s p)"
  | "kpiperead p a n s = Sleep (PipeRead (unat a)) (set_pipe a (ks_pipe s a) s)" and "pipe_q (ks_pipe s a) = []"
    and "p_writeopen (ks_pipe s a)"
proof (cases "pipe_q (ks_pipe s a) = [] \<and> p_writeopen (ks_pipe s a)")
  case True
  then show thesis using that(2,3) by (cases "p_killed (kproc s p)") (auto simp: kpiperead_def piperead_def pipe_empty)
next
  case False
  obtain bs q where q: "piperead_copy (nat n) (ks_pipe s a) = (bs, q)" by fastforce
  note C = piperead_copy_q [OF assms q]
  have "piperead (p_killed (kproc s p)) n (ks_pipe s a) = PDone (int (length bs), bs) [Nwrite] q"
    using False q by (auto simp: piperead_def pipe_empty)
  then show thesis using that(1) [of q] C by (simp add: kpiperead_def)
qed

lemma pipe_inv_write:
  assumes "pipe_inv a k s"
  shows "kpipewrite p a bs s = Ret r t \<Longrightarrow> pipe_inv a (k \<or> r = -1) t"
    and "kpipewrite p a bs s = Sleep c t \<Longrightarrow> pipe_inv a k (upd_pt (sleep_enter p c) t)"
proof -
  have ok: "pipe_ok (ks_pipe s a)" using assms by (simp add: pipe_inv_def)
  have fit: "length (pipe_q (ks_pipe s a)) = PIPESIZE" if "writers a s \<noteq> {}" using assms that by (simp add: pipe_inv_def)
  show "pipe_inv a (k \<or> r = -1) t" if w: "kpipewrite p a bs s = Ret r t"
    using ok
  proof (cases rule: kpipewrite_cases [of s a p bs])
    case (1 q)
    then have t: "t = upd_pt (wakeup (PipeRead (unat a))) (set_pipe a q s)" using w by auto
    have "length (pipe_q q) = PIPESIZE" if "writers a s \<noteq> {}" using fit [OF that] 1 by simp
    then show ?thesis using assms 1 t by (auto simp: pipe_inv_def)
  next
    case (2 q)
    then have t: "t = set_pipe a q s" "r = -1" using w by auto
    have "length (pipe_q q) = PIPESIZE" if "writers a s \<noteq> {}" using fit [OF that] 2 by simp
    then show ?thesis using assms 2 t by (auto simp: pipe_inv_def)
  qed (use w in auto)
  show "pipe_inv a k (upd_pt (sleep_enter p c) t)" if w: "kpipewrite p a bs s = Sleep c t"
    using ok
  proof (cases rule: kpipewrite_cases [of s a p bs])
    case (3 q)
    then have t: "t = upd_pt (wakeup (PipeRead (unat a))) (set_pipe a q s)" "c = PipeWrite (unat a)" using w by auto
    have "readers a (upd_pt (sleep_enter p c) t) = {}" using asleep_enter [of "PipeRead (unat a)" p c t] t by auto
    then show ?thesis using 3 t by (simp add: pipe_inv_def)
  qed (use w in auto)
qed

lemma pipe_inv_read:
  assumes "pipe_inv a k s"
  shows "kpiperead p a n s = Ret r t \<Longrightarrow> pipe_inv a k t"
    and "kpiperead p a n s = Sleep c t \<Longrightarrow> pipe_inv a k (upd_pt (sleep_enter p c) t)"
proof -
  have ok: "pipe_ok (ks_pipe s a)" using assms by (simp add: pipe_inv_def)
  show "pipe_inv a k t" if w: "kpiperead p a n s = Ret r t"
    using ok w assms by (cases rule: kpiperead_cases [of s a p n]) (auto simp: pipe_inv_def)
  show "pipe_inv a k (upd_pt (sleep_enter p c) t)" if w: "kpiperead p a n s = Sleep c t"
    using ok
  proof (cases rule: kpiperead_cases [of s a p n])
    case 3
    then have t: "t = set_pipe a (ks_pipe s a) s" "c = PipeRead (unat a)" using w by auto
    have "writers a s = {}" using assms 3(2) by (auto simp: pipe_inv_def PIPESIZE_def)
    then have "writers a (upd_pt (sleep_enter p c) t) = {}" using asleep_enter [of "PipeWrite (unat a)" p c t] t by auto
    then show ?thesis using 3 t ok by (simp add: pipe_inv_def)
  qed (use w in auto)
qed

lemma pipe_inv_close:
  assumes "pipe_inv a k s" and "pipeclose env a writable s = Ret u t"
  shows "pipe_inv a k t"
proof -
  let ?q = "if writable then (ks_pipe s a)\<lparr>p_writeopen := False\<rparr> else (ks_pipe s a)\<lparr>p_readopen := False\<rparr>"
  let ?c = "if writable then PipeRead (unat a) else PipeWrite (unat a)"
  have "ks_pipe t = ks_pipe (set_pipe a ?q s)" "asleep c t = asleep c (upd_pt (wakeup ?c) (set_pipe a ?q s))" for c
    using assms(2) by (auto simp: pipeclose_def pipeclose_buf_def Let_def on_mem_def olift_Ret_iff asleep_def split: if_splits)
  then show ?thesis using assms(1) by (auto simp: pipe_inv_def pipe_ok_def pipe_q_def)
qed

lemma pipe_sys_inv: "pipe_sys a k s \<Longrightarrow> pipe_inv a k s"
proof (induction rule: pipe_sys.induct)
  case (created s junk)
  then show ?case by (simp add: pipe_inv_def pipe_ok_def pipe_new_def)
next
  case (others k s t)
  then show ?case using pipe_inv_others by blast
qed (auto intro: pipe_inv_write pipe_inv_read pipe_inv_close)

subsection \<open>Properties\<close>

text \<open>
  C25: processes sleep on a pipe only while they have to, and readers and writers never wait for each other. In every
  reachable state, when writers sleep the buffer is full, the read end is open and no reader sleeps; when readers sleep
  the write end is open, and the buffer is empty unless a call of \<open>pipewrite\<close> was turned away. So a read by any process
  then returns some bytes and wakes all the writers, and a write of up to 512 bytes succeeds and wakes all the readers.
\<close>

theorem pipe_no_deadlock:
  assumes "pipe_sys a k s"
  shows "(writers a s \<noteq> {} \<longrightarrow> readers a s = {} \<and> length (pipe_q (ks_pipe s a)) = PIPESIZE \<and> p_readopen (ks_pipe s a) \<and>
      (\<forall>p n. 0 < n \<longrightarrow> (\<exists>r bs t. kpiperead p a n s = Ret (r, bs) t \<and> 0 < r \<and> writers a t = {}))) \<and>
    (readers a s \<noteq> {} \<longrightarrow> p_writeopen (ks_pipe s a) \<and> (\<not> k \<longrightarrow> pipe_q (ks_pipe s a) = [] \<and>
      (\<forall>p bs. length bs \<le> PIPESIZE \<longrightarrow> (\<exists>t. kpipewrite p a bs s = Ret (int (length bs)) t \<and> readers a t = {}))))"
proof -
  have I: "pipe_inv a k s" using pipe_sys_inv [OF assms] .
  then have ok: "pipe_ok (ks_pipe s a)" by (simp add: pipe_inv_def)
  have r: "\<exists>r bs t. kpiperead p a n s = Ret (r, bs) t \<and> 0 < r \<and> writers a t = {}"
    if f: "length (pipe_q (ks_pipe s a)) = PIPESIZE" "0 < n" for p n
    using ok
  proof (cases rule: kpiperead_cases [of s a p n])
    case (1 q)
    have "0 < length (take (nat n) (pipe_q (ks_pipe s a)))" using f by (simp add: PIPESIZE_def)
    then show ?thesis using 1(1) by (intro exI) (rule conjI, assumption, simp)
  qed (use f in \<open>auto simp: PIPESIZE_def\<close>)
  have w: "\<exists>t. kpipewrite p a bs s = Ret (int (length bs)) t \<and> readers a t = {}"
    if "pipe_q (ks_pipe s a) = []" "length bs \<le> PIPESIZE" for p bs
    using ok
  proof (cases rule: kpipewrite_cases [of s a p bs])
    case (3 q)
    then show ?thesis using pipewrite_loop_q [OF ok, where killed = "p_killed (kproc s p)" and addr = bs and n = "int (length bs)"] that
      by (auto simp: kpipewrite_def pipewrite_def split: pipe_result.splits)
  qed (use that in auto)
  show ?thesis using I r w unfolding pipe_inv_def by blast
qed

text \<open>
  C39: a writer that is killed can leave readers asleep beside a full buffer: when readers sleep and the process that writes
  more than 512 bytes has been killed, \<open>pipewrite\<close> fills the buffer and returns -1 without a wakeup.
\<close>

theorem killed_writer_no_wakeup:
  assumes "pipe_sys a False s" and "readers a s \<noteq> {}" and "p_killed (kproc s p)" and "PIPESIZE < length bs"
  shows "\<exists>t. kpipewrite p a bs s = Ret (-1) t \<and> pipe_sys a True t \<and> readers a t = readers a s \<and>
    pipe_q (ks_pipe t a) = take PIPESIZE bs"
proof -
  have I: "pipe_inv a False s" using pipe_sys_inv [OF assms(1)] .
  then have e: "pipe_ok (ks_pipe s a)" "pipe_q (ks_pipe s a) = []" using assms(2) by (auto simp: pipe_inv_def)
  from e(1) show ?thesis
  proof (cases rule: kpipewrite_cases [of s a p bs])
    case (2 q)
    then show ?thesis using wrote [OF assms(1) 2(1)] e(2) by (intro exI [of _ "set_pipe a q s"]) simp
  qed (use assms e in auto)
qed

text \<open>A new pipe at address 0x80300000; process 1 reads from it and goes to sleep.\<close>

definition ex_pipes :: kstate where
  "ex_pipes = ex_k\<lparr>ks_pipe := (\<lambda>_. pipe_new (replicate PIPESIZE 0)), 
     ks_pt := upd_proc 1 (\<lambda>p. p\<lparr>p_state := RUNNING, p_pid := 2\<rparr>) (upd_proc 0 (\<lambda>p. p\<lparr>p_killed := True\<rparr>) (ks_pt ex_k))\<rparr>"

definition ex_reader :: kstate where
  "ex_reader = upd_pt (sleep_enter 1 (PipeRead (unat (0x80300000 :: u32)))) (set_pipe 0x80300000 (ks_pipe ex_pipes 0x80300000) ex_pipes)"

lemma ex_reader_sys: "pipe_sys 0x80300000 False ex_reader" and ex_reader_asleep: "1 \<in> readers 0x80300000 ex_reader"
proof -
  have a: "asleep c ex_pipes = {}" for c by (auto simp: asleep_def ex_pipes_def ex_k_def ex_proc_def split: if_splits)
  have "pipe_sys 0x80300000 False ex_pipes" 
    by (rule created [where junk = "replicate PIPESIZE 0"]) (simp_all add: a, simp add: ex_pipes_def)
  moreover have "kpiperead 1 0x80300000 5 ex_pipes = Sleep (PipeRead (unat (0x80300000 :: u32))) (set_pipe 0x80300000 (ks_pipe ex_pipes 0x80300000) ex_pipes)"
    by (simp add: kpiperead_def piperead_def ex_pipes_def pipe_new_def ex_k_def ex_proc_def)
  ultimately show "pipe_sys 0x80300000 False ex_reader" unfolding ex_reader_def by (rule read_waits)
  show "1 \<in> readers 0x80300000 ex_reader" by (simp add: ex_reader_def asleep_def sleep_enter_def NPROC_def)
qed

theorem pipe_no_deadlock_witness:
  "1 \<in> readers 0x80300000 ex_reader \<and> (\<exists>t. kpipewrite 0 0x80300000 [7] ex_reader = Ret (int (length [7 :: byte])) t \<and> readers 0x80300000 t = {})"
proof -
  have "length [7 :: byte] \<le> PIPESIZE" by (simp add: PIPESIZE_def)
  then show ?thesis using pipe_no_deadlock [OF ex_reader_sys] ex_reader_asleep by blast
qed

theorem killed_writer_no_wakeup_witness:
  "\<exists>t. kpipewrite 0 0x80300000 (replicate 600 7) ex_reader = Ret (-1) t \<and> 1 \<in> readers 0x80300000 t \<and>
    pipe_q (ks_pipe t 0x80300000) = replicate 512 7"
proof -
  have "p_killed (kproc ex_reader 0)" by (simp add: ex_reader_def ex_pipes_def sleep_enter_def)
  moreover have "PIPESIZE < length (replicate 600 (7 :: byte))" by (simp add: PIPESIZE_def)
  moreover have "readers 0x80300000 ex_reader \<noteq> {}" using ex_reader_asleep by blast
  ultimately obtain t where "kpipewrite 0 0x80300000 (replicate 600 7) ex_reader = Ret (-1) t"
    "readers 0x80300000 t = readers 0x80300000 ex_reader" "pipe_q (ks_pipe t 0x80300000) = take PIPESIZE (replicate 600 7)"
    using killed_writer_no_wakeup [OF ex_reader_sys] by blast
  then show ?thesis using ex_reader_asleep by (intro exI [of _ t]) (simp add: PIPESIZE_def)
qed

end
