(* ===== verification/Sys_Checks.thy ===== *)
theory Sys_Checks
  imports File_Refs
begin

text \<open>
  Properties of system calls: the checks of user pointers, the count of user pages, the size of a process, and
  that a parent finds a child that has exited.
\<close>

subsection \<open>User pointers\<close>

lemma fetchint_same: "fetchint p a s = Ret r t \<Longrightarrow> t = s"
  by (auto simp: fetchint_def Let_def kfault_def split: if_splits option.splits)

lemma argint_same: "argint p n s = Ret r t \<Longrightarrow> t = s"
  by (auto simp: argint_def dest: fetchint_same)

lemma fetchstr_loop_len: "fetchstr_loop p a k s = Ret (Some w) t \<Longrightarrow> t = s \<and> length w < k \<and> 0 \<notin> set w"
proof (induction k arbitrary: a w)
  case (Suc k)
  then show ?case by (auto simp: kfault_def obind_Ret_iff split: option.splits if_splits)
qed simp

lemma unat_lt_half:
  assumes "0 \<le> sint (w :: u32)"
  shows "unat w < 2 ^ 31"
proof -
  have u: "int (unat w) = uint w" by simp
  have b: "uint w < 4294967296" using uint_lt2p [of w] by simp
  have "sint (word_of_int (uint w) :: u32) = (uint w + 2 ^ (LENGTH(32) - 1)) mod 2 ^ LENGTH(32) - 2 ^ (LENGTH(32) - 1)" by (rule int_word_sint)
  then have s: "sint w = (uint w + 2147483648) mod 4294967296 - 2147483648" by (simp only: word_of_int_uint) simp
  have "uint w < 2147483648"
  proof (rule ccontr)
    assume "\<not> ?thesis"
    then have c: "0 \<le> uint w - 2147483648" "uint w - 2147483648 < 4294967296" using b by linarith+
    have "(uint w + 2147483648) mod 4294967296 = (uint w - 2147483648 + 4294967296) mod 4294967296" by (rule arg_cong [where f = "\<lambda>x. x mod 4294967296"]) simp
    also have "\<dots> = (uint w - 2147483648) mod 4294967296" by (rule mod_add_self2)
    also have "\<dots> = uint w - 2147483648" by (rule mod_pos_pos_trivial [OF c])
    finally show False using assms b s by linarith
  qed
  then have "int (unat w) < int 2147483648" unfolding u by linarith
  then have "unat w < 2147483648" by (simp only: of_nat_less_iff)
  then show ?thesis by (simp only: power_numeral) simp
qed

text \<open>
  C17: a user pointer that passes the checks is inside the memory of the process: as long as the size of the process is
  at most \<open>KERNBASE\<close>, every byte of a block that \<open>argptr\<close> accepts has an address below the size,
  without wrap-around, and every byte of a string that \<open>argstr\<close> accepts, its terminating zero
  included.
\<close>

theorem user_pointers_checked:
  assumes "p_sz (kproc s p) \<le> KERNBASE"
  shows "(argptr p n len s = Ret (Some a) t \<longrightarrow>
      (\<forall>i<unat len. unat (a + of_nat i) = unat a + i \<and> a + of_nat i < p_sz (kproc s p))) \<and>
    (argstr p n s = Ret (Some w) t \<longrightarrow>
      (\<exists>a. argint p n s = Ret (Some a) s \<and> unat a + length w < unat (p_sz (kproc s p))))"
proof (intro conjI impI allI)
  let ?sz = "p_sz (kproc s p)"
  have k: "unat ?sz \<le> 2 ^ 31" using assms by (simp add: word_le_nat_alt KERNBASE_def)
  assume A: "argptr p n len s = Ret (Some a) t"
  then obtain r u where r: "argint p n s = Ret r u" and c: "(case r of None \<Rightarrow> Ret None u | Some i \<Rightarrow>
      let sz = p_sz (kproc u p) in if sint len < 0 \<or> sz \<le> i \<or> sz < i + len then Ret None u else Ret (Some i) u) = Ret (Some a) t"
    unfolding argptr_def by (rule obind_RetE)
  have "u = s" using argint_same [OF r] .
  then have l: "0 \<le> sint len" "a < ?sz" "a + len \<le> ?sz"
    using c by (auto simp: Let_def not_less not_le split: option.splits if_splits)
  note l' = unat_lt_half [OF l(1)] l(2) [unfolded word_less_nat_alt]
  have nw: "unat (a + len) = unat a + unat len" by (rule unat_plus_small) (use l' k in simp)
  fix i
  assume i: "i < unat len"
  then have oi: "unat (of_nat i :: u32) = i" using l'(1) by (simp add: unat_of_nat take_bit_nat_eq_self_iff)
  have "unat (a + of_nat i) = unat a + i" using unat_plus_small [of a "of_nat i"] l' k i oi by simp
  moreover have "unat a + unat len \<le> unat ?sz" using l(3) nw by (simp add: word_le_nat_alt)
  ultimately show "unat (a + of_nat i) = unat a + i" "a + of_nat i < ?sz" using i by (simp_all add: word_less_nat_alt)
next
  assume A: "argstr p n s = Ret (Some w) t"
  then obtain r u where r: "argint p n s = Ret r u" and c: "(case r of None \<Rightarrow> Ret None u | Some a \<Rightarrow> fetchstr p a u) = Ret (Some w) t"
    unfolding argstr_def by (rule obind_RetE)
  then obtain a where a: "argint p n s = Ret (Some a) s" "fetchstr p a s = Ret (Some w) t"
    using argint_same [OF r] by (auto split: option.splits)
  then have "a < p_sz (kproc s p)" "length w < unat (p_sz (kproc s p)) - unat a"
    by (auto simp: fetchstr_def Let_def not_le dest: fetchstr_loop_len split: if_splits)
  then show "\<exists>a. argint p n s = Ret (Some a) s \<and> unat a + length w < unat (p_sz (kproc s p))"
    using a(1) by auto
qed

text \<open>The first argument of the process of \<open>ex_k\<close> is the address 0.\<close>

theorem user_pointers_checked_witness:
  "argptr 0 0 8 ex_k = Ret (Some 0) ex_k \<and> unat (0 + of_nat 7 :: u32) = unat (0 :: u32) + 7 \<and> (0 + of_nat 7 :: u32) < p_sz (kproc ex_k 0)"
proof -
  have p: "p_sz (kproc ex_k 0) = 4096" "p_tf (kproc ex_k 0) = ex_tf\<lparr>tf_eax := 10\<rparr>" by (simp_all add: ex_k_def)
  have "argint 0 0 ex_k = Ret (Some 0) ex_k"
    by (simp add: argint_def fetchint_def p ex_tf_def ex_k_arg un_le32_def)
  then have a: "argptr 0 0 8 ex_k = Ret (Some 0) ex_k" by (simp add: argptr_def p)
  have "p_sz (kproc ex_k 0) \<le> KERNBASE" by (simp add: p KERNBASE_def)
  from user_pointers_checked [OF this, of 0 8 0 ex_k "[]"] a
  have "\<forall>i<unat (8 :: u32). unat (0 + of_nat i :: u32) = unat (0 :: u32) + i \<and> 0 + of_nat i < p_sz (kproc ex_k 0)" by blast
  then show ?thesis using a by (simp del: of_nat_numeral)
qed

subsection \<open>Counting pages\<close>

definition is_user_pte :: "u32 \<Rightarrow> bool" where
  "is_user_pte e \<longleftrightarrow> e AND (PTE_P OR PTE_U) = PTE_P OR PTE_U"

text \<open>The address of a page, split into its two indices.\<close>

lemma page_indices:
  assumes "i < 1024" and "j < 1024"
  shows "PDX (of_nat (4096 * (1024 * i + j))) = of_nat i" "PTX (of_nat (4096 * (1024 * i + j))) = of_nat j"
proof -
  have "4096 * (1024 * i + j) < 2 ^ 32" using assms by simp
  then have u: "unat (of_nat (4096 * (1024 * i + j)) :: u32) = 4096 * (1024 * i + j)"
    by (simp only: unat_of_nat take_bit_nat_eq_self_iff) simp
  have n: "unat (of_nat i :: u32) = i" "unat (of_nat j :: u32) = j"
    using assms by (simp_all add: unat_of_nat take_bit_nat_eq_self_iff)
  have "4096 * (1024 * i + j) div 4194304 = i" "4096 * (1024 * i + j) div 4096 mod 1024 = j" using assms by simp_all
  then show "PDX (of_nat (4096 * (1024 * i + j))) = of_nat i" "PTX (of_nat (4096 * (1024 * i + j))) = of_nat j"
    by (simp_all only: word_unat_eq_iff unat_PDX unat_PTX u n)
qed

text \<open>What the outer loop adds for an entry of the directory.\<close>

lemma pgcnt_entry:
  assumes "i < 1024"
  shows "(let pde = kload (d + 4 * of_nat i) m in if pde AND PTE_P \<noteq> 0 then pgcnt_table (P2V (PTE_ADDR pde)) m else 0) =
    card {j. j < 1024 \<and> is_user_pte (vmap d m (of_nat (4096 * (1024 * i + j))))}" (is "_ = card ?S")
proof -
  have N: "j < NPTENTRIES \<longleftrightarrow> j < 1024" for j by (simp add: NPTENTRIES_def)
  have v: "vmap d m (of_nat (4096 * (1024 * i + j))) =
      (if pde_p d (of_nat i) m then kload (pgtab d (of_nat i) m + 4 * of_nat j) m else 0)" if "j < 1024" for j
    unfolding vmap_def page_indices [OF assms that] ..
  show ?thesis
  proof (cases "pde_p d (of_nat i) m")
    case True
    have "?S = set (filter (\<lambda>j. is_user_pte (kload (pgtab d (of_nat i) m + 4 * of_nat j) m)) [0..<NPTENTRIES])"
      unfolding set_filter set_upt using True v by (auto simp: N)
    then have "card ?S = length (filter (\<lambda>j. is_user_pte (kload (pgtab d (of_nat i) m + 4 * of_nat j) m)) [0..<NPTENTRIES])"
      by (simp only: distinct_card distinct_filter distinct_upt)
    then show ?thesis using True by (simp add: pde_p_def pgtab_def pgcnt_table_def is_user_pte_def)
  next
    case False
    have "\<not> is_user_pte 0" by (simp add: is_user_pte_def PTE_P_def PTE_U_def)
    then have e: "?S = {}" using v False by (auto split: if_splits)
    show ?thesis unfolding e using False by (simp add: pde_p_def)
  qed
qed

text \<open>Counting the numbers below \<open>1024 * n\<close> with a property, row by row.\<close>

lemma card_rows:
  fixes n :: nat
  shows "card {v. v < 1024 * n \<and> P v} = (\<Sum>i<n. card {j. j < 1024 \<and> P (1024 * i + j)})"
proof (induction n)
  case (Suc n)
  have s: "{v. v < 1024 * Suc n \<and> P v} = {v. v < 1024 * n \<and> P v} \<union> (\<lambda>j. 1024 * n + j) ` {j. j < 1024 \<and> P (1024 * n + j)}"
    (is "?A = ?B \<union> ?f ` ?C")
  proof (intro set_eqI iffI)
    fix v
    assume v: "v \<in> ?A"
    show "v \<in> ?B \<union> ?f ` ?C"
    proof (cases "v < 1024 * n")
      case False
      then have "v = ?f (v - 1024 * n)" "v - 1024 * n \<in> ?C" using v by auto
      then show ?thesis by blast
    qed (use v in auto)
  qed auto
  have "card (?B \<union> ?f ` ?C) = card ?B + card (?f ` ?C)" by (rule card_Un_disjoint) auto
  also have "card (?f ` ?C) = card ?C" by (rule card_image) (simp add: inj_on_def)
  finally show ?case unfolding s Suc.IH by simp
qed simp

text \<open>
  C24: \<open>sys_pgcnt\<close> counts the user pages of the process: the virtual pages whose page table entry, found through the
  page directory, is present and accessible to the user.
\<close>

theorem sys_pgcnt_counts:
  "sys_pgcnt p s = Ret (int (card {v. v < 2 ^ 20 \<and>
     vmap (p_pgdir (kproc s p)) (ks_mem s) (of_nat (4096 * v)) AND (PTE_P OR PTE_U) = PTE_P OR PTE_U})) s"
proof -
  let ?d = "p_pgdir (kproc s p)" and ?m = "ks_mem s"
  have n: "(2 :: nat) ^ 20 = 1024 * NPDENTRIES" by (simp add: NPDENTRIES_def)
  have "pgcnt ?d ?m = sum_list (map (\<lambda>i. card {j. j < 1024 \<and> is_user_pte (vmap ?d ?m (of_nat (4096 * (1024 * i + j))))}) [0..<NPDENTRIES])"
    unfolding pgcnt_def by (rule arg_cong [of _ _ sum_list], rule map_cong [OF refl], rule pgcnt_entry) (simp add: NPDENTRIES_def)
  also have "\<dots> = card {v. v < 1024 * NPDENTRIES \<and> is_user_pte (vmap ?d ?m (of_nat (4096 * v)))}"
    by (simp only: card_rows interv_sum_list_conv_sum_set_nat set_upt lessThan_atLeast0)
  finally show ?thesis unfolding sys_pgcnt_def n is_user_pte_def by (simp only:)
qed

subsection \<open>The size of a process\<close>

lemma dealloc_result:
  assumes "deallocuvm kend pgdir oldsz newsz m = Ret r m'"
  shows "r = (if oldsz \<le> newsz then oldsz else newsz)"
  using assms by (auto simp: deallocuvm_def obind_Ret_iff split: if_splits)

text \<open>
  Shrinking a process by more than its size is accepted and changes nothing; shrinking it by its whole size
  gives its memory back but reports an error and keeps the old size.
\<close>

lemma growproc_shrink:
  assumes "sint n < 0" and "growproc env p n s = Ret r t"
  shows "p_sz (kproc s p) \<le> p_sz (kproc s p) + n \<Longrightarrow> p_sz (kproc s p) \<noteq> 0 \<Longrightarrow> r = 0 \<and> kproc t p = kproc s p"
    and "p_sz (kproc s p) + n = 0 \<Longrightarrow> r = -1 \<and> p_sz (kproc t p) = p_sz (kproc s p)"
proof -
  let ?sz = "p_sz (kproc s p)"
  obtain z u where z: "on_mem (deallocuvm (ke_end env) (p_pgdir (kproc s p)) ?sz (?sz + n)) s = Ret z u"
    "(if z = 0 then Ret (-1) u else Ret 0 (upd_kproc p (\<lambda>q. q\<lparr>p_sz := z\<rparr>) u)) = Ret r t"
    using assms unfolding growproc_def Let_def by (auto elim!: obind_RetE)
  then have v: "z = (if ?sz \<le> ?sz + n then ?sz else ?sz + n)" "ks_pt u = ks_pt s"
    by (auto simp: on_mem_def olift_Ret_iff dest: dealloc_result)
  show "?sz \<le> ?sz + n \<Longrightarrow> ?sz \<noteq> 0 \<Longrightarrow> r = 0 \<and> kproc t p = kproc s p" using z(2) v by auto
  show "?sz + n = 0 \<Longrightarrow> r = -1 \<and> p_sz (kproc t p) = ?sz" using z(2) v by (auto split: if_splits)
qed

subsection \<open>Exiting and waiting\<close>

lemma wait_scan_finds: "i \<in> set is \<Longrightarrow> parent t i = Some q \<Longrightarrow> pstate t i = ZOMBIE \<Longrightarrow> \<exists>j. wait_scan q is h t = Inl j"
  by (induction "is" arbitrary: h) auto

text \<open>
  C23: a parent learns of the exit of its child: after \<open>exit\<close> has changed the table, the parent is not asleep in
  \<open>wait\<close>, and its scan finds an exited child instead of going to sleep; the same holds for the children
  the exiting process leaves behind, whose parent is then the first process.
\<close>

theorem exit_is_noticed:
  assumes "p < NPROC" and "initproc t \<noteq> Some p" and "i < NPROC" and "parent (exit_table p t) i = Some q" and "q < NPROC" and "parent t p \<noteq> Some p"
    and "i = p \<or> parent t i = Some p \<and> pstate t i = ZOMBIE"
  shows "(\<exists>j. wait_scan q [0..<NPROC] False (exit_table p t) = Inl j) \<and>
    \<not> (pstate (exit_table p t) q = SLEEPING \<and> p_chan (procs (exit_table p t) q) = Some (ProcChan q))"
proof -
  note E = exit_table_procs [OF assms(2)]
  have "pstate (exit_table p t) i = ZOMBIE" using assms(7) unfolding E by (auto simp: exit_wakes_def)
  then have "\<exists>j. wait_scan q [0..<NPROC] False (exit_table p t) = Inl j"
    by (intro wait_scan_finds [of i]) (use assms(3,4) in auto)
  moreover have "\<not> (pstate (exit_table p t) q = SLEEPING \<and> p_chan (procs (exit_table p t) q) = Some (ProcChan q))"
  proof
    assume "pstate (exit_table p t) q = SLEEPING \<and> p_chan (procs (exit_table p t) q) = Some (ProcChan q)"
    then have w: "\<not> exit_wakes p t q" "pstate t q = SLEEPING" "p_chan (procs t q) = Some (ProcChan q)"
      unfolding E by (auto split: if_splits)
    show False
    proof (cases "i = p")
      case True
      then have "parent t p = Some q" using assms(4,6) unfolding E by simp
      then show False using w assms(5) by (simp add: exit_wakes_def proc_chan_def)
    next
      case False
      then have "initproc t = Some q" "parent t i = Some p" "pstate t i = ZOMBIE" using assms(3,4,7) unfolding E by auto
      then show False using w assms(3,5) by (auto simp: exit_wakes_def proc_chan_def)
    qed
  qed
  ultimately show ?thesis ..
qed

text \<open>Process 1 exits while its parent, process 0, sleeps in \<open>wait\<close>.\<close>

definition ex_wait :: ptable where
  "ex_wait = \<lparr>procs = (\<lambda>_. ex_proc)(0 := ex_proc\<lparr>p_state := SLEEPING, p_chan := Some (ProcChan 0)\<rparr>,
     1 := ex_proc\<lparr>p_state := RUNNING, p_parent := Some 0\<rparr>), nextpid = 3, initproc = Some 0\<rparr>"

theorem exit_is_noticed_witness:
  "pstate ex_wait 0 = SLEEPING \<and> (\<exists>j. wait_scan 0 [0..<NPROC] False (exit_table 1 ex_wait) = Inl j) \<and>
   pstate (exit_table 1 ex_wait) 0 \<noteq> SLEEPING"
proof -
  have i: "initproc ex_wait \<noteq> Some 1" "pstate ex_wait 0 = SLEEPING" by (simp_all add: ex_wait_def)
  note E = exit_table_procs [OF i(1)]
  have "parent (exit_table 1 ex_wait) 1 = Some 0" "p_chan (procs (exit_table 1 ex_wait) 0) = Some (ProcChan 0)"
    "parent ex_wait 1 \<noteq> Some 1"
    unfolding E by (simp_all add: ex_wait_def)
  then show ?thesis using exit_is_noticed [of 1 ex_wait 1 0] i by (simp add: NPROC_def)
qed

end
