(* ===== verification/Grep.thy ===== *)
theory Grep
  imports CString
begin

text \<open>
  The pattern search of \<open>src/xv6/grep.c\<close>. A zero-terminated string is the list of its bytes before the
  zero. The matcher is proved equivalent to the language of its pattern; the loop over the buffer is followed
  through any sequence of results of \<open>read\<close>.
\<close>

subsection \<open>The matcher\<close>

definition c_star :: byte where "c_star = 42"
definition c_dot :: byte where "c_dot = 46"
definition c_caret :: byte where "c_caret = 94"
definition c_dollar :: byte where "c_dollar = 36"

fun matchhere :: "byte list \<Rightarrow> byte list \<Rightarrow> bool"
  and matchstar :: "byte \<Rightarrow> byte list \<Rightarrow> byte list \<Rightarrow> bool" where
  "matchhere re tx =
     (case re of
        [] \<Rightarrow> True
      | c # re1 \<Rightarrow>
          if re1 \<noteq> [] \<and> hd re1 = c_star then matchstar c (tl re1) tx
          else if c = c_dollar \<and> re1 = [] then tx = []
          else (case tx of
              [] \<Rightarrow> False
            | t # ts \<Rightarrow> if c = c_dot \<or> c = t then matchhere re1 ts else False))"
| "matchstar c re tx =
     (if matchhere re tx then True
      else (case tx of
          [] \<Rightarrow> False
        | t # ts \<Rightarrow> if t = c \<or> c = c_dot then matchstar c re ts else False))"

fun match_from :: "byte list \<Rightarrow> byte list \<Rightarrow> bool" where
  "match_from re tx = (if matchhere re tx then True else (case tx of [] \<Rightarrow> False | t # ts \<Rightarrow> match_from re ts))"

definition match :: "byte list \<Rightarrow> byte list \<Rightarrow> bool" where
  "match re tx = (if re \<noteq> [] \<and> hd re = c_caret then matchhere (tl re) tx else match_from re tx)"

declare matchhere.simps [simp del] matchstar.simps [simp del] match_from.simps [simp del]

subsection \<open>The loop over the input\<close>

text \<open>
  The inner loop, on the bytes from \<open>p\<close> to the end of the buffer: what it writes and the bytes from the final
  \<open>p\<close> on. \<open>strchr\<close> stops at a zero byte.
\<close>

definition c_nl :: byte where "c_nl = 10"

function grep_lines :: "byte list \<Rightarrow> byte list \<Rightarrow> byte list \<times> byte list" where
  "grep_lines pat p =
     (if c_nl \<in> set (takeWhile (\<lambda>b. b \<noteq> 0) p) then
        let line = takeWhile (\<lambda>b. b \<noteq> c_nl) p; rest = drop (length line + 1) p; (out, left) = grep_lines pat rest
        in ((if match pat line then line @ [c_nl] else []) @ out, left)
      else ([], p))"
  by auto
termination
proof (relation "measure (\<lambda>(pat, p). length p)", goal_cases)
  case (2 pat p line rest)
  then have "p \<noteq> []" by auto
  then show ?case using 2 by simp
qed simp

declare grep_lines.simps [simp del]

text \<open>
  The outer loop: \<open>b\<close> holds the first \<open>m\<close> bytes of the buffer, the list what the calls of \<open>read\<close>
  return. It ends at the end of the input, an error (an empty result) or, when the buffer is full, as no byte is asked for.
\<close>

fun grep :: "byte list \<Rightarrow> byte list \<Rightarrow> byte list list \<Rightarrow> byte list" where
  "grep pat b [] = []"
| "grep pat b (chunk # reads) =
     (if chunk = [] then []
      else
        let (out, p) = grep_lines pat (b @ chunk)
        in out @ grep pat (if length p = length (b @ chunk) then [] else p) reads)"

subsection \<open>The language of a pattern\<close>

datatype atom = Chr byte | Any

fun atoms :: "atom \<Rightarrow> byte set" where
  "atoms (Chr c) = {c}"
| "atoms Any = UNIV"

definition atom_of :: "byte \<Rightarrow> atom" where
  "atom_of c = (if c = c_dot then Any else Chr c)"

datatype piece = One atom | Many atom | End

fun pieces :: "byte list \<Rightarrow> piece list" where
  "pieces [] = []"
| "pieces [c] = [if c = c_dollar then End else One (atom_of c)]"
| "pieces (c # d # re) = (if d = c_star then Many (atom_of c) # pieces re else One (atom_of c) # pieces (d # re))"

text \<open>The texts of which a prefix matches, or all of the text if the pattern ends in \<open>$\<close>.\<close>

fun lang :: "piece list \<Rightarrow> byte list set" where
  "lang [] = UNIV"
| "lang (One a # ps) = {t # ts | t ts. t \<in> atoms a \<and> ts \<in> lang ps}"
| "lang (Many a # ps) = {us @ ts | us ts. set us \<subseteq> atoms a \<and> ts \<in> lang ps}"
| "lang (End # ps) = {[]}"

lemma lang_Many_step:
  "tx \<in> lang (Many a # ps) \<longleftrightarrow> tx \<in> lang ps \<or> (\<exists>t ts. tx = t # ts \<and> t \<in> atoms a \<and> ts \<in> lang (Many a # ps))"
proof
  assume "tx \<in> lang (Many a # ps)"
  then obtain us ts where "tx = us @ ts" "set us \<subseteq> atoms a" "ts \<in> lang ps" by auto
  then show "tx \<in> lang ps \<or> (\<exists>t ts. tx = t # ts \<and> t \<in> atoms a \<and> ts \<in> lang (Many a # ps))"
    by (cases us) auto
next
  have "t # us @ ts \<in> lang (Many a # ps)" if "t \<in> atoms a" "set us \<subseteq> atoms a" "ts \<in> lang ps" for t us ts
    using that unfolding lang.simps by (intro CollectI exI [of _ "t # us"] exI [of _ ts]) auto
  moreover have "ts \<in> lang (Many a # ps)" if "ts \<in> lang ps" for ts
    using that unfolding lang.simps by (intro CollectI exI [of _ "[]"] exI [of _ ts]) auto
  moreover assume "tx \<in> lang ps \<or> (\<exists>t ts. tx = t # ts \<and> t \<in> atoms a \<and> ts \<in> lang (Many a # ps))"
  ultimately show "tx \<in> lang (Many a # ps)" by auto
qed

lemma atom_of_iff [simp]: "t \<in> atoms (atom_of c) \<longleftrightarrow> c = c_dot \<or> c = t"
  by (auto simp: atom_of_def)

lemma matchers:
  "matchhere re tx \<longleftrightarrow> tx \<in> lang (pieces re)"
  "matchstar c re tx \<longleftrightarrow> tx \<in> lang (Many (atom_of c) # pieces re)"
proof (induction re tx and c re tx rule: matchhere_matchstar.induct)
  case (1 re tx)
  note here = matchhere.simps [of re tx]
  show ?case
  proof (cases re rule: pieces.cases)
    case 1
    then show ?thesis by (simp add: matchhere.simps [of "[]"])
  next
    case (2 c)
    have "matchhere [] ts" for ts by (simp add: matchhere.simps [of "[]"])
    then show ?thesis unfolding here using 2 by (cases tx) auto
  next
    case (3 c d re1)
    show ?thesis
    proof (cases "d = c_star")
      case True
      then show ?thesis using "1.IH"(1) 3 unfolding here by simp
    next
      case False
      then have "matchhere (d # re1) ts \<longleftrightarrow> ts \<in> lang (pieces (d # re1))" if "tx = t # ts" "c = c_dot \<or> c = t" for t ts
        using "1.IH"(2) 3 that by simp
      then show ?thesis using 3 False unfolding here by (cases tx) auto
    qed
  qed
next
  case (2 c re tx)
  then show ?case
    unfolding matchstar.simps [of c re tx] lang_Many_step [of tx] by (auto simp del: lang.simps(3) split: list.splits)
qed

lemma match_from_iff: "match_from re tx \<longleftrightarrow> (\<exists>pre suf. tx = pre @ suf \<and> matchhere re suf)"
proof (induction tx)
  case Nil
  then show ?case by (simp add: match_from.simps [of re "[]"])
next
  case (Cons t ts)
  have "(\<exists>pre suf. t # ts = pre @ suf \<and> matchhere re suf) \<longleftrightarrow> matchhere re (t # ts) \<or> (\<exists>pre suf. ts = pre @ suf \<and> matchhere re suf)"
    by (auto simp: Cons_eq_append_conv)
  then show ?case using Cons by (simp add: match_from.simps [of re "t # ts"])
qed

text \<open>
  C21: the matcher decides the language of its pattern: an unanchored pattern matches a text exactly when a suffix
  of the text is in the language of the pattern, a pattern that starts with \<open>^\<close> when the text itself is in the
  language of the rest, where \<open>c*\<close> stands for any number of bytes \<open>c\<close>, a dot for any byte and a final
  \<open>$\<close> for the end of the text.
\<close>

theorem match_language:
  "match re tx \<longleftrightarrow>
    (case re of
       c # re1 \<Rightarrow>
         (if c = c_caret then tx \<in> lang (pieces re1) else (\<exists>pre suf. tx = pre @ suf \<and> suf \<in> lang (pieces re)))
     | [] \<Rightarrow> True)"
proof (cases re)
  case Nil
  then show ?thesis by (auto simp: match_def match_from_iff matchers intro: exI [of _ tx])
next
  case (Cons c re1)
  then show ?thesis by (simp add: match_def match_from_iff matchers)
qed

subsection \<open>Lines\<close>

text \<open>The complete lines of a text, and what follows the last of them.\<close>

function lines_of :: "byte list \<Rightarrow> byte list list" where
  "lines_of p = (if c_nl \<in> set p then takeWhile (\<lambda>b. b \<noteq> c_nl) p # lines_of (drop (length (takeWhile (\<lambda>b. b \<noteq> c_nl) p) + 1) p) else [])"
  by auto
termination
proof (relation "measure length", goal_cases)
  case (2 p)
  then have "p \<noteq> []" by auto
  then show ?case by simp
qed simp

function tail_of :: "byte list \<Rightarrow> byte list" where
  "tail_of p = (if c_nl \<in> set p then tail_of (drop (length (takeWhile (\<lambda>b. b \<noteq> c_nl) p) + 1) p) else p)"
  by auto
termination
proof (relation "measure length", goal_cases)
  case (2 p)
  then have "p \<noteq> []" by auto
  then show ?case by simp
qed simp

declare lines_of.simps [simp del] tail_of.simps [simp del]

lemma lines_line:
  assumes "c_nl \<notin> set l"
  shows "lines_of (l @ c_nl # r) = l # lines_of r" and "tail_of (l @ c_nl # r) = tail_of r"
proof -
  have "takeWhile (\<lambda>b. b \<noteq> c_nl) (l @ c_nl # r) = l" using assms by (simp add: takeWhile_append)
  then show "lines_of (l @ c_nl # r) = l # lines_of r" "tail_of (l @ c_nl # r) = tail_of r"
    unfolding lines_of.simps [of "l @ c_nl # r"] tail_of.simps [of "l @ c_nl # r"] by (simp_all add: One_nat_def)
qed

lemma lines_none: "c_nl \<notin> set l \<Longrightarrow> lines_of l = []" "c_nl \<notin> set l \<Longrightarrow> tail_of l = l"
  unfolding lines_of.simps [of l] tail_of.simps [of l] by simp_all

lemma split_nl:
  assumes "c_nl \<in> set p"
  obtains l r where "p = l @ c_nl # r" "c_nl \<notin> set l"
  using split_list_first [OF assms] by auto

lemma lines_append: "lines_of (p @ q) = lines_of p @ lines_of (tail_of p @ q) \<and> tail_of (p @ q) = tail_of (tail_of p @ q)"
proof (induction p rule: measure_induct_rule [of length])
  case (less p)
  show ?case
  proof (cases "c_nl \<in> set p")
    case True
    then obtain l r where "p = l @ c_nl # r" "c_nl \<notin> set l" by (rule split_nl)
    then show ?thesis using less.IH [of r] by (simp add: lines_line)
  qed (simp add: lines_none)
qed

lemma tail_props: "c_nl \<notin> set (tail_of p) \<and> (c_nl \<in> set p \<longrightarrow> length (tail_of p) < length p) \<and> set (tail_of p) \<subseteq> set p"
proof (induction p rule: measure_induct_rule [of length])
  case (less p)
  show ?case
  proof (cases "c_nl \<in> set p")
    case True
    then obtain l r where p: "p = l @ c_nl # r" "c_nl \<notin> set l" by (rule split_nl)
    then have "c_nl \<notin> set (tail_of r) \<and> length (tail_of r) \<le> length r \<and> set (tail_of r) \<subseteq> set r"
      using less.IH [of r] by (cases "c_nl \<in> set r") (auto simp: lines_none)
    then show ?thesis using p by (auto simp: lines_line)
  qed (simp add: lines_none)
qed

definition print_matches :: "byte list \<Rightarrow> byte list list \<Rightarrow> byte list" where
  "print_matches pat ls = concat (map (\<lambda>l. l @ [c_nl]) (filter (match pat) ls))"

lemma grep_lines_eq: "0 \<notin> set p \<Longrightarrow> grep_lines pat p = (print_matches pat (lines_of p), tail_of p)"
proof (induction p rule: measure_induct_rule [of length])
  case (less p)
  have t: "takeWhile (\<lambda>b. b \<noteq> 0) p = p" 
    by (rule takeWhile_eq_all_conv [THEN iffD2]) (use less.prems in auto)
  show ?case
  proof (cases "c_nl \<in> set p")
    case True
    then obtain l r where p: "p = l @ c_nl # r" "c_nl \<notin> set l" by (rule split_nl)
    then have l: "takeWhile (\<lambda>b. b \<noteq> c_nl) p = l" "drop (length l + 1) p = r" by (simp_all add: takeWhile_append One_nat_def)
    have IH: "grep_lines pat r = (print_matches pat (lines_of r), tail_of r)" using less.IH [of r] less.prems p by simp
    have "lines_of p = l # lines_of r" "tail_of p = tail_of r" using p by (simp_all add: lines_line)
    then show ?thesis using True unfolding grep_lines.simps [of pat p] t Let_def l IH by (simp add: print_matches_def)
  next
    case False
    then show ?thesis unfolding grep_lines.simps [of pat p] t by (simp add: lines_none print_matches_def)
  qed
qed

lemma grep_from:
  assumes "0 \<notin> set b" and "c_nl \<notin> set b" and "\<forall>c\<in>set reads. 0 \<notin> set c \<and> c_nl \<in> set c"
  shows "grep pat b reads = print_matches pat (lines_of (b @ concat reads))"
  using assms
proof (induction reads arbitrary: b)
  case Nil
  then show ?case by (simp add: lines_none print_matches_def)
next
  case (Cons c reads)
  have c: "c \<noteq> []" "c_nl \<in> set (b @ c)" "0 \<notin> set (b @ c)" using Cons.prems by auto
  have IH: "grep pat (tail_of (b @ c)) reads = print_matches pat (lines_of (tail_of (b @ c) @ concat reads))"
    by (rule Cons.IH) (use Cons.prems tail_props [of "b @ c"] in auto)
  have "length (tail_of (b @ c)) \<noteq> length (b @ c)" using tail_props [of "b @ c"] c(2) by auto
  then show ?case using c IH lines_append [of "b @ c" "concat reads"]
    by (simp add: grep_lines_eq [OF c(3)] print_matches_def)
qed

text \<open>
  C34: when the input has no NUL bytes and every call of \<open>read\<close> delivers the end of some line, \<open>grep\<close>
  writes exactly the complete lines of the input that the pattern matches, in order, however the input is cut into
  reads. (At a NUL byte \<open>strchr\<close> stops, and the lines behind it are not seen in that pass.)
\<close>

theorem grep_prints_matches:
  assumes "\<forall>c\<in>set reads. 0 \<notin> set c \<and> c_nl \<in> set c"
  shows "grep pat [] reads = concat (map (\<lambda>l. l @ [c_nl]) (filter (match pat) (lines_of (concat reads))))"
  using grep_from [of "[]"] assms by (simp add: print_matches_def)

text \<open>The lines \<open>ab\<close> and \<open>ca\<close>, read in two pieces, and the pattern \<open>b$\<close>.\<close>

theorem grep_prints_matches_witness: "grep [98, 36] [] [[97, 98, 10, 99], [97, 10]] = [97, 98, 10]"
proof -
  have l: "lines_of [97, 98, 10, 99, 97, 10] = [[97, 98], [99, 97]]"
    using lines_line(1) [of "[97, 98]" "[99, 97, 10]"] lines_line(1) [of "[99, 97]" "[]"] by (simp add: c_nl_def lines_none)
  have "match [98, 36] [97, 98]" "\<not> match [98, 36] [99, 97]"
    by code_simp+
  then show ?thesis using grep_prints_matches [of "[[97, 98, 10, 99], [97, 10]]" "[98, 36]"] l by (simp add: c_nl_def)
qed

text \<open>The bytes of a read that ends no line are forgotten.\<close>

lemma grep_forgets:
  assumes "chunk \<noteq> []" and "c_nl \<notin> set (b @ chunk)"
  shows "grep pat b (chunk # reads) = grep pat [] reads"
proof -
  have "c_nl \<notin> set (takeWhile (\<lambda>x. x \<noteq> 0) (b @ chunk))" using assms(2) by (metis set_takeWhileD)
  then have "grep_lines pat (b @ chunk) = ([], b @ chunk)" unfolding grep_lines.simps [of pat "b @ chunk"] by simp
  then show ?thesis using assms(1) by simp
qed

end
