(* ===== verification/Shell.thy ===== *)
theory Shell
  imports Sysfile
begin

text \<open>
  The command line parser of the shell (\<open>src/xv6/sh.c\<close>). The line is in a buffer, pointers into it are indices;
  \<open>es\<close> is the index of the terminating zero. A parsed command holds pointers to the start and the end of
  its words, and \<open>nulterminate\<close> writes zeros at the ends. The recursive descent carries fuel, and running out
  of it is a result of its own, so that termination is a theorem. \<open>malloc\<close> is taken not to fail.
\<close>

definition MAXARGS :: nat where "MAXARGS = 10"

datatype cmd =
    EXEC "(nat \<times> nat) list"
  | REDIR cmd nat nat u32 int
  | PIPE cmd cmd
  | LIST cmd cmd
  | BACK cmd

definition whitespace :: "byte list" where "whitespace = [32, 9, 13, 10, 11]"
definition symbols :: "byte list" where "symbols = [60, 124, 62, 38, 59, 40, 41]"

subsection \<open>Tokens\<close>

function skip_ws :: "byte list \<Rightarrow> nat \<Rightarrow> nat \<Rightarrow> nat" where
  "skip_ws b es s = (if s < es \<and> b ! s \<in> set whitespace then skip_ws b es (s + 1) else s)"
  by auto
termination by (relation "measure (\<lambda>(b, es, s). es - s)") auto

function word_end :: "byte list \<Rightarrow> nat \<Rightarrow> nat \<Rightarrow> nat" where
  "word_end b es s =
     (if s < es \<and> b ! s \<notin> set whitespace \<and> b ! s \<notin> set symbols then word_end b es (s + 1) else s)"
  by auto
termination by (relation "measure (\<lambda>(b, es, s). es - s)") auto

declare skip_ws.simps [simp del] word_end.simps [simp del]

text \<open>The kind of the token, its start, its end, and where the parser goes on.\<close>

definition gettoken :: "byte list \<Rightarrow> nat \<Rightarrow> nat \<Rightarrow> byte \<times> nat \<times> nat \<times> nat" where
  "gettoken b es s =
     (let s = skip_ws b es s; c = b ! s;
          (ret, e) =
            (if c = 0 then (c, s)
             else if c \<in> {124, 40, 41, 59, 38, 60} then (c, s + 1)
             else if c = 62 then (if b ! (s + 1) = 62 then (43, s + 2) else (c, s + 1))
             else (97, word_end b es s))
      in (ret, s, e, skip_ws b es e))"

definition peek :: "byte list \<Rightarrow> nat \<Rightarrow> nat \<Rightarrow> byte list \<Rightarrow> bool \<times> nat" where
  "peek b es s toks = (let s = skip_ws b es s in (b ! s \<noteq> 0 \<and> b ! s \<in> set toks, s))"

subsection \<open>Parsing\<close>

text \<open>A parse result: a command and the new position, a call of \<open>panic\<close>, or no fuel left.\<close>

datatype parse = Parsed cmd nat | Syntax string | Nofuel

definition pbind :: "parse \<Rightarrow> (cmd \<Rightarrow> nat \<Rightarrow> parse) \<Rightarrow> parse" where
  "pbind r f = (case r of Parsed c s \<Rightarrow> f c s | Syntax e \<Rightarrow> Syntax e | Nofuel \<Rightarrow> Nofuel)"

fun parseredirs :: "nat \<Rightarrow> byte list \<Rightarrow> nat \<Rightarrow> cmd \<Rightarrow> nat \<Rightarrow> parse" where
  "parseredirs 0 b es c s = Nofuel"
| "parseredirs (Suc n) b es c s =
     (let (p, s) = peek b es s [60, 62] in
      if p then
        let (tok, _, _, s) = gettoken b es s; (t, q, eq, s) = gettoken b es s
        in if t \<noteq> 97 then Syntax ''missing file for redirection''
           else parseredirs n b es
             (if tok = 60 then REDIR c q eq O_RDONLY 0
              else if tok = 62 then REDIR c q eq (O_WRONLY OR O_CREATE) 1
              else if tok = 43 then REDIR c q eq (O_WRONLY OR O_CREATE) 1 else c) s
      else Parsed c s)"

text \<open>Storing an argument in the \<open>execcmd\<close> under the redirections around it.\<close>

fun add_arg :: "nat \<times> nat \<Rightarrow> cmd \<Rightarrow> cmd" where
  "add_arg a (EXEC as) = EXEC (as @ [a])"
| "add_arg a (REDIR c q eq m fd) = REDIR (add_arg a c) q eq m fd"
| "add_arg a c = c"

fun parseargs :: "nat \<Rightarrow> byte list \<Rightarrow> nat \<Rightarrow> nat \<Rightarrow> cmd \<Rightarrow> nat \<Rightarrow> parse" where
  "parseargs 0 b es argc ret s = Nofuel"
| "parseargs (Suc n) b es argc ret s =
     (let (p, s) = peek b es s [124, 41, 38, 59] in
      if p then Parsed ret s
      else
        let (tok, q, eq, s) = gettoken b es s in
        if tok = 0 then Parsed ret s
        else if tok \<noteq> 97 then Syntax ''syntax''
        else
          let ret = add_arg (q, eq) ret; argc = argc + 1
          in if MAXARGS \<le> argc then Syntax ''too many args''
             else pbind (parseredirs n b es ret s) (\<lambda>ret s. parseargs n b es argc ret s))"

fun parsebacks :: "nat \<Rightarrow> byte list \<Rightarrow> nat \<Rightarrow> cmd \<Rightarrow> nat \<Rightarrow> parse" where
  "parsebacks 0 b es c s = Nofuel"
| "parsebacks (Suc n) b es c s =
     (let (p, s) = peek b es s [38] in
      if p then (let (_, _, _, s) = gettoken b es s in parsebacks n b es (BACK c) s) else Parsed c s)"

function parseline :: "nat \<Rightarrow> byte list \<Rightarrow> nat \<Rightarrow> nat \<Rightarrow> parse"
  and parsepipe :: "nat \<Rightarrow> byte list \<Rightarrow> nat \<Rightarrow> nat \<Rightarrow> parse"
  and parseexec :: "nat \<Rightarrow> byte list \<Rightarrow> nat \<Rightarrow> nat \<Rightarrow> parse"
  and parseblock :: "nat \<Rightarrow> byte list \<Rightarrow> nat \<Rightarrow> nat \<Rightarrow> parse" where
  "parseline 0 b es s = Nofuel"
| "parseline (Suc n) b es s =
     pbind (pbind (parsepipe n b es s) (\<lambda>c s. parsebacks n b es c s)) (\<lambda>c s.
       let (p, s) = peek b es s [59] in
       if p then
         let (_, _, _, s) = gettoken b es s
         in pbind (parseline n b es s) (\<lambda>d s. Parsed (LIST c d) s)
       else Parsed c s)"
| "parsepipe 0 b es s = Nofuel"
| "parsepipe (Suc n) b es s =
     pbind (parseexec n b es s) (\<lambda>c s.
       let (p, s) = peek b es s [124] in
       if p then
         let (_, _, _, s) = gettoken b es s
         in pbind (parsepipe n b es s) (\<lambda>d s. Parsed (PIPE c d) s)
       else Parsed c s)"
| "parseexec 0 b es s = Nofuel"
| "parseexec (Suc n) b es s =
     (let (p, s) = peek b es s [40] in
      if p then parseblock n b es s
      else pbind (parseredirs n b es (EXEC []) s) (\<lambda>ret s. parseargs n b es 0 ret s))"
| "parseblock 0 b es s = Nofuel"
| "parseblock (Suc n) b es s =
     (let (p, s) = peek b es s [40] in
      if \<not> p then Syntax ''parseblock''
      else
        let (_, _, _, s) = gettoken b es s
        in pbind (parseline n b es s) (\<lambda>c s.
             let (p, s) = peek b es s [41] in
             if \<not> p then Syntax ''syntax - missing )''
             else let (_, _, _, s) = gettoken b es s in parseredirs n b es c s))"
  by pat_completeness auto
termination
  by (relation "measure (\<lambda>x. case x of Inl (Inl (n, _)) \<Rightarrow> n | Inl (Inr (n, _)) \<Rightarrow> n | Inr (Inl (n, _)) \<Rightarrow> n | Inr (Inr (n, _)) \<Rightarrow> n)")
    simp_all

fun nulterminate :: "cmd \<Rightarrow> byte list \<Rightarrow> byte list" where
  "nulterminate (EXEC as) b = foldl (\<lambda>b (q, eq). b[eq := 0]) b as"
| "nulterminate (REDIR c q eq m fd) b = (nulterminate c b)[eq := 0]"
| "nulterminate (PIPE c d) b = nulterminate d (nulterminate c b)"
| "nulterminate (LIST c d) b = nulterminate d (nulterminate c b)"
| "nulterminate (BACK c) b = nulterminate c b"

text \<open>
  \<open>parsecmd\<close> gives the command and the buffer afterwards; \<open>es\<close> is \<open>s + strlen(s)\<close>.
\<close>

definition strlen_at :: "byte list \<Rightarrow> nat" where
  "strlen_at b = length (takeWhile (\<lambda>c. c \<noteq> 0) b)"

definition parsecmd :: "nat \<Rightarrow> byte list \<Rightarrow> parse \<times> byte list" where
  "parsecmd n b =
     (let es = strlen_at b in
      case parseline n b es 0 of
        Parsed c s \<Rightarrow>
          let (_, s) = peek b es s [] in
          if s \<noteq> es then (Syntax ''syntax'', b) else (Parsed c s, nulterminate c b)
      | r \<Rightarrow> (r, b))"

subsection \<open>What tokens are\<close>

definition line_ok :: "byte list \<Rightarrow> nat \<Rightarrow> bool" where
  "line_ok b es \<longleftrightarrow> es < length b \<and> b ! es = 0 \<and> (\<forall>i<es. b ! i \<noteq> 0)"

definition wordch :: "byte \<Rightarrow> bool" where
  "wordch c \<longleftrightarrow> c \<noteq> 0 \<and> c \<notin> set whitespace \<and> c \<notin> set symbols"

text \<open>A word of the line: a longest run of characters that are neither white space nor symbols.\<close>

definition tok_ok :: "byte list \<Rightarrow> nat \<Rightarrow> nat \<times> nat \<Rightarrow> bool" where
  "tok_ok b es a = (case a of (q, e) \<Rightarrow> q < e \<and> e \<le> es \<and> (\<forall>i. q \<le> i \<and> i < e \<longrightarrow> wordch (b ! i)) \<and> \<not> wordch (b ! e))"

lemma skip_ws_props:
  "s \<le> es \<Longrightarrow> s \<le> skip_ws b es s \<and> skip_ws b es s \<le> es \<and> (skip_ws b es s < es \<longrightarrow> b ! skip_ws b es s \<notin> set whitespace)"
proof (induction b es s rule: skip_ws.induct)
  case (1 b es s)
  show ?case
  proof (cases "s < es \<and> b ! s \<in> set whitespace")
    case True
    then have "skip_ws b es s = skip_ws b es (s + 1)" unfolding skip_ws.simps [of b es s] by (rule if_P)
    then show ?thesis using 1 True by simp
  next
    case False
    then have "skip_ws b es s = s" unfolding skip_ws.simps [of b es s] by (rule if_not_P)
    then show ?thesis using 1 False by auto
  qed
qed

lemma skip_ws_stay: "s < es \<Longrightarrow> b ! s \<notin> set whitespace \<Longrightarrow> skip_ws b es s = s" "skip_ws b es es = es"
  unfolding skip_ws.simps [of b es s] skip_ws.simps [of b es es] by simp_all

lemma word_end_props:
  "s \<le> es \<Longrightarrow> s \<le> word_end b es s \<and> word_end b es s \<le> es \<and>
    (\<forall>i. s \<le> i \<and> i < word_end b es s \<longrightarrow> b ! i \<notin> set whitespace \<and> b ! i \<notin> set symbols) \<and>
    (word_end b es s < es \<longrightarrow> b ! word_end b es s \<in> set whitespace \<or> b ! word_end b es s \<in> set symbols)"
proof (induction b es s rule: word_end.induct)
  case (1 b es s)
  show ?case
  proof (cases "s < es \<and> b ! s \<notin> set whitespace \<and> b ! s \<notin> set symbols")
    case True
    then have e: "word_end b es s = word_end b es (s + 1)" unfolding word_end.simps [of b es s] by (rule if_P)
    have IH: "s + 1 \<le> word_end b es (s + 1)" "word_end b es (s + 1) \<le> es"
      "\<And>i. s + 1 \<le> i \<Longrightarrow> i < word_end b es (s + 1) \<Longrightarrow> b ! i \<notin> set whitespace \<and> b ! i \<notin> set symbols"
      "word_end b es (s + 1) < es \<Longrightarrow> b ! word_end b es (s + 1) \<in> set whitespace \<or> b ! word_end b es (s + 1) \<in> set symbols"
      using "1.IH" [OF True] True by simp_all
    have "b ! i \<notin> set whitespace \<and> b ! i \<notin> set symbols" if "s \<le> i" "i < word_end b es (s + 1)" for i
      using that True IH(3) [of i] by (cases "i = s") auto
    then show ?thesis using IH(1,2,4) True unfolding e by (intro conjI allI impI) auto
  next
    case False
    then have "word_end b es s = s" unfolding word_end.simps [of b es s] by (rule if_not_P)
    then show ?thesis using "1.prems" False by (intro conjI allI impI) auto
  qed
qed

lemma symbols_cases: "c \<in> set symbols \<longleftrightarrow> c \<in> {124, 40, 41, 59, 38, 60} \<or> c = 62"
  by (auto simp: symbols_def)

lemma gettoken_props:
  assumes "line_ok b es" and "s \<le> es" and "gettoken b es s = (t, q, e, s')"
  shows "q = skip_ws b es s" and "s \<le> q \<and> q \<le> e \<and> e \<le> s' \<and> s' \<le> es" and "t \<noteq> 0 \<Longrightarrow> q < e" and "t = 97 \<Longrightarrow> tok_ok b es (q, e)"
    and "t = 0 \<longleftrightarrow> q = es"
proof -
  have q: "q = skip_ws b es s" using assms(3) by (auto simp: gettoken_def Let_def split: prod.splits)
  then show "q = skip_ws b es s" .
  note sk = skip_ws_props [OF assms(2), of b, folded q]
  have z: "b ! q = 0 \<longleftrightarrow> q = es" using sk assms(1) unfolding line_ok_def by (metis le_neq_implies_less)
  consider "b ! q = 0" "t = 0" "e = q" | "b ! q \<in> {124, 40, 41, 59, 38, 60}" "t = b ! q" "e = q + 1"
    | "b ! q = 62" "b ! (q + 1) = 62" "t = 43" "e = q + 2" | "b ! q = 62" "t = 62" "e = q + 1"
    | "b ! q \<noteq> 0" "b ! q \<notin> set symbols" "t = 97" "e = word_end b es q"
    using assms(3) q unfolding symbols_cases by (auto simp: gettoken_def Let_def split: prod.splits if_splits)
  then have m: "q \<le> e \<and> e \<le> es \<and> (t \<noteq> 0 \<longrightarrow> q < e) \<and> (t = 97 \<longrightarrow> tok_ok b es (q, e)) \<and> (t = 0 \<longleftrightarrow> q = es)"
  proof cases
    case 3
    then have "q \<noteq> es" using z by auto
    then have "q < es" using sk by simp
    moreover have "q + 1 \<noteq> es" using 3 assms(1) by (auto simp: line_ok_def)
    ultimately show ?thesis using 3 by auto
  next
    case 5
    then have lt: "q < es" using z sk by (metis le_neq_implies_less)
    then have "b ! q \<notin> set whitespace" using sk by blast
    then have "word_end b es q = word_end b es (q + 1)" using 5 lt unfolding word_end.simps [of b es q] by (simp only: if_True simp_thms)
    then have "q < e" using word_end_props [of "q + 1" es b] lt 5 by simp
    moreover have "\<not> wordch (b ! e)"
    proof (cases "e = es")
      case True
      then show ?thesis using assms(1) by (simp add: line_ok_def wordch_def)
    next
      case False
      then show ?thesis using word_end_props [of q es b] lt 5 by (auto simp: wordch_def)
    qed
    moreover have "wordch (b ! i)" if "q \<le> i" "i < e" for i
      using that word_end_props [of q es b] lt 5 assms(1) by (auto simp: wordch_def line_ok_def)
    ultimately show ?thesis using word_end_props [of q es b] lt 5 by (auto simp: tok_ok_def)
  next
    case 1
    then show ?thesis using z sk by auto
  next
    case 2
    then have "b ! q \<noteq> 0" by auto
    then have "q \<noteq> es" using z by blast
    then show ?thesis using 2 sk by auto
  next
    case 4
    then have "b ! q \<noteq> 0" by auto
    then have "q \<noteq> es" using z by blast
    then show ?thesis using 4 sk by auto
  qed
  moreover have "s' = skip_ws b es e" using assms(3) by (auto simp: gettoken_def Let_def split: prod.splits)
  ultimately show "s \<le> q \<and> q \<le> e \<and> e \<le> s' \<and> s' \<le> es" "t \<noteq> 0 \<Longrightarrow> q < e" "t = 97 \<Longrightarrow> tok_ok b es (q, e)" "t = 0 \<longleftrightarrow> q = es"
    using sk skip_ws_props [of e es b] by auto
qed

lemma peek_props:
  assumes "line_ok b es" and "s \<le> es" and "peek b es s toks = (p, s')"
  shows "s \<le> s' \<and> s' \<le> es" and "p \<Longrightarrow> s' < es" and "s' = skip_ws b es s" and "p \<longleftrightarrow> s' < es \<and> b ! s' \<in> set toks"
proof -
  have s: "s' = skip_ws b es s" "p \<longleftrightarrow> b ! s' \<noteq> 0 \<and> b ! s' \<in> set toks" using assms(3) by (auto simp: peek_def Let_def)
  then show "s' = skip_ws b es s" "s \<le> s' \<and> s' \<le> es" using skip_ws_props [OF assms(2), of b] by auto
  then have "b ! s' \<noteq> 0 \<longleftrightarrow> s' < es" using assms(1) unfolding line_ok_def by (metis le_neq_implies_less less_irrefl)
  then show "p \<Longrightarrow> s' < es" "p \<longleftrightarrow> s' < es \<and> b ! s' \<in> set toks" using s(2) by auto
qed

subsection \<open>Every line is parsed or rejected\<close>

text \<open>A command whose words are words of the line, with the modes and descriptors of the redirections.\<close>

fun wf_cmd :: "byte list \<Rightarrow> nat \<Rightarrow> cmd \<Rightarrow> bool" where
  "wf_cmd b es (EXEC as) \<longleftrightarrow> length as < MAXARGS \<and> (\<forall>a\<in>set as. tok_ok b es a)"
| "wf_cmd b es (REDIR c q e m fd) \<longleftrightarrow>
     wf_cmd b es c \<and> tok_ok b es (q, e) \<and> (m = O_RDONLY \<and> fd = 0 \<or> m = O_WRONLY OR O_CREATE \<and> fd = 1)"
| "wf_cmd b es (PIPE c d) \<longleftrightarrow> wf_cmd b es c \<and> wf_cmd b es d"
| "wf_cmd b es (LIST c d) \<longleftrightarrow> wf_cmd b es c \<and> wf_cmd b es d"
| "wf_cmd b es (BACK c) \<longleftrightarrow> wf_cmd b es c"

text \<open>The number of arguments of an \<open>execcmd\<close> under redirections.\<close>

fun nargs :: "cmd \<Rightarrow> nat option" where
  "nargs (EXEC as) = Some (length as)"
| "nargs (REDIR c q e m fd) = nargs c"
| "nargs c = None"

lemma add_arg_ok:
  "nargs c = Some k \<Longrightarrow> nargs (add_arg a c) = Some (Suc k)"
  "nargs c = Some k \<Longrightarrow> Suc k < MAXARGS \<Longrightarrow> wf_cmd b es c \<Longrightarrow> tok_ok b es a \<Longrightarrow> wf_cmd b es (add_arg a c)"
  by (induction c) auto

text \<open>The result of a parser started at \<open>s\<close>: it goes forward, and a command satisfies \<open>Q\<close>.\<close>

definition fits :: "(cmd \<Rightarrow> bool) \<Rightarrow> nat \<Rightarrow> nat \<Rightarrow> parse \<Rightarrow> bool" where
  "fits Q es s r = (case r of Parsed c s' \<Rightarrow> s \<le> s' \<and> s' \<le> es \<and> Q c | Syntax e \<Rightarrow> True | Nofuel \<Rightarrow> False)"

lemma fits_simps [simp]: "fits Q es s (Parsed c s') \<longleftrightarrow> s \<le> s' \<and> s' \<le> es \<and> Q c" "fits Q es s (Syntax e)" "\<not> fits Q es s Nofuel"
  by (simp_all add: fits_def)

lemma pbind_simps [simp]: "pbind (Parsed c s) f = f c s" "pbind (Syntax e) f = Syntax e" "pbind Nofuel f = Nofuel"
  by (simp_all add: pbind_def)

lemma fits_later: "fits Q es s' r \<Longrightarrow> s \<le> s' \<Longrightarrow> fits Q es s r"
  by (cases r) auto

lemma fits_bind: "fits P es s r \<Longrightarrow> (\<And>c s'. s \<le> s' \<Longrightarrow> s' \<le> es \<Longrightarrow> P c \<Longrightarrow> fits Q es s (f c s')) \<Longrightarrow> fits Q es s (pbind r f)"
  by (cases r) auto

text \<open>Reading the token that \<open>peek\<close> has found.\<close>

lemma peek_token:
  assumes "line_ok b es" and "s \<le> es" and "peek b es s toks = (p, s1)" and "p" and "gettoken b es s1 = (t, q, e, s2)"
  shows "q = s1" and "s \<le> s1" and "s1 < s2" and "s2 \<le> es" and "b ! s1 \<in> set toks"
proof -
  note P = peek_props [OF assms(1-3)]
  have s1: "s1 < es" "b ! s1 \<in> set toks" using P(4) assms(4) by auto
  note G = gettoken_props [OF assms(1) less_imp_le [OF s1(1)] assms(5)]
  have "b ! s1 \<notin> set whitespace" using skip_ws_props [OF assms(2), of b] P(3) s1(1) by blast
  then show q: "q = s1" using G(1) skip_ws_stay(1) s1(1) by simp
  then have "t \<noteq> 0" using G(5) s1(1) by simp
  then show "s1 < s2" "s2 \<le> es" "b ! s1 \<in> set toks" "s \<le> s1" using G(2,3) q s1 P(1) by auto
qed

lemma redir_token:
  assumes "gettoken b es s = (t, q, e, s')" and "b ! q \<in> {60, 62}"
  shows "t = 60 \<or> t = 62 \<or> t = 43"
proof -
  have "q = skip_ws b es s" using assms(1) by (auto simp: gettoken_def Let_def split: prod.splits)
  then show ?thesis using assms by (auto simp: gettoken_def Let_def split: if_splits)
qed

lemma fits_redirs:
  assumes "line_ok b es"
  shows "s \<le> es \<Longrightarrow> wf_cmd b es c \<Longrightarrow> nargs c = k \<Longrightarrow> es - s < n \<Longrightarrow>
    fits (\<lambda>c. wf_cmd b es c \<and> nargs c = k) es s (parseredirs n b es c s)"
proof (induction n arbitrary: c s)
  case (Suc n)
  obtain p s1 where p: "peek b es s [60, 62] = (p, s1)" by fastforce
  show ?case
  proof (cases p)
    case True
    obtain t q e s2 where t: "gettoken b es s1 = (t, q, e, s2)" by (metis prod_cases4)
    obtain t' q' e' s3 where t': "gettoken b es s2 = (t', q', e', s3)" by (metis prod_cases4)
    note T = peek_token [OF assms Suc.prems(1) p True t]
    note H = gettoken_props [OF assms T(4) t']
    have k: "t = 60 \<or> t = 62 \<or> t = 43" using redir_token [OF t] T(1,5) by simp
    define d where "d = (if t = 60 then REDIR c q' e' O_RDONLY 0
              else if t = 62 then REDIR c q' e' (O_WRONLY OR O_CREATE) 1
              else if t = 43 then REDIR c q' e' (O_WRONLY OR O_CREATE) 1 else c)"
    have r: "parseredirs (Suc n) b es c s = (if t' \<noteq> 97 then Syntax ''missing file for redirection'' else parseredirs n b es d s3)"
      using p t t' True unfolding d_def by simp
    have "fits (\<lambda>c. wf_cmd b es c \<and> nargs c = k) es s3 (parseredirs n b es d s3)" if "t' = 97"
    proof (rule Suc.IH)
      show "s3 \<le> es" "es - s3 < n" using H(2) T(2,3) Suc.prems by auto
      show "wf_cmd b es d" "nargs d = k" using H(4) [OF that] k Suc.prems unfolding d_def by auto
    qed
    then show ?thesis unfolding r using H(2) T(2,3) by (auto intro: fits_later)
  next
    case False
    then show ?thesis using p peek_props(1) [OF assms Suc.prems(1) p] Suc.prems by simp
  qed
qed simp

lemma fits_args:
  assumes "line_ok b es"
  shows "s \<le> es \<Longrightarrow> wf_cmd b es c \<Longrightarrow> nargs c = Some k \<Longrightarrow> es - s < n \<Longrightarrow>
    fits (wf_cmd b es) es s (parseargs n b es k c s)"
proof (induction n arbitrary: c k s)
  case (Suc n)
  obtain p s1 where p: "peek b es s [124, 41, 38, 59] = (p, s1)" by fastforce
  note P = peek_props [OF assms Suc.prems(1) p]
  obtain t q e s2 where t: "gettoken b es s1 = (t, q, e, s2)" by (metis prod_cases4)
  have s1: "s1 \<le> es" using P(1) by simp
  note G = gettoken_props [OF assms s1 t]
  have G2: "s1 \<le> s2" "s2 \<le> es" using G(2) by auto
  consider "p" | "\<not> p" "t = 0" | "\<not> p" "t \<noteq> 0" "t \<noteq> 97" | "\<not> p" "t = 97" "MAXARGS \<le> k + 1" | "\<not> p" "t = 97" "k + 1 < MAXARGS"
    by linarith
  then show ?case
  proof cases
    case 5
    have a: "tok_ok b es (q, e)" "s1 < s2" using G(2,3,4) 5 by auto
    have c: "wf_cmd b es (add_arg (q, e) c)" "nargs (add_arg (q, e) c) = Some (k + 1)"
      using add_arg_ok [OF Suc.prems(3)] Suc.prems(2) a 5 by auto
    have n: "es - s2 < n" using a(2) P(1) G2 Suc.prems(4) by linarith
    have "fits (wf_cmd b es) es s2 (pbind (parseredirs n b es (add_arg (q, e) c) s2) (\<lambda>ret s. parseargs n b es (k + 1) ret s))"
    proof (rule fits_bind [OF fits_redirs [OF assms G2(2) c n]])
      fix d s'
      assume a: "s2 \<le> s'" "s' \<le> es" "wf_cmd b es d \<and> nargs d = Some (k + 1)"
      then have "es - s' < n" using n by linarith
      then show "fits (wf_cmd b es) es s2 (parseargs n b es (k + 1) d s')"
        using Suc.IH [of s' d "k + 1"] a by (auto intro: fits_later)
    qed
    then show ?thesis using 5 p t P(1) G2 by (auto simp: Let_def intro: fits_later)
  qed (use p t P(1) G2 Suc.prems in \<open>auto simp: Let_def\<close>)
qed simp

lemma fits_backs:
  assumes "line_ok b es"
  shows "s \<le> es \<Longrightarrow> wf_cmd b es c \<Longrightarrow> es - s < n \<Longrightarrow> fits (wf_cmd b es) es s (parsebacks n b es c s)"
proof (induction n arbitrary: c s)
  case (Suc n)
  obtain p s1 where p: "peek b es s [38] = (p, s1)" by fastforce
  show ?case
  proof (cases p)
    case True
    obtain t q e s2 where t: "gettoken b es s1 = (t, q, e, s2)" by (metis prod_cases4)
    note T = peek_token [OF assms Suc.prems(1) p True t]
    have "fits (wf_cmd b es) es s2 (parsebacks n b es (BACK c) s2)"
      by (rule Suc.IH) (use T Suc.prems in auto)
    then show ?thesis using p t True T by (auto intro: fits_later)
  next
    case False
    then show ?thesis using p peek_props(1) [OF assms Suc.prems(1) p] Suc.prems by simp
  qed
qed simp

text \<open>The recursive descent, with the fuel each parser needs from position \<open>s\<close>.\<close>

lemma fits_parse:
  assumes L: "line_ok b es"
  shows "s \<le> es \<Longrightarrow>
    (4 * (es - s) + 4 \<le> n \<longrightarrow> fits (wf_cmd b es) es s (parseline n b es s)) \<and>
    (4 * (es - s) + 3 \<le> n \<longrightarrow> fits (wf_cmd b es) es s (parsepipe n b es s)) \<and>
    (4 * (es - s) + 2 \<le> n \<longrightarrow> fits (wf_cmd b es) es s (parseexec n b es s)) \<and>
    (4 * (es - s) + 1 \<le> n \<longrightarrow> fits (wf_cmd b es) es s (parseblock n b es s))"
proof (induction n arbitrary: s)
  case (Suc n)
  let ?W = "wf_cmd b es"
  have IH: "4 * (es - s') + 4 \<le> n \<Longrightarrow> fits ?W es s' (parseline n b es s')"
    "4 * (es - s') + 3 \<le> n \<Longrightarrow> fits ?W es s' (parsepipe n b es s')"
    "4 * (es - s') + 2 \<le> n \<Longrightarrow> fits ?W es s' (parseexec n b es s')"
    "4 * (es - s') + 1 \<le> n \<Longrightarrow> fits ?W es s' (parseblock n b es s')" if "s' \<le> es" for s'
    using Suc.IH [OF that] by blast+
  have binary: "fits ?W es s (let (p, s) = peek b es s' [x] in if p then
         let (_, _, _, s) = gettoken b es s in pbind (g s) (\<lambda>d s. Parsed (op c d) s) else Parsed c s)"
    if "s \<le> s'" "s' \<le> es" "?W c" "\<And>d. ?W d \<Longrightarrow> ?W (op c d)" "\<And>u. s' < u \<Longrightarrow> u \<le> es \<Longrightarrow> fits ?W es u (g u)" for s' x g op c
  proof -
    obtain p s1 where p: "peek b es s' [x] = (p, s1)" by fastforce
    obtain t q e s2 where t: "gettoken b es s1 = (t, q, e, s2)" by (metis prod_cases4)
    show ?thesis
    proof (cases p)
      case True
      note T = peek_token [OF L that(2) p True t]
      have "fits ?W es s2 (pbind (g s2) (\<lambda>d s. Parsed (op c d) s))"
        by (rule fits_bind [OF that(5)]) (use T that(4) in auto)
      then show ?thesis using True p t T(2,3) that(1) by (auto intro: fits_later)
    next
      case False
      then show ?thesis using p that peek_props(1) [OF L that(2) p] by simp
    qed
  qed
  have line: "fits ?W es s (parseline (Suc n) b es s)" if "4 * (es - s) + 4 \<le> Suc n"
  proof -
    have "fits ?W es s (pbind (parsepipe n b es s) (\<lambda>c s. parsebacks n b es c s))"
      by (rule fits_bind [OF IH(2) [OF Suc.prems]]) (use that in \<open>auto intro!: fits_later [OF fits_backs [OF L]]\<close>)
    then show ?thesis unfolding parseline.simps
      by (rule fits_bind) (rule binary, use that IH(1) in auto)
  qed
  have pipe: "fits ?W es s (parsepipe (Suc n) b es s)" if "4 * (es - s) + 3 \<le> Suc n"
    unfolding parsepipe.simps
    by (rule fits_bind [OF IH(3) [OF Suc.prems]]) (use that in simp, rule binary, use that IH(2) in auto)
  have exec: "fits ?W es s (parseexec (Suc n) b es s)" if "4 * (es - s) + 2 \<le> Suc n"
  proof -
    obtain p s1 where p: "peek b es s [40] = (p, s1)" by fastforce
    note P = peek_props(1) [OF L Suc.prems p]
    have "fits ?W es s1 (pbind (parseredirs n b es (EXEC []) s1) (\<lambda>ret s. parseargs n b es 0 ret s))"
    proof (rule fits_bind [OF fits_redirs [OF L, of _ _ "Some 0"]])
      fix c s'
      assume "s1 \<le> s'" "s' \<le> es" "?W c \<and> nargs c = Some 0"
      then show "fits ?W es s1 (parseargs n b es 0 c s')"
        using P that by (auto intro!: fits_later [OF fits_args [OF L]])
    qed (use P that in \<open>auto simp: MAXARGS_def\<close>)
    moreover have "fits ?W es s1 (parseblock n b es s1)" by (rule IH(4)) (use P that in auto)
    ultimately show ?thesis using p P by (auto intro: fits_later)
  qed
  have block: "fits ?W es s (parseblock (Suc n) b es s)" if "4 * (es - s) + 1 \<le> Suc n"
  proof -
    obtain p s1 where p: "peek b es s [40] = (p, s1)" by fastforce
    obtain t q e s2 where t: "gettoken b es s1 = (t, q, e, s2)" by (metis prod_cases4)
    show ?thesis
    proof (cases p)
      case True
      note T = peek_token [OF L Suc.prems p True t]
      have "fits ?W es s2 (parseline n b es s2)" by (rule IH(1)) (use T that in auto)
      then have "fits ?W es s2 (pbind (parseline n b es s2) (\<lambda>c s.
             let (p, s) = peek b es s [41] in
             if \<not> p then Syntax ''syntax - missing )''
             else let (_, _, _, s) = gettoken b es s in parseredirs n b es c s))"
      proof (rule fits_bind)
        fix c s3
        assume s3: "s2 \<le> s3" "s3 \<le> es" "?W c"
        obtain p' s4 where p': "peek b es s3 [41] = (p', s4)" by fastforce
        obtain t' q' e' s5 where t': "gettoken b es s4 = (t', q', e', s5)" by (metis prod_cases4)
        have "fits ?W es s2 (parseredirs n b es c s5)" if p'
        proof -
          note U = peek_token [OF L s3(2) p' that t']
          have "fits (\<lambda>d. ?W d \<and> nargs d = nargs c) es s5 (parseredirs n b es c s5)"
            by (rule fits_redirs [OF L U(4) s3(3) refl]) (use U T s3 \<open>4 * (es - s) + 1 \<le> Suc n\<close> in linarith)
          then show ?thesis using U s3 by (cases "parseredirs n b es c s5") auto
        qed
        then show "fits ?W es s2 (let (p, s) = peek b es s3 [41] in
             if \<not> p then Syntax ''syntax - missing )''
             else let (_, _, _, s) = gettoken b es s in parseredirs n b es c s)"
          using p' t' by auto
      qed
      then show ?thesis using p t True T by (auto intro: fits_later)
    qed (use p in simp)
  qed
  show ?case using line pipe exec block by blast
qed simp

lemma strlen_line:
  assumes "0 \<in> set b"
  shows "line_ok b (strlen_at b)"
proof -
  have "strlen_at b < length b" using assms
    unfolding strlen_at_def by (metis (mono_tags, lifting) length_takeWhile_le nat_less_le set_takeWhileD takeWhile_eq_take take_all_iff)
  moreover have "b ! strlen_at b = 0" using nth_length_takeWhile [of "\<lambda>c. c \<noteq> 0" b] calculation by (simp add: strlen_at_def)
  moreover have "b ! i \<noteq> 0" if "i < strlen_at b" for i
    using that takeWhile_nth [of i "\<lambda>c. c \<noteq> 0" b] nth_mem [of i "takeWhile (\<lambda>c. c \<noteq> 0) b"] set_takeWhileD
    unfolding strlen_at_def by metis
  ultimately show ?thesis by (simp add: line_ok_def)
qed

lemma parsecmd_result:
  assumes "0 \<in> set b" and "4 * strlen_at b + 4 \<le> n"
  shows "case parsecmd n b of
      (Parsed c s, b') \<Rightarrow> s = strlen_at b \<and> wf_cmd b (strlen_at b) c \<and> b' = nulterminate c b
    | (Syntax e, b') \<Rightarrow> b' = b | (Nofuel, _) \<Rightarrow> False"
proof -
  note L = strlen_line [OF assms(1)]
  have "fits (wf_cmd b (strlen_at b)) (strlen_at b) 0 (parseline n b (strlen_at b) 0)"
    using fits_parse [OF L, of 0 n] assms(2) by simp
  then show ?thesis by (cases "parseline n b (strlen_at b) 0") (auto simp: parsecmd_def Let_def split: prod.splits)
qed

text \<open>
  C19: the parser of the shell terminates on every input line: with fuel for four calls per character it
  never runs out, and either panics with a syntax error or returns a command.
\<close>

theorem parsecmd_terminates:
  assumes "0 \<in> set b" and "4 * strlen_at b + 4 \<le> n"
  shows "(\<exists>e. parsecmd n b = (Syntax e, b)) \<or> (\<exists>c s b'. parsecmd n b = (Parsed c s, b'))"
proof -
  obtain r b' where r: "parsecmd n b = (r, b')" by fastforce
  show ?thesis using parsecmd_result [OF assms] unfolding r by (cases r) auto
qed

text \<open>The unfinished line \<open>(a\<close>, and the line \<open>a >b\<close>.\<close>

lemma ex_line: "parsecmd 12 [40, 97, 0] = (Syntax ''syntax - missing )'', [40, 97, 0])"
  by code_simp

lemma ex_line2: "parsecmd 24 [97, 32, 62, 98, 10, 0] = (Parsed (REDIR (EXEC [(0, 1)]) 3 4 (O_WRONLY OR O_CREATE) 1) 5, [97, 0, 62, 98, 0, 0])"
  by code_simp

theorem parsecmd_terminates_witness:
  "parsecmd 12 [40, 97, 0] = (Syntax ''syntax - missing )'', [40, 97, 0])"
proof -
  have "\<not> (\<exists>c s b'. parsecmd 12 [40, 97, 0] = (Parsed c s, b'))" and
    e: "parsecmd 12 [40, 97, 0] = (Syntax e, [40, 97, 0]) \<Longrightarrow> e = ''syntax - missing )''" for e
    by (auto simp: ex_line)
  moreover have "strlen_at [40, 97, 0] = 2" by (simp add: strlen_at_def)
  ultimately show ?thesis using parsecmd_terminates [of "[40, 97, 0]" 12] by auto
qed

subsection \<open>The strings of a command\<close>

datatype scmd =
    SExec "byte list list"
  | SRedir scmd "byte list" u32 int
  | SPipe scmd scmd
  | SList scmd scmd
  | SBack scmd

text \<open>A command with the strings its pointers stand for.\<close>

fun resolve :: "(nat \<times> nat \<Rightarrow> byte list) \<Rightarrow> cmd \<Rightarrow> scmd" where
  "resolve f (EXEC as) = SExec (map f as)"
| "resolve f (REDIR c q e m fd) = SRedir (resolve f c) (f (q, e)) m fd"
| "resolve f (PIPE c d) = SPipe (resolve f c) (resolve f d)"
| "resolve f (LIST c d) = SList (resolve f c) (resolve f d)"
| "resolve f (BACK c) = SBack (resolve f c)"

fun toks :: "cmd \<Rightarrow> (nat \<times> nat) set" where
  "toks (EXEC as) = set as"
| "toks (REDIR c q e m fd) = insert (q, e) (toks c)"
| "toks (PIPE c d) = toks c \<union> toks d"
| "toks (LIST c d) = toks c \<union> toks d"
| "toks (BACK c) = toks c"

lemma resolve_cong: "(\<And>a. a \<in> toks c \<Longrightarrow> f a = g a) \<Longrightarrow> resolve f c = resolve g c"
  by (induction c) auto

lemma wf_toks: "wf_cmd b es c \<Longrightarrow> a \<in> toks c \<Longrightarrow> tok_ok b es a"
  by (induction c) auto

definition word_at :: "byte list \<Rightarrow> nat \<times> nat \<Rightarrow> byte list" where
  "word_at b a = slice b (fst a) (snd a - fst a)"

definition cstr_at :: "byte list \<Rightarrow> nat \<times> nat \<Rightarrow> byte list" where
  "cstr_at b a = takeWhile (\<lambda>c. c \<noteq> 0) (drop (fst a) b)"

lemma nth_upd: "i < length b \<Longrightarrow> b[e := x] ! i = (if i = e then x else b ! i)"
  by auto

lemma nul_args:
  "length (foldl (\<lambda>b (q, eq). b[eq := 0]) b as) = length b"
  "i < length b \<Longrightarrow> foldl (\<lambda>b (q, eq). b[eq := 0]) b as ! i = (if \<exists>q. (q, i) \<in> set as then 0 else b ! i)"
  by (induction as arbitrary: b) (auto simp: nth_upd)

lemma nulterminate_length [simp]: "length (nulterminate c b) = length b"
  by (induction c b rule: nulterminate.induct) (auto simp: nul_args)

lemma nulterminate_nth: "i < length b \<Longrightarrow> nulterminate c b ! i = (if \<exists>q. (q, i) \<in> toks c then 0 else b ! i)"
  by (induction c b rule: nulterminate.induct) (auto simp: nul_args nth_upd)

lemma nulterminate_strings:
  assumes "line_ok b es" and "wf_cmd b es c"
  shows "resolve (cstr_at (nulterminate c b)) c = resolve (word_at b) c"
proof (rule resolve_cong)
  fix a
  assume a: "a \<in> toks c"
  obtain q e where qe: "a = (q, e)" by fastforce
  have t: "q < e" "e \<le> es" "\<And>i. q \<le> i \<Longrightarrow> i < e \<Longrightarrow> wordch (b ! i)"
    using wf_toks [OF assms(2) a] by (auto simp: tok_ok_def qe)
  have len: "es < length b" using assms(1) by (simp add: line_ok_def)
  have ends: "\<not> wordch (b ! e')" if "(q', e') \<in> toks c" for q' e'
    using that wf_toks [OF assms(2)] by (auto simp: tok_ok_def)
  let ?b = "nulterminate c b"
  have in1: "?b ! i = b ! i" "b ! i \<noteq> 0" if "q \<le> i" "i < e" for i
  proof -
    have "wordch (b ! i)" "i < length b" using t that len by auto
    then show "?b ! i = b ! i" "b ! i \<noteq> 0" using ends nulterminate_nth by (auto simp: wordch_def)
  qed
  have z: "?b ! e = 0" using nulterminate_nth [of e b c] t(2) len a qe by auto
  have d: "drop q ?b = word_at b a @ 0 # drop (Suc e) ?b"
  proof (rule nth_equalityI)
    show "length (drop q ?b) = length (word_at b a @ 0 # drop (Suc e) ?b)"
      using t len by (simp add: word_at_def slice_def qe)
    fix i
    assume i: "i < length (drop q ?b)"
    then show "drop q ?b ! i = (word_at b a @ 0 # drop (Suc e) ?b) ! i"
      using t len z in1 [of "q + i"]
      by (cases "q + i < e"; cases "q + i = e") (auto simp: word_at_def slice_def qe nth_append nth_Cons' add.commute)
  qed
  have "0 \<notin> set (word_at b a)"
    using in1(2) t len by (auto simp: word_at_def slice_def qe in_set_conv_nth)
  then have "takeWhile (\<lambda>c. c \<noteq> 0) (word_at b a @ 0 # drop (Suc e) ?b) = word_at b a"
    by (subst takeWhile_append2) auto
  then show "cstr_at ?b a = word_at b a" unfolding cstr_at_def using d qe by simp
qed

text \<open>
  C20: a command the parser returns is well formed: fewer than \<open>MAXARGS\<close> arguments, every argument
  and file name a longest run of word characters inside the line, every redirection opened for reading on descriptor
  0 or for writing on descriptor 1; and once \<open>nulterminate\<close> has written its zeros, each pointer reads as
  exactly that word.
\<close>

theorem parsecmd_well_formed:
  assumes "0 \<in> set b" and "4 * strlen_at b + 4 \<le> n" and "parsecmd n b = (Parsed c s, b')"
  shows "wf_cmd b (strlen_at b) c \<and> resolve (cstr_at b') c = resolve (word_at b) c"
  using parsecmd_result [OF assms(1,2)] assms(3) nulterminate_strings [OF strlen_line [OF assms(1)]] by auto

theorem parsecmd_well_formed_witness:
  "wf_cmd [97, 32, 62, 98, 10, 0] 5 (REDIR (EXEC [(0, 1)]) 3 4 (O_WRONLY OR O_CREATE) 1) \<and>
   resolve (cstr_at [97, 0, 62, 98, 0, 0]) (REDIR (EXEC [(0, 1)]) 3 4 (O_WRONLY OR O_CREATE) 1) =
     SRedir (SExec [[97]]) [98] (O_WRONLY OR O_CREATE) 1"
proof -
  have "strlen_at [97, 32, 62, 98, 10, 0] = 5" by (simp add: strlen_at_def)
  then show ?thesis using parsecmd_well_formed [of "[97, 32, 62, 98, 10, 0]" 24, OF _ _ ex_line2]
    by (simp add: word_at_def slice_def One_nat_def)
qed

subsection \<open>Running\<close>

text \<open>
  The calls \<open>runcmd\<close> makes, in order, as long as they return; \<open>exec\<close> of a program that can be loaded
  and \<open>exit\<close> do not.
\<close>

datatype act = AExec "byte list list" | AClose int | AOpen "byte list" u32 | AMsg string | AExit

fun runcmd :: "scmd \<Rightarrow> act list" where
  "runcmd (SExec argv) = (if argv = [] then [AExit] else [AExec argv, AExit])"
| "runcmd (SRedir c f m fd) = [AClose fd, AOpen f m] @ runcmd c"
| "runcmd (SList c d) = AMsg ''list not implemented'' # runcmd c"
| "runcmd (SPipe c d) = AMsg ''pipe not implemented'' # runcmd c"
| "runcmd (SBack c) = AMsg ''background not implemented'' # runcmd c"

lemma runcmd_exits: "last (runcmd c) = AExit" "AExit \<notin> set (butlast (runcmd c))"
proof -
  have n: "runcmd c \<noteq> []" for c by (induction c) auto
  show "last (runcmd c) = AExit" by (induction c) (auto simp: n)
  show "AExit \<notin> set (butlast (runcmd c))" by (induction c) (auto simp: n)
qed

end
