(* ===== verification/Shell_Print.thy ===== *)
theory Shell_Print
  imports Shell
begin

text \<open>
  Printing commands, and that the parser of the shell reads back what is printed. The text is a sequence of tokens
  with a space after each; a command is put in parentheses where the grammar needs it.
\<close>

datatype tk = Sym byte | Word "byte list"

fun tk_text :: "tk \<Rightarrow> byte list" where
  "tk_text (Sym c) = [c, 32]"
| "tk_text (Word w) = w @ [32]"

definition text_of :: "tk list \<Rightarrow> byte list" where
  "text_of ts = concat (map tk_text ts)"

definition paren :: "bool \<Rightarrow> tk list \<Rightarrow> tk list" where
  "paren p ts = (if p then [Sym 40] @ ts @ [Sym 41] else ts)"

definition redir_tks :: "byte list \<times> u32 \<times> int \<Rightarrow> tk list" where
  "redir_tks r = (case r of (f, m, fd) \<Rightarrow> [Sym (if m = O_RDONLY then 60 else 62), Word f])"

text \<open>Level 0 is a line, 1 one command of a line, 2 a pipeline, 3 a part of a pipeline.\<close>

fun print :: "scmd \<Rightarrow> nat \<Rightarrow> tk list" where
  "print (SExec ws) lv = map Word ws"
| "print (SRedir c f m fd) lv = print c 3 @ redir_tks (f, m, fd)"
| "print (SPipe c d) lv = paren (2 < lv) (print c 3 @ [Sym 124] @ print d 2)"
| "print (SBack c) lv = paren (1 < lv) (print c 1 @ [Sym 38])"
| "print (SList c d) lv = paren (0 < lv) (print c 1 @ [Sym 59] @ print d 0)"

definition word_ok :: "byte list \<Rightarrow> bool" where
  "word_ok w \<longleftrightarrow> w \<noteq> [] \<and> (\<forall>c\<in>set w. wordch c)"

definition redir_ok :: "byte list \<times> u32 \<times> int \<Rightarrow> bool" where
  "redir_ok r = (case r of (f, m, fd) \<Rightarrow> word_ok f \<and> (m = O_RDONLY \<and> fd = 0 \<or> m = O_WRONLY OR O_CREATE \<and> fd = 1))"

fun wf_scmd :: "scmd \<Rightarrow> bool" where
  "wf_scmd (SExec ws) \<longleftrightarrow> length ws < MAXARGS \<and> (\<forall>w\<in>set ws. word_ok w)"
| "wf_scmd (SRedir c f m fd) \<longleftrightarrow> wf_scmd c \<and> redir_ok (f, m, fd)"
| "wf_scmd (SPipe c d) \<longleftrightarrow> wf_scmd c \<and> wf_scmd d"
| "wf_scmd (SBack c) \<longleftrightarrow> wf_scmd c"
| "wf_scmd (SList c d) \<longleftrightarrow> wf_scmd c \<and> wf_scmd d"

subsection \<open>Tokens in the buffer\<close>

fun tk_ok :: "tk \<Rightarrow> bool" where
  "tk_ok (Sym c) \<longleftrightarrow> c \<in> set symbols"
| "tk_ok (Word w) \<longleftrightarrow> word_ok w"

text \<open>The tokens \<open>ts\<close> are what is left of the line from \<open>s\<close> on.\<close>

definition reads :: "byte list \<Rightarrow> nat \<Rightarrow> nat \<Rightarrow> tk list \<Rightarrow> bool" where
  "reads b es s ts \<longleftrightarrow> line_ok b es \<and> s \<le> es \<and> slice b s (es - s) = text_of ts \<and> (\<forall>t\<in>set ts. tk_ok t)"

lemma reads_len:
  assumes "reads b es s ts"
  shows "es - s = length (text_of ts)" and "s \<le> es" and "line_ok b es"
proof -
  show s: "s \<le> es" "line_ok b es" using assms by (simp_all add: reads_def)
  then have "length (slice b s (es - s)) = es - s" by (simp add: line_ok_def)
  then show "es - s = length (text_of ts)" using assms by (simp add: reads_def)
qed

lemma text_of_simps [simp]: "text_of [] = []" "text_of (t # ts) = tk_text t @ text_of ts" "text_of (ts @ us) = text_of ts @ text_of us"
  by (simp_all add: text_of_def)

lemma reads_nil: "reads b es s [] \<Longrightarrow> s = es"
  using reads_len [of b es s "[]"] by simp

lemma symbols_not_word: "c \<in> set symbols \<Longrightarrow> \<not> wordch c" "c \<in> set symbols \<Longrightarrow> c \<notin> set whitespace" "c \<in> set symbols \<Longrightarrow> c \<noteq> 0"
  by (auto simp: wordch_def symbols_def whitespace_def)

lemma reads_cons:
  assumes "reads b es s (t # ts)"
  shows "reads b es (s + length (tk_text t)) ts" and "\<And>i. i < length (tk_text t) \<Longrightarrow> b ! (s + i) = tk_text t ! i"
    and "s + length (tk_text t) \<le> es"
proof -
  have r: "line_ok b es" "s \<le> es" "take (es - s) (drop s b) = tk_text t @ text_of ts" "\<forall>t\<in>set ts. tk_ok t"
    using assms by (simp_all add: reads_def slice_def)
  have l: "es - s = length (tk_text t) + length (text_of ts)" using reads_len(1) [OF assms] by simp
  then show le: "s + length (tk_text t) \<le> es" using r(2) by linarith
  have "drop (length (tk_text t)) (take (es - s) (drop s b)) = text_of ts" unfolding r(3) by simp
  then have "take (es - (s + length (tk_text t))) (drop (s + length (tk_text t)) b) = text_of ts"
    by (simp add: drop_take add.commute)
  then show "reads b es (s + length (tk_text t)) ts" using r le by (simp add: reads_def slice_def)
  fix i
  assume i: "i < length (tk_text t)"
  then have "take (es - s) (drop s b) ! i = tk_text t ! i" unfolding r(3) by (simp add: nth_append)
  then show "b ! (s + i) = tk_text t ! i" using i l r(1,2) by (simp add: line_ok_def)
qed

lemma reads_first:
  assumes "reads b es s (t # ts)"
  shows "s < es" and "b ! s = hd (tk_text t)" and "b ! s \<notin> set whitespace" and "tk_ok t"
proof -
  show t: "tk_ok t" using assms by (simp add: reads_def)
  have n: "0 < length (tk_text t)" by (cases t) auto
  then show "s < es" using reads_cons(3) [OF assms] by linarith
  show h: "b ! s = hd (tk_text t)" using reads_cons(2) [OF assms n] n by (simp add: hd_conv_nth)
  show "b ! s \<notin> set whitespace" unfolding h using t
    by (cases t) (auto simp: symbols_not_word word_ok_def wordch_def)
qed

lemma reads_skip:
  assumes "reads b es s ts"
  shows "skip_ws b es s = s"
proof (cases ts)
  case Nil
  then show ?thesis using assms reads_nil skip_ws_stay(2) by blast
next
  case (Cons t us)
  then show ?thesis using reads_first [OF assms [unfolded Cons]] skip_ws_stay(1) by blast
qed

lemma reads_space:
  assumes "reads b es s (t # ts)"
  shows "skip_ws b es (s + length (tk_text t) - 1) = s + length (tk_text t)"
proof -
  let ?k = "length (tk_text t) - 1"
  have n: "0 < length (tk_text t)" "tk_text t ! ?k = 32" by (cases t; simp add: nth_append One_nat_def)+
  then have "b ! (s + ?k) = 32" using reads_cons(2) [OF assms, of ?k] by simp
  moreover have "s + ?k < es" using reads_cons(3) [OF assms] n by linarith
  ultimately have step: "skip_ws b es (s + ?k) = skip_ws b es (s + ?k + 1)"
    by (subst skip_ws.simps) (simp only: whitespace_def list.set insert_iff simp_thms if_True)
  have "s + length (tk_text t) - 1 = s + ?k" using n(1) by linarith
  then have "skip_ws b es (s + length (tk_text t) - 1) = skip_ws b es (s + ?k)" by (rule arg_cong)
  also note step
  also have "s + ?k + 1 = s + length (tk_text t)" using n(1) by linarith
  also have "skip_ws b es (s + length (tk_text t)) = s + length (tk_text t)" by (rule reads_skip [OF reads_cons(1) [OF assms]])
  finally show ?thesis .
qed

lemma word_end_eq:
  assumes "s \<le> e" and "e < es" and "\<And>i. s \<le> i \<Longrightarrow> i < e \<Longrightarrow> wordch (b ! i)" and "b ! e \<in> set whitespace"
  shows "word_end b es s = e"
proof -
  have W: "s \<le> word_end b es s" "word_end b es s \<le> es"
    "\<And>i. s \<le> i \<Longrightarrow> i < word_end b es s \<Longrightarrow> b ! i \<notin> set whitespace"
    "word_end b es s < es \<Longrightarrow> \<not> wordch (b ! word_end b es s)"
    using word_end_props [of s es b] assms(1,2) by (auto simp: wordch_def)
  have "\<not> word_end b es s < e" using W(1,4) assms(2,3) by (meson less_trans)
  moreover have "\<not> e < word_end b es s" using W(3) assms(1,4) by blast
  ultimately show ?thesis by simp
qed

lemma gettoken_reads:
  "reads b es s (Sym c # ts) \<Longrightarrow> gettoken b es s = (c, s, s + 1, s + 2)"
  "reads b es s (Word w # ts) \<Longrightarrow> gettoken b es s = (97, s, s + length w, s + length w + 1)"
  "reads b es s [] \<Longrightarrow> gettoken b es s = (0, s, s, s)"
proof -
  assume r: "reads b es s (Sym c # ts)"
  have c: "b ! s = c" "c \<in> set symbols" "c \<noteq> 0" using reads_first [OF r] symbols_not_word by auto
  have "b ! (s + 1) = 32" using reads_cons(2) [OF r, of 1] by (simp add: One_nat_def)
  moreover have "skip_ws b es (s + 1) = s + 2" using reads_space [OF r] by (simp add: One_nat_def)
  ultimately show "gettoken b es s = (c, s, s + 1, s + 2)"
    using c unfolding symbols_cases by (auto simp: gettoken_def Let_def reads_skip [OF r])
next
  assume r: "reads b es s (Word w # ts)"
  have w: "word_ok w" using reads_first(4) [OF r] by simp
  have ch: "b ! (s + i) = w ! i" "wordch (w ! i)" if "i < length w" for i
    using reads_cons(2) [OF r, of i] w that by (auto simp: nth_append word_ok_def)
  have "b ! (s + length w) = 32" using reads_cons(2) [OF r, of "length w"] by simp
  moreover have "s + length w < es" using reads_cons(3) [OF r] by simp
  ultimately have e: "word_end b es s = s + length w"
    by (intro word_end_eq) (use ch in \<open>auto simp: whitespace_def le_iff_add\<close>)
  have "0 < length w" using w by (simp add: word_ok_def)
  then have "wordch (b ! s)" using ch [of 0] by simp
  then have "b ! s \<noteq> 0" "b ! s \<notin> set symbols" by (auto simp: wordch_def)
  then show "gettoken b es s = (97, s, s + length w, s + length w + 1)"
    using e reads_space [OF r] unfolding symbols_cases by (auto simp: gettoken_def Let_def reads_skip [OF r])
next
  assume r: "reads b es s []"
  have "b ! s = 0" using reads_nil [OF r] reads_len(3) [OF r] by (simp add: line_ok_def)
  then show "gettoken b es s = (0, s, s, s)" using reads_nil [OF r] by (simp add: gettoken_def Let_def skip_ws_stay)
qed

fun first_in :: "byte list \<Rightarrow> tk list \<Rightarrow> bool" where
  "first_in X (Sym c # ts) \<longleftrightarrow> c \<in> set X"
| "first_in X ts \<longleftrightarrow> False"

lemma peek_reads:
  assumes "reads b es s ts" and "set X \<subseteq> set symbols"
  shows "peek b es s X = (first_in X ts, s)"
proof -
  have s: "skip_ws b es s = s" by (rule reads_skip [OF assms(1)])
  have "b ! s \<noteq> 0 \<and> b ! s \<in> set X \<longleftrightarrow> first_in X ts"
  proof (cases ts)
    case Nil
    then show ?thesis using assms(1) reads_nil reads_len(3) by (fastforce simp: line_ok_def)
  next
    case (Cons t us)
    note r = reads_first [OF assms(1) [unfolded Cons]]
    show ?thesis using r assms(2) Cons by (cases t) (auto simp: symbols_not_word word_ok_def wordch_def hd_append)
  qed
  then show ?thesis by (simp add: peek_def Let_def s)
qed

lemma word_reads:
  assumes "reads b es s (Word w # ts)"
  shows "word_at b (s, s + length w) = w"
proof -
  have "es - s = length w + 1 + length (text_of ts)" using reads_len(1) [OF assms] by simp
  then have "s + length w \<le> length b" using reads_len(2,3) [OF assms] by (auto simp: line_ok_def)
  then have "length (slice b s (length w)) = length w" by simp
  moreover have "slice b s (length w) ! i = w ! i" if "i < length w" for i
    using reads_cons(2) [OF assms, of i] that calculation by (simp add: slice_def nth_append)
  ultimately show ?thesis by (simp add: word_at_def list_eq_iff_nth_eq)
qed

subsection \<open>Reading back\<close>

lemma redir_tks_simp: "redir_tks (f, m, fd) = [Sym (if m = O_RDONLY then 60 else 62), Word f]"
  by (simp add: redir_tks_def)

abbreviation redirs :: "(byte list \<times> u32 \<times> int) list \<Rightarrow> tk list" where
  "redirs rs \<equiv> concat (map redir_tks rs)"

definition wraps :: "scmd \<Rightarrow> (byte list \<times> u32 \<times> int) list \<Rightarrow> scmd" where
  "wraps c rs = foldl (\<lambda>c (f, m, fd). SRedir c f m fd) c rs"

definition starts :: "byte set \<Rightarrow> tk list \<Rightarrow> bool" where
  "starts X ts \<longleftrightarrow> ts = [] \<or> (\<exists>x us. ts = Sym x # us \<and> x \<in> X)"

lemma starts_first: "starts X ts \<Longrightarrow> X \<inter> set Y = {} \<Longrightarrow> \<not> first_in Y ts"
  by (auto simp: starts_def)

lemma peek_set: "set [60, 62 :: byte] \<subseteq> set symbols" "set [124, 41, 38, 59 :: byte] \<subseteq> set symbols" "set [38 :: byte] \<subseteq> set symbols"
  "set [59 :: byte] \<subseteq> set symbols" "set [124 :: byte] \<subseteq> set symbols" "set [40 :: byte] \<subseteq> set symbols" "set [41 :: byte] \<subseteq> set symbols"
  by (auto simp: symbols_def)

lemma parse_redirs_none:
  assumes "reads b es s ts" and "\<not> first_in [60, 62] ts" and "0 < n"
  shows "parseredirs n b es c s = Parsed c s"
  using assms peek_reads [OF assms(1) peek_set(1)] by (cases n) auto

lemma parse_redirs:
  assumes "reads b es s (redirs rs @ ts)" and "\<forall>r\<in>set rs. redir_ok r" and "\<not> first_in [60, 62] ts" and "length (text_of (redirs rs)) < n"
  shows "\<exists>d s'. parseredirs n b es c s = Parsed d s' \<and> reads b es s' ts \<and>
    resolve (word_at b) d = wraps (resolve (word_at b) c) rs"
  using assms
proof (induction rs arbitrary: c s n)
  case Nil
  then show ?case using parse_redirs_none [of b es s ts n c] by (auto simp: wraps_def)
next
  case (Cons r rs)
  obtain f m fd where r: "r = (f, m, fd)" by (metis prod_cases3)
  let ?x = "if m = O_RDONLY then 60 else 62 :: byte"
  have R: "reads b es s (Sym ?x # Word f # redirs rs @ ts)" using Cons.prems(1) by (simp add: r redir_tks_simp)
  have p: "peek b es s [60, 62] = (True, s)" using peek_reads [OF R peek_set(1)] by simp
  note t = gettoken_reads(1) [OF R]
  have R2: "reads b es (s + 2) (Word f # redirs rs @ ts)" using reads_cons(1) [OF R] by simp
  note t2 = gettoken_reads(2) [OF R2]
  have R3: "reads b es (s + 2 + length f + 1) (redirs rs @ ts)" using reads_cons(1) [OF R2] by (simp add: One_nat_def)
  obtain n' where n: "n = Suc n'" using Cons.prems(4) by (cases n) auto
  have m: "m = O_RDONLY \<and> fd = 0 \<or> m \<noteq> O_RDONLY \<and> m = O_WRONLY OR O_CREATE \<and> fd = 1"
    using Cons.prems(2) r by (auto simp: redir_ok_def O_RDONLY_def O_WRONLY_def O_CREATE_def)
  let ?d = "REDIR c (s + 2) (s + 2 + length f) m fd"
  have "parseredirs n b es c s = parseredirs n' b es ?d (s + 2 + length f + 1)"
    using p t t2 m by (auto simp: n)
  moreover have "\<exists>d s'. parseredirs n' b es ?d (s + 2 + length f + 1) = Parsed d s' \<and> reads b es s' ts \<and>
      resolve (word_at b) d = wraps (resolve (word_at b) ?d) rs"
    by (rule Cons.IH [OF R3]) (use Cons.prems in \<open>auto simp: n r redir_tks_simp\<close>)
  moreover have "wraps (resolve (word_at b) ?d) rs = wraps (resolve (word_at b) c) (r # rs)"
    using word_reads [OF R2] by (simp add: wraps_def r)
  ultimately show ?case by simp
qed

lemma parse_args_stop:
  assumes "reads b es s ts" and "starts {124, 41, 38, 59} ts" and "0 < n"
  shows "parseargs n b es k c s = Parsed c s"
proof (cases ts)
  case Nil
  then show ?thesis using assms peek_reads [OF assms(1) peek_set(2)] gettoken_reads(3) [of b es s] by (cases n) auto
next
  case (Cons t us)
  then show ?thesis using assms peek_reads [OF assms(1) peek_set(2)] by (cases n) (auto simp: starts_def)
qed

lemma parse_args:
  assumes "reads b es s (map Word ws @ redirs rs @ ts)" and "\<forall>r\<in>set rs. redir_ok r" and "starts {124, 41, 38, 59} ts"
    and "ws \<noteq> []" and "length as + length ws < MAXARGS" and "es - s < n"
  shows "\<exists>d s'. parseargs n b es (length as) (EXEC as) s = Parsed d s' \<and> reads b es s' ts \<and>
    resolve (word_at b) d = wraps (SExec (map (word_at b) as @ ws)) rs"
  using assms
proof (induction ws arbitrary: as s n)
  case (Cons w ws)
  have R: "reads b es s (Word w # map Word ws @ redirs rs @ ts)" using Cons.prems(1) by simp
  have p: "peek b es s [124, 41, 38, 59] = (False, s)" using peek_reads [OF R peek_set(2)] by simp
  note t = gettoken_reads(2) [OF R]
  let ?s = "s + length w + 1" and ?as = "as @ [(s, s + length w)]"
  have R2: "reads b es ?s (map Word ws @ redirs rs @ ts)" using reads_cons(1) [OF R] by (simp add: One_nat_def)
  obtain n' where n: "n = Suc n'" using Cons.prems(6) by (cases n) auto
  have fuel: "es - ?s < n'" "length (text_of (redirs rs)) \<le> es - ?s"
    using reads_len(1) [OF R] reads_len(1) [OF R2] Cons.prems(6) by (simp_all add: n)
  have step: "parseargs n b es (length as) (EXEC as) s =
      pbind (parseredirs n' b es (EXEC ?as) ?s) (\<lambda>ret s. parseargs n' b es (length ?as) ret s)"
    using p t Cons.prems(5) by (simp add: n Let_def One_nat_def)
  have w: "map (word_at b) ?as = map (word_at b) as @ [w]" using word_reads [OF R] by simp
  show ?case
  proof (cases ws)
    case Nil
    have "\<not> first_in [60, 62] ts" by (rule starts_first [OF Cons.prems(3)]) auto
    then obtain d s' where d: "parseredirs n' b es (EXEC ?as) ?s = Parsed d s'" "reads b es s' ts"
        "resolve (word_at b) d = wraps (resolve (word_at b) (EXEC ?as)) rs"
      using parse_redirs [of b es ?s rs ts n' "EXEC ?as"] R2 Nil Cons.prems(2) fuel by auto
    have "parseargs n' b es (length ?as) d s' = Parsed d s'"
      by (rule parse_args_stop [OF d(2) Cons.prems(3)]) (use fuel in simp)
    then show ?thesis using d step w Nil by simp
  next
    case (Cons v vs)
    then have "parseredirs n' b es (EXEC ?as) ?s = Parsed (EXEC ?as) ?s"
      using parse_redirs_none [OF R2, of n'] fuel(1) by simp
    moreover have "\<exists>d s'. parseargs n' b es (length ?as) (EXEC ?as) ?s = Parsed d s' \<and> reads b es s' ts \<and>
        resolve (word_at b) d = wraps (SExec (map (word_at b) ?as @ ws)) rs"
      by (rule Cons.IH [OF R2]) (use Cons.prems fuel \<open>ws = v # vs\<close> in auto)
    ultimately show ?thesis using step w by simp
  qed
qed simp

text \<open>What the parsers of the four levels do on a printed command.\<close>

definition exec_ok :: "byte list \<Rightarrow> nat \<Rightarrow> scmd \<Rightarrow> bool" where
  "exec_ok b es c \<longleftrightarrow> (\<forall>s rs ts n. reads b es s (print c 3 @ redirs rs @ ts) \<and> (\<forall>r\<in>set rs. redir_ok r) \<and>
     starts {124, 41, 38, 59} ts \<and> 4 * (es - s) + 2 \<le> n \<longrightarrow>
     (\<exists>d s'. parseexec n b es s = Parsed d s' \<and> reads b es s' ts \<and> resolve (word_at b) d = wraps c rs))"

definition pipe_ok :: "byte list \<Rightarrow> nat \<Rightarrow> scmd \<Rightarrow> bool" where
  "pipe_ok b es c \<longleftrightarrow> (\<forall>s ts n. reads b es s (print c 2 @ ts) \<and> starts {41, 38, 59} ts \<and> 4 * (es - s) + 3 \<le> n \<longrightarrow>
     (\<exists>d s'. parsepipe n b es s = Parsed d s' \<and> reads b es s' ts \<and> resolve (word_at b) d = c))"

definition back_ok :: "byte list \<Rightarrow> nat \<Rightarrow> scmd \<Rightarrow> bool" where
  "back_ok b es c \<longleftrightarrow> (\<forall>s ts n. reads b es s (print c 1 @ ts) \<and> starts {41, 38, 59} ts \<and> 4 * (es - s) + 3 \<le> n \<longrightarrow>
     (\<exists>d s' m. pbind (parsepipe n b es s) (\<lambda>c s. parsebacks n b es c s) = parsebacks m b es d s' \<and> es - s' < m \<and>
        reads b es s' ts \<and> resolve (word_at b) d = c))"

definition line_ok_cmd :: "byte list \<Rightarrow> nat \<Rightarrow> scmd \<Rightarrow> bool" where
  "line_ok_cmd b es c \<longleftrightarrow> (\<forall>s ts n. reads b es s (print c 0 @ ts) \<and> starts {41} ts \<and> 4 * (es - s) + 4 \<le> n \<longrightarrow>
     (\<exists>d s'. parseline n b es s = Parsed d s' \<and> reads b es s' ts \<and> resolve (word_at b) d = c))"

lemma exec_okD:
  assumes "exec_ok b es c" and "reads b es s (print c 3 @ redirs rs @ ts)" and "\<forall>r\<in>set rs. redir_ok r"
    and "starts {124, 41, 38, 59} ts" and "4 * (es - s) + 2 \<le> n"
  obtains d s' where "parseexec n b es s = Parsed d s'" "reads b es s' ts" "resolve (word_at b) d = wraps c rs"
  using assms unfolding exec_ok_def by blast

lemma pipe_okD:
  assumes "pipe_ok b es c" and "reads b es s (print c 2 @ ts)" and "starts {41, 38, 59} ts" and "4 * (es - s) + 3 \<le> n"
  obtains d s' where "parsepipe n b es s = Parsed d s'" "reads b es s' ts" "resolve (word_at b) d = c"
  using assms unfolding pipe_ok_def by blast

lemma back_okD:
  assumes "back_ok b es c" and "reads b es s (print c 1 @ ts)" and "starts {41, 38, 59} ts" and "4 * (es - s) + 3 \<le> n"
  obtains d s' m where "pbind (parsepipe n b es s) (\<lambda>c s. parsebacks n b es c s) = parsebacks m b es d s'" "es - s' < m"
    "reads b es s' ts" "resolve (word_at b) d = c"
  using assms unfolding back_ok_def by blast

lemma line_okD:
  assumes "line_ok_cmd b es c" and "reads b es s (print c 0 @ ts)" and "starts {41} ts" and "4 * (es - s) + 4 \<le> n"
  obtains d s' where "parseline n b es s = Parsed d s'" "reads b es s' ts" "resolve (word_at b) d = c"
  using assms unfolding line_ok_cmd_def by blast

lemma starts_mono: "starts X ts \<Longrightarrow> X \<subseteq> Y \<Longrightarrow> starts Y ts"
  by (auto simp: starts_def)

lemma pipe_of_exec:
  assumes "exec_ok b es c" and "print c 2 = print c 3"
  shows "pipe_ok b es c"
  unfolding pipe_ok_def
proof (intro allI impI, elim conjE)
  fix s ts n
  assume r: "reads b es s (print c 2 @ ts)" and st: "starts {41, 38, 59} ts" and n: "4 * (es - s) + 3 \<le> n"
  obtain n' where n': "n = Suc n'" using n by (cases n) auto
  have st2: "starts {124, 41, 38, 59} ts" using st by (rule starts_mono) auto
  have r2: "reads b es s (print c 3 @ redirs [] @ ts)" using r assms(2) by simp
  have "4 * (es - s) + 2 \<le> n'" using n n' by simp
  then obtain d s' where d: "parseexec n' b es s = Parsed d s'" "reads b es s' ts" "resolve (word_at b) d = wraps c []"
    using exec_okD [OF assms(1) r2 _ st2] by auto
  have "\<not> first_in [124] ts" by (rule starts_first [OF st]) auto
  then have "parsepipe n b es s = Parsed d s'" using d(1) peek_reads [OF d(2) peek_set(5)] by (simp add: n')
  then show "\<exists>d s'. parsepipe n b es s = Parsed d s' \<and> reads b es s' ts \<and> resolve (word_at b) d = c"
    using d by (auto simp: wraps_def)
qed

lemma back_of_pipe:
  assumes "pipe_ok b es c" and "print c 1 = print c 2"
  shows "back_ok b es c"
  unfolding back_ok_def
proof (intro allI impI, elim conjE)
  fix s ts n
  assume r: "reads b es s (print c 1 @ ts)" and st: "starts {41, 38, 59} ts" and n: "4 * (es - s) + 3 \<le> n"
  then obtain d s' where d: "parsepipe n b es s = Parsed d s'" "reads b es s' ts" "resolve (word_at b) d = c"
    using pipe_okD [OF assms(1)] unfolding assms(2) by blast
  have "es - s' < n" using n reads_len(1) [OF d(2)] reads_len(1) [OF r] by simp
  then show "\<exists>d s' m. pbind (parsepipe n b es s) (\<lambda>c s. parsebacks n b es c s) = parsebacks m b es d s' \<and> es - s' < m \<and>
        reads b es s' ts \<and> resolve (word_at b) d = c"
    using d by auto
qed

lemma parse_backs_stop:
  assumes "reads b es s ts" and "\<not> first_in [38] ts" and "0 < n"
  shows "parsebacks n b es c s = Parsed c s"
  using assms peek_reads [OF assms(1) peek_set(3)] by (cases n) auto

lemma line_of_back:
  assumes "back_ok b es c" and "print c 0 = print c 1"
  shows "line_ok_cmd b es c"
  unfolding line_ok_cmd_def
proof (intro allI impI, elim conjE)
  fix s ts n
  assume r: "reads b es s (print c 0 @ ts)" and st: "starts {41} ts" and n: "4 * (es - s) + 4 \<le> n"
  obtain n' where n': "n = Suc n'" using n by (cases n) auto
  have "starts {41, 38, 59} ts" using st by (rule starts_mono) auto
  moreover have "4 * (es - s) + 3 \<le> n'" using n n' by simp
  ultimately obtain d s' m where d: "pbind (parsepipe n' b es s) (\<lambda>c s. parsebacks n' b es c s) = parsebacks m b es d s'"
      "es - s' < m" "reads b es s' ts" "resolve (word_at b) d = c"
    using back_okD [OF assms(1) r [unfolded assms(2)]] by blast
  have f: "\<not> first_in [38] ts" "\<not> first_in [59] ts" by (rule starts_first [OF st]; auto)+
  have "parsebacks m b es d s' = Parsed d s'" by (rule parse_backs_stop [OF d(3) f(1)]) (use d in simp)
  then have "parseline n b es s = Parsed d s'" using d(1) f(2) peek_reads [OF d(3) peek_set(4)] by (simp add: n')
  then show "\<exists>d s'. parseline n b es s = Parsed d s' \<and> reads b es s' ts \<and> resolve (word_at b) d = c" using d by auto
qed

lemma exec_of_line:
  assumes "line_ok_cmd b es c" and "print c 3 = Sym 40 # print c 0 @ [Sym 41]"
  shows "exec_ok b es c"
  unfolding exec_ok_def
proof (intro allI impI, elim conjE)
  fix s rs ts n
  assume r: "reads b es s (print c 3 @ redirs rs @ ts)" and rs: "\<forall>r\<in>set rs. redir_ok r"
    and st: "starts {124, 41, 38, 59} ts" and n: "4 * (es - s) + 2 \<le> n"
  obtain n' where n': "n = Suc (Suc n')" using n by (cases n rule: nat.exhaust; cases "n - 1") auto
  have R: "reads b es s (Sym 40 # print c 0 @ Sym 41 # redirs rs @ ts)" using r assms(2) by simp
  have p: "peek b es s [40] = (True, s)" using peek_reads [OF R peek_set(6)] by simp
  note t = gettoken_reads(1) [OF R]
  have R2: "reads b es (s + 2) (print c 0 @ Sym 41 # redirs rs @ ts)" using reads_cons(1) [OF R] by simp
  have len: "4 * (es - (s + 2)) + 4 \<le> n'" using reads_len(1) [OF R] reads_len(1) [OF R2] n n' by simp
  obtain d s' where d: "parseline n' b es (s + 2) = Parsed d s'" "reads b es s' (Sym 41 # redirs rs @ ts)" "resolve (word_at b) d = c"
    using line_okD [OF assms(1) R2 _ len] by (auto simp: starts_def)
  have p2: "peek b es s' [41] = (True, s')" using peek_reads [OF d(2) peek_set(7)] by simp
  note t2 = gettoken_reads(1) [OF d(2)]
  have R3: "reads b es (s' + 2) (redirs rs @ ts)" using reads_cons(1) [OF d(2)] by simp
  have "\<not> first_in [60, 62] ts" by (rule starts_first [OF st]) auto
  moreover have "length (text_of (redirs rs)) < n'" using reads_len(1) [OF R2] len by simp
  ultimately obtain d' s'' where d': "parseredirs n' b es d (s' + 2) = Parsed d' s''" "reads b es s'' ts"
      "resolve (word_at b) d' = wraps (resolve (word_at b) d) rs"
    using parse_redirs [OF R3 rs, of n' d] by blast
  then show "\<exists>d s'. parseexec n b es s = Parsed d s' \<and> reads b es s' ts \<and> resolve (word_at b) d = wraps c rs"
    using p t d(1,3) p2 t2 by (simp add: n')
qed

lemma exec_simple:
  assumes "wf_scmd (SExec ws)"
  shows "exec_ok b es (SExec ws)"
  unfolding exec_ok_def
proof (intro allI impI, elim conjE)
  fix s rs ts n
  assume r: "reads b es s (print (SExec ws) 3 @ redirs rs @ ts)" and rs: "\<forall>r\<in>set rs. redir_ok r"
    and st: "starts {124, 41, 38, 59} ts" and n: "4 * (es - s) + 2 \<le> n"
  obtain n' where n': "n = Suc n'" using n by (cases n) auto
  have R: "reads b es s (map Word ws @ redirs rs @ ts)" using r by simp
  have "\<not> first_in [40] (map Word ws @ redirs rs @ ts)"
    using st by (cases ws; cases rs) (auto simp: starts_def redir_tks_def split: prod.splits)
  then have p: "parseexec n b es s = pbind (parseredirs n' b es (EXEC []) s) (\<lambda>ret s. parseargs n' b es 0 ret s)"
    using peek_reads [OF R peek_set(6)] by (simp add: n')
  have nf: "\<not> first_in [60, 62] ts" by (rule starts_first [OF st]) auto
  show "\<exists>d s'. parseexec n b es s = Parsed d s' \<and> reads b es s' ts \<and> resolve (word_at b) d = wraps (SExec ws) rs"
  proof (cases ws)
    case Nil
    have "length (text_of (redirs rs)) < n'" using reads_len(1) [OF R] n n' Nil by simp
    then obtain d s' where d: "parseredirs n' b es (EXEC []) s = Parsed d s'" "reads b es s' ts"
        "resolve (word_at b) d = wraps (SExec []) rs"
      using parse_redirs [of b es s rs ts n' "EXEC []"] R Nil rs nf by auto
    then show ?thesis using p parse_args_stop [OF d(2) st, of n'] n n' Nil by auto
  next
    case (Cons w us)
    then have "parseredirs n' b es (EXEC []) s = Parsed (EXEC []) s"
      using parse_redirs_none [OF R, of n' "EXEC []"] n n' by simp
    then show ?thesis using p parse_args [OF R rs st, of "[]" n'] assms n n' Cons by simp
  qed
qed

lemma exec_redir:
  assumes "exec_ok b es c" and "redir_ok (f, m, fd)"
  shows "exec_ok b es (SRedir c f m fd)"
  unfolding exec_ok_def
proof (intro allI impI, elim conjE)
  fix s rs ts n
  assume r: "reads b es s (print (SRedir c f m fd) 3 @ redirs rs @ ts)" and rs: "\<forall>r\<in>set rs. redir_ok r"
    and st: "starts {124, 41, 38, 59} ts" and n: "4 * (es - s) + 2 \<le> n"
  have "reads b es s (print c 3 @ redirs ((f, m, fd) # rs) @ ts)" using r by simp
  moreover have "\<forall>r\<in>set ((f, m, fd) # rs). redir_ok r" using rs assms(2) by simp
  ultimately show "\<exists>d s'. parseexec n b es s = Parsed d s' \<and> reads b es s' ts \<and> resolve (word_at b) d = wraps (SRedir c f m fd) rs"
    using st n by (elim exec_okD [OF assms(1)]) (auto simp: wraps_def)
qed

lemma pipe_pipe:
  assumes "exec_ok b es c" and "pipe_ok b es d"
  shows "pipe_ok b es (SPipe c d)"
  unfolding pipe_ok_def
proof (intro allI impI, elim conjE)
  fix s ts n
  assume r: "reads b es s (print (SPipe c d) 2 @ ts)" and st: "starts {41, 38, 59} ts" and n: "4 * (es - s) + 3 \<le> n"
  obtain n' where n': "n = Suc n'" using n by (cases n) auto
  have R: "reads b es s (print c 3 @ redirs [] @ Sym 124 # print d 2 @ ts)" using r by (simp add: paren_def)
  have "4 * (es - s) + 2 \<le> n'" using n n' by simp
  then obtain x s1 where x: "parseexec n' b es s = Parsed x s1" "reads b es s1 (Sym 124 # print d 2 @ ts)" "resolve (word_at b) x = wraps c []"
    using exec_okD [OF assms(1) R] by (auto simp: starts_def)
  note t = gettoken_reads(1) [OF x(2)]
  have R2: "reads b es (s1 + 2) (print d 2 @ ts)" using reads_cons(1) [OF x(2)] by simp
  have "4 * (es - (s1 + 2)) + 3 \<le> n'" using reads_len(1) [OF R] reads_len(1) [OF R2] n n' by simp
  then obtain y s2 where y: "parsepipe n' b es (s1 + 2) = Parsed y s2" "reads b es s2 ts" "resolve (word_at b) y = d"
    using pipe_okD [OF assms(2) R2 st] by blast
  have "parsepipe n b es s = Parsed (PIPE x y) s2"
    using x(1) y(1) t peek_reads [OF x(2) peek_set(5)] by (simp add: n')
  then show "\<exists>e s'. parsepipe n b es s = Parsed e s' \<and> reads b es s' ts \<and> resolve (word_at b) e = SPipe c d"
    using x(3) y(2,3) by (simp add: wraps_def)
qed

lemma back_back:
  assumes "back_ok b es c"
  shows "back_ok b es (SBack c)"
  unfolding back_ok_def
proof (intro allI impI, elim conjE)
  fix s ts n
  assume r: "reads b es s (print (SBack c) 1 @ ts)" and st: "starts {41, 38, 59} ts" and n: "4 * (es - s) + 3 \<le> n"
  have R: "reads b es s (print c 1 @ Sym 38 # ts)" using r by (simp add: paren_def)
  have st2: "starts {41, 38, 59} (Sym 38 # ts)" by (simp add: starts_def)
  obtain x s1 m where x: "pbind (parsepipe n b es s) (\<lambda>c s. parsebacks n b es c s) = parsebacks m b es x s1" "es - s1 < m"
      "reads b es s1 (Sym 38 # ts)" "resolve (word_at b) x = c"
    using back_okD [OF assms R st2 n] by blast
  note t = gettoken_reads(1) [OF x(3)]
  have R2: "reads b es (s1 + 2) ts" using reads_cons(1) [OF x(3)] by simp
  obtain m' where m: "m = Suc m'" using x(2) by (cases m) auto
  have "parsebacks m b es x s1 = parsebacks m' b es (BACK x) (s1 + 2)"
    using t peek_reads [OF x(3) peek_set(3)] by (simp add: m)
  moreover have "es - (s1 + 2) < m'" using x(2) reads_len(1) [OF x(3)] m by simp
  ultimately show "\<exists>d s' m. pbind (parsepipe n b es s) (\<lambda>c s. parsebacks n b es c s) = parsebacks m b es d s' \<and> es - s' < m \<and>
        reads b es s' ts \<and> resolve (word_at b) d = SBack c"
    using x R2 by (intro exI [of _ "BACK x"] exI [of _ "s1 + 2"] exI [of _ m']) simp
qed

lemma line_list:
  assumes "back_ok b es c" and "line_ok_cmd b es d"
  shows "line_ok_cmd b es (SList c d)"
  unfolding line_ok_cmd_def
proof (intro allI impI, elim conjE)
  fix s ts n
  assume r: "reads b es s (print (SList c d) 0 @ ts)" and st: "starts {41} ts" and n: "4 * (es - s) + 4 \<le> n"
  obtain n' where n': "n = Suc n'" using n by (cases n) auto
  have R: "reads b es s (print c 1 @ Sym 59 # print d 0 @ ts)" using r by (simp add: paren_def)
  have st2: "starts {41, 38, 59} (Sym 59 # print d 0 @ ts)" by (simp add: starts_def)
  have "4 * (es - s) + 3 \<le> n'" using n n' by simp
  then obtain x s1 m where x: "pbind (parsepipe n' b es s) (\<lambda>c s. parsebacks n' b es c s) = parsebacks m b es x s1" "es - s1 < m"
      "reads b es s1 (Sym 59 # print d 0 @ ts)" "resolve (word_at b) x = c"
    using back_okD [OF assms(1) R st2] by blast
  have b: "parsebacks m b es x s1 = Parsed x s1" by (rule parse_backs_stop [OF x(3)]) (use x(2) in auto)
  note t = gettoken_reads(1) [OF x(3)]
  have R2: "reads b es (s1 + 2) (print d 0 @ ts)" using reads_cons(1) [OF x(3)] by simp
  have "4 * (es - (s1 + 2)) + 4 \<le> n'" using reads_len(1) [OF R] reads_len(1) [OF R2] n n' by simp
  then obtain y s2 where y: "parseline n' b es (s1 + 2) = Parsed y s2" "reads b es s2 ts" "resolve (word_at b) y = d"
    using line_okD [OF assms(2) R2 st] by blast
  have "parseline n b es s = Parsed (LIST x y) s2"
    using x(1) b y(1) t peek_reads [OF x(3) peek_set(4)] by (simp add: n')
  then show "\<exists>e s'. parseline n b es s = Parsed e s' \<and> reads b es s' ts \<and> resolve (word_at b) e = SList c d"
    using x(4) y(2,3) by simp
qed

lemma print_ok: "wf_scmd c \<Longrightarrow> exec_ok b es c \<and> pipe_ok b es c \<and> back_ok b es c \<and> line_ok_cmd b es c"
proof (induction c)
  case (SExec ws)
  then have "exec_ok b es (SExec ws)" by (rule exec_simple)
  then show ?case using pipe_of_exec back_of_pipe line_of_back by (metis print.simps(1))
next
  case (SRedir c f m fd)
  then have "exec_ok b es (SRedir c f m fd)" by (intro exec_redir) auto
  then show ?case using pipe_of_exec back_of_pipe line_of_back by (metis print.simps(2))
next
  case (SPipe c d)
  then have P: "pipe_ok b es (SPipe c d)" by (intro pipe_pipe) auto
  have B: "back_ok b es (SPipe c d)" by (rule back_of_pipe [OF P]) (simp add: paren_def)
  have L: "line_ok_cmd b es (SPipe c d)" by (rule line_of_back [OF B]) (simp add: paren_def)
  have "exec_ok b es (SPipe c d)" by (rule exec_of_line [OF L]) (simp add: paren_def)
  then show ?case using P B L by simp
next
  case (SList c d)
  then have L: "line_ok_cmd b es (SList c d)" by (intro line_list) auto
  have E: "exec_ok b es (SList c d)" by (rule exec_of_line [OF L]) (simp add: paren_def)
  have P: "pipe_ok b es (SList c d)" by (rule pipe_of_exec [OF E]) (simp add: paren_def)
  have "back_ok b es (SList c d)" by (rule back_of_pipe [OF P]) (simp add: paren_def)
  then show ?case using L E P by simp
next
  case (SBack c)
  then have B: "back_ok b es (SBack c)" by (intro back_back) auto
  have L: "line_ok_cmd b es (SBack c)" by (rule line_of_back [OF B]) (simp add: paren_def)
  have E: "exec_ok b es (SBack c)" by (rule exec_of_line [OF L]) (simp add: paren_def)
  have "pipe_ok b es (SBack c)" by (rule pipe_of_exec [OF E]) (simp add: paren_def)
  then show ?case using B L E by simp
qed

subsection \<open>Whole lines\<close>

lemma tk_ok_print: "wf_scmd c \<Longrightarrow> t \<in> set (print c lv) \<Longrightarrow> tk_ok t"
  by (induction c arbitrary: lv) (auto simp: paren_def redir_tks_def redir_ok_def symbols_def split: if_splits)

lemma text_nonzero: "(\<forall>t\<in>set ts. tk_ok t) \<Longrightarrow> 0 \<notin> set (text_of ts)"
  by (induction ts) (auto simp: word_ok_def wordch_def symbols_def elim!: tk_ok.elims)

lemma reads_text:
  assumes "\<forall>t\<in>set ts. tk_ok t"
  shows "strlen_at (text_of ts @ 0 # junk) = length (text_of ts)" and "reads (text_of ts @ 0 # junk) (length (text_of ts)) 0 ts"
proof -
  have "takeWhile (\<lambda>c. c \<noteq> 0) (text_of ts @ 0 # junk) = text_of ts"
    using text_nonzero [OF assms] by (subst takeWhile_append2) auto
  then show s: "strlen_at (text_of ts @ 0 # junk) = length (text_of ts)" by (simp add: strlen_at_def)
  have "line_ok (text_of ts @ 0 # junk) (length (text_of ts))" using strlen_line [of "text_of ts @ 0 # junk"] s by simp
  then show "reads (text_of ts @ 0 # junk) (length (text_of ts)) 0 ts" using assms by (simp add: reads_def slice_def)
qed

text \<open>
  C10: parsing reads back printing: for every well-formed command, a line that holds its printed form is parsed into a
  command whose strings, read from the buffer after \<open>nulterminate\<close>, give the command again.
\<close>

theorem parse_print:
  assumes "wf_scmd c" and "4 * length (text_of (print c 0)) + 4 \<le> n"
  shows "\<exists>d s b'. parsecmd n (text_of (print c 0) @ 0 # junk) = (Parsed d s, b') \<and> resolve (cstr_at b') d = c"
proof -
  let ?t = "text_of (print c 0)" and ?b = "text_of (print c 0) @ 0 # junk"
  note T = reads_text [of "print c 0" junk] tk_ok_print [OF assms(1), of _ 0]
  have es: "strlen_at ?b = length ?t" and R: "reads ?b (length ?t) 0 (print c 0 @ [])" using T by auto
  have "line_ok_cmd ?b (length ?t) c" using print_ok [OF assms(1)] by blast
  then obtain d s where d: "parseline n ?b (length ?t) 0 = Parsed d s" "reads ?b (length ?t) s []" "resolve (word_at ?b) d = c"
    using line_okD [OF _ R] assms(2) by (auto simp: starts_def)
  have "s = length ?t" using reads_nil [OF d(2)] .
  then have p: "parsecmd n ?b = (Parsed d s, nulterminate d ?b)"
    using d(1) peek_reads [OF d(2), of "[]"] by (simp add: parsecmd_def es)
  then have "wf_cmd ?b (length ?t) d" using parsecmd_result [of ?b n] es assms(2) by simp
  moreover have "line_ok ?b (length ?t)" using strlen_line [of ?b] es by simp
  ultimately show ?thesis using p d(3) nulterminate_strings by fastforce
qed

text \<open>The command \<open>a & ; b | c < d\<close>.\<close>

definition ex_cmd :: scmd where
  "ex_cmd = SList (SBack (SExec [[97]])) (SPipe (SExec [[98]]) (SRedir (SExec [[99]]) [100] O_RDONLY 0))"

theorem parse_print_witness:
  "\<exists>d s b'. parsecmd 100 ([97, 32, 38, 32, 59, 32, 98, 32, 124, 32, 99, 32, 60, 32, 100, 32] @ 0 # [10]) = (Parsed d s, b') \<and>
     resolve (cstr_at b') d = ex_cmd"
proof -
  have w: "wf_scmd ex_cmd" by (simp add: ex_cmd_def MAXARGS_def word_ok_def wordch_def whitespace_def symbols_def redir_ok_def)
  have t: "text_of (print ex_cmd 0) = [97, 32, 38, 32, 59, 32, 98, 32, 124, 32, 99, 32, 60, 32, 100, 32]"
    by (simp add: ex_cmd_def paren_def redir_tks_def)
  show ?thesis using parse_print [OF w, of 100 "[10]"] unfolding t by simp
qed

end
