(* ===== verification/Lab_Buf.thy ===== *)
theory Lab_Buf
  imports Prelude
begin

text \<open>
  The bounded buffer of \<open>src/lab-05/buf.c\<close>: a producer and a consumer with two semaphores and a mutex, as
  two threads whose steps interleave. A step is a call of the semaphore or mutex library or one assignment. The waits
  of random length have no effect on the state, and \<open>malloc\<close> is taken not to fail.
\<close>

text \<open>Where a thread is in the body of its loop; the loop variable is \<open>t_i\<close>.\<close>

datatype place = At_wait | At_lock | At_copy | At_advance | At_unlock | At_post

record thread =
  t_at :: place
  t_i :: nat

record buffer =
  b_buf :: "int list"
  b_entrada :: nat
  b_salida :: nat
  vacios :: nat
  llenos :: nat
  locked :: bool
  producer_t :: thread
  consumer_t :: thread
  results :: "int list"

text \<open>The steps of \<open>producer\<close> and \<open>consumer\<close>; \<open>None\<close> when the thread has ended or has to wait.\<close>

definition producer :: "nat \<Rightarrow> buffer \<Rightarrow> buffer option" where
  "producer items s =
     (let t = producer_t s; go = (\<lambda>p. t\<lparr>t_at := p\<rparr>) in
      case t_at t of
        At_wait \<Rightarrow> if t_i t < items \<and> 0 < vacios s then Some (s\<lparr>vacios := vacios s - 1, producer_t := go At_lock\<rparr>) else None
      | At_lock \<Rightarrow> if \<not> locked s then Some (s\<lparr>locked := True, producer_t := go At_copy\<rparr>) else None
      | At_copy \<Rightarrow> Some (s\<lparr>b_buf := (b_buf s)[b_entrada s := int (t_i t)], producer_t := go At_advance\<rparr>)
      | At_advance \<Rightarrow> Some (s\<lparr>b_entrada := (b_entrada s + 1) mod length (b_buf s), producer_t := go At_unlock\<rparr>)
      | At_unlock \<Rightarrow> Some (s\<lparr>locked := False, producer_t := go At_post\<rparr>)
      | At_post \<Rightarrow> Some (s\<lparr>llenos := llenos s + 1, producer_t := \<lparr>t_at = At_wait, t_i = t_i t + 1\<rparr>\<rparr>))"

definition consumer :: "nat \<Rightarrow> buffer \<Rightarrow> buffer option" where
  "consumer items s =
     (let t = consumer_t s; go = (\<lambda>p. t\<lparr>t_at := p\<rparr>) in
      case t_at t of
        At_wait \<Rightarrow> if t_i t < items \<and> 0 < llenos s then Some (s\<lparr>llenos := llenos s - 1, consumer_t := go At_lock\<rparr>) else None
      | At_lock \<Rightarrow> if \<not> locked s then Some (s\<lparr>locked := True, consumer_t := go At_copy\<rparr>) else None
      | At_copy \<Rightarrow> Some (s\<lparr>results := results s @ [b_buf s ! b_salida s], consumer_t := go At_advance\<rparr>)
      | At_advance \<Rightarrow> Some (s\<lparr>b_salida := (b_salida s + 1) mod length (b_buf s), consumer_t := go At_unlock\<rparr>)
      | At_unlock \<Rightarrow> Some (s\<lparr>locked := False, consumer_t := go At_post\<rparr>)
      | At_post \<Rightarrow> Some (s\<lparr>vacios := vacios s + 1, consumer_t := \<lparr>t_at = At_wait, t_i = t_i t + 1\<rparr>\<rparr>))"

text \<open>What \<open>main\<close> sets up; the contents of the buffer are arbitrary.\<close>

definition start :: "int list \<Rightarrow> buffer" where
  "start junk = \<lparr>b_buf = junk, b_entrada = 0, b_salida = 0, vacios = length junk, llenos = 0, locked = False,
     producer_t = \<lparr>t_at = At_wait, t_i = 0\<rparr>, consumer_t = \<lparr>t_at = At_wait, t_i = 0\<rparr>, results = []\<rparr>"

inductive buf_run :: "nat \<Rightarrow> int list \<Rightarrow> nat \<Rightarrow> buffer \<Rightarrow> bool" for items junk where
  init: "buf_run items junk 0 (start junk)"
| produce: "buf_run items junk n s \<Longrightarrow> producer items s = Some s' \<Longrightarrow> buf_run items junk (Suc n) s'"
| consume: "buf_run items junk n s \<Longrightarrow> consumer items s = Some s' \<Longrightarrow> buf_run items junk (Suc n) s'"

subsection \<open>Invariant\<close>

text \<open>
  How far a thread is: the steps it has made, the units of its semaphore it has taken, the items copied, and the
  advances of its index.
\<close>

fun place_no :: "place \<Rightarrow> nat" where
  "place_no At_wait = 0" | "place_no At_lock = 1" | "place_no At_copy = 2" | "place_no At_advance = 3"
| "place_no At_unlock = 4" | "place_no At_post = 5"

definition steps :: "thread \<Rightarrow> nat" where "steps t = 6 * t_i t + place_no (t_at t)"
definition taken :: "thread \<Rightarrow> nat" where "taken t = t_i t + (if place_no (t_at t) = 0 then 0 else 1)"
definition copied :: "thread \<Rightarrow> nat" where "copied t = t_i t + (if place_no (t_at t) \<le> 2 then 0 else 1)"
definition advanced :: "thread \<Rightarrow> nat" where "advanced t = t_i t + (if place_no (t_at t) \<le> 3 then 0 else 1)"
definition inside :: "thread \<Rightarrow> bool" where "inside t \<longleftrightarrow> t_at t \<in> {At_copy, At_advance, At_unlock}"

definition buf_inv :: "nat \<Rightarrow> nat \<Rightarrow> buffer \<Rightarrow> bool" where
  "buf_inv items N s \<longleftrightarrow>
     length (b_buf s) = N \<and> taken (producer_t s) \<le> items \<and> taken (consumer_t s) \<le> items \<and>
     vacios s + taken (producer_t s) = N + t_i (consumer_t s) \<and> llenos s + taken (consumer_t s) = t_i (producer_t s) \<and>
     b_entrada s = advanced (producer_t s) mod N \<and> b_salida s = advanced (consumer_t s) mod N \<and>
     (locked s \<longleftrightarrow> inside (producer_t s) \<or> inside (consumer_t s)) \<and> \<not> (inside (producer_t s) \<and> inside (consumer_t s)) \<and>
     (\<forall>k. copied (consumer_t s) \<le> k \<and> k < copied (producer_t s) \<longrightarrow> b_buf s ! (k mod N) = int k) \<and>
     results s = map int [0..<copied (consumer_t s)]"

lemmas thread_defs = steps_def taken_def copied_def advanced_def inside_def

lemma mod_eq_near: "a < b \<Longrightarrow> b < a + N \<Longrightarrow> a mod N \<noteq> b mod (N :: nat)"
proof
  assume a: "a < b" "b < a + N" "a mod N = b mod N"
  then have "N dvd b - a" by (metis mod_eq_dvd_iff_nat less_imp_le)
  then show False using a(1,2) by (auto dest!: dvd_imp_le)
qed

lemma buf_inv_start: "junk \<noteq> [] \<Longrightarrow> buf_inv items (length junk) (start junk)"
  by (simp add: buf_inv_def start_def thread_defs)

lemma buf_inv_producer:
  assumes "buf_inv items N s" and "producer items s = Some s'" and "0 < N"
  shows "buf_inv items N s' \<and> steps (producer_t s') + steps (consumer_t s') = Suc (steps (producer_t s) + steps (consumer_t s))"
proof (cases "t_at (producer_t s)")
  case At_copy
  have e: "b_entrada s = t_i (producer_t s) mod N" "length (b_buf s) = N" and c: "copied (consumer_t s) \<le> t_i (producer_t s)" "t_i (producer_t s) < N + copied (consumer_t s)"
    using assms(1) At_copy by (auto simp: buf_inv_def thread_defs split: if_splits)
  have s': "s' = s\<lparr>b_buf := (b_buf s)[t_i (producer_t s) mod N := int (t_i (producer_t s))], producer_t := (producer_t s)\<lparr>t_at := At_advance\<rparr>\<rparr>"
    using assms(2) At_copy e by (simp add: producer_def Let_def)
  have "b_buf s' ! (k mod N) = int k" if "copied (consumer_t s) \<le> k" "k < Suc (t_i (producer_t s))" for k
  proof (cases "k = t_i (producer_t s)")
    case True
    then show ?thesis using assms(3) e by (simp add: s')
  next
    case False
    then have "k mod N \<noteq> t_i (producer_t s) mod N" using that c by (intro mod_eq_near) auto
    then show ?thesis using assms(1) that False At_copy by (auto simp: s' buf_inv_def thread_defs)
  qed
  then show ?thesis using assms(1) At_copy e unfolding s' by (auto simp: buf_inv_def thread_defs)
next
  case At_wait
  then have "s' = s\<lparr>vacios := vacios s - 1, producer_t := (producer_t s)\<lparr>t_at := At_lock\<rparr>\<rparr>" "t_i (producer_t s) < items" "0 < vacios s"
    using assms(2) by (auto simp: producer_def Let_def split: if_splits)
  then show ?thesis using assms(1) At_wait by (simp add: buf_inv_def thread_defs)
next
  case At_lock
  then have "s' = s\<lparr>locked := True, producer_t := (producer_t s)\<lparr>t_at := At_copy\<rparr>\<rparr>" "\<not> locked s"
    using assms(2) by (auto simp: producer_def Let_def split: if_splits)
  then show ?thesis using assms(1) At_lock by (simp add: buf_inv_def thread_defs)
next
  case At_advance
  then have "s' = s\<lparr>b_entrada := (b_entrada s + 1) mod length (b_buf s), producer_t := (producer_t s)\<lparr>t_at := At_unlock\<rparr>\<rparr>"
    using assms(2) by (simp add: producer_def Let_def)
  then show ?thesis using assms(1) At_advance by (simp add: buf_inv_def thread_defs mod_simps)
next
  case At_unlock
  then have "s' = s\<lparr>locked := False, producer_t := (producer_t s)\<lparr>t_at := At_post\<rparr>\<rparr>"
    using assms(2) by (simp add: producer_def Let_def)
  then show ?thesis using assms(1) At_unlock by (simp add: buf_inv_def thread_defs)
next
  case At_post
  then have "s' = s\<lparr>llenos := llenos s + 1, producer_t := \<lparr>t_at = At_wait, t_i = t_i (producer_t s) + 1\<rparr>\<rparr>"
    using assms(2) by (simp add: producer_def Let_def)
  then show ?thesis using assms(1) At_post by (simp add: buf_inv_def thread_defs)
qed

lemma buf_inv_consumer:
  assumes "buf_inv items N s" and "consumer items s = Some s'" and "0 < N"
  shows "buf_inv items N s' \<and> steps (producer_t s') + steps (consumer_t s') = Suc (steps (producer_t s) + steps (consumer_t s))"
proof (cases "t_at (consumer_t s)")
  case At_copy
  have e: "b_salida s = t_i (consumer_t s) mod N" and c: "t_i (consumer_t s) < copied (producer_t s)" "copied (consumer_t s) = t_i (consumer_t s)"
    using assms(1) At_copy by (auto simp: buf_inv_def thread_defs split: if_splits)
  then have v: "b_buf s ! b_salida s = int (t_i (consumer_t s))" using assms(1) unfolding buf_inv_def by (metis le_refl)
  have s': "s' = s\<lparr>results := results s @ [int (t_i (consumer_t s))], consumer_t := (consumer_t s)\<lparr>t_at := At_advance\<rparr>\<rparr>"
    using assms(2) At_copy v by (simp add: consumer_def Let_def)
  show ?thesis using assms(1) At_copy c unfolding s' by (auto simp: buf_inv_def thread_defs One_nat_def)
next
  case At_wait
  then have "s' = s\<lparr>llenos := llenos s - 1, consumer_t := (consumer_t s)\<lparr>t_at := At_lock\<rparr>\<rparr>" "t_i (consumer_t s) < items" "0 < llenos s"
    using assms(2) by (auto simp: consumer_def Let_def split: if_splits)
  then show ?thesis using assms(1) At_wait by (simp add: buf_inv_def thread_defs)
next
  case At_lock
  then have "s' = s\<lparr>locked := True, consumer_t := (consumer_t s)\<lparr>t_at := At_copy\<rparr>\<rparr>" "\<not> locked s"
    using assms(2) by (auto simp: consumer_def Let_def split: if_splits)
  then show ?thesis using assms(1) At_lock by (simp add: buf_inv_def thread_defs)
next
  case At_advance
  then have "s' = s\<lparr>b_salida := (b_salida s + 1) mod length (b_buf s), consumer_t := (consumer_t s)\<lparr>t_at := At_unlock\<rparr>\<rparr>"
    using assms(2) by (simp add: consumer_def Let_def)
  then show ?thesis using assms(1) At_advance by (simp add: buf_inv_def thread_defs mod_simps)
next
  case At_unlock
  then have "s' = s\<lparr>locked := False, consumer_t := (consumer_t s)\<lparr>t_at := At_post\<rparr>\<rparr>"
    using assms(2) by (simp add: consumer_def Let_def)
  then show ?thesis using assms(1) At_unlock by (simp add: buf_inv_def thread_defs)
next
  case At_post
  then have "s' = s\<lparr>vacios := vacios s + 1, consumer_t := \<lparr>t_at = At_wait, t_i = t_i (consumer_t s) + 1\<rparr>\<rparr>"
    using assms(2) by (simp add: consumer_def Let_def)
  then show ?thesis using assms(1) At_post by (simp add: buf_inv_def thread_defs)
qed

lemma buf_run_inv:
  assumes "buf_run items junk n s" and "junk \<noteq> []"
  shows "buf_inv items (length junk) s \<and> n = steps (producer_t s) + steps (consumer_t s)"
  using assms(1)
proof induction
  case init
  show ?case using buf_inv_start [OF assms(2)] by (simp add: start_def steps_def)
next
  case (produce n s s')
  then show ?case using buf_inv_producer [of items "length junk" s s'] assms(2) by simp
next
  case (consume n s s')
  then show ?case using buf_inv_consumer [of items "length junk" s s'] assms(2) by simp
qed

lemma buf_progress:
  assumes "buf_inv items N s" and "0 < N" and "producer items s = None" and "consumer items s = None"
  shows "t_i (producer_t s) = items \<and> t_i (consumer_t s) = items \<and> t_at (consumer_t s) = At_wait"
proof -
  have p: "t_at (producer_t s) = At_wait \<and> (t_i (producer_t s) < items \<longrightarrow> vacios s = 0) \<or> t_at (producer_t s) = At_lock \<and> locked s"
    using assms(3) by (cases "t_at (producer_t s)") (simp_all add: producer_def Let_def split: if_splits)
  have c: "t_at (consumer_t s) = At_wait \<and> (t_i (consumer_t s) < items \<longrightarrow> llenos s = 0) \<or> t_at (consumer_t s) = At_lock \<and> locked s"
    using assms(4) by (cases "t_at (consumer_t s)") (simp_all add: consumer_def Let_def split: if_splits)
  have "locked s \<longleftrightarrow> inside (producer_t s) \<or> inside (consumer_t s)" using assms(1) by (simp add: buf_inv_def)
  moreover have "t_at (producer_t s) = At_wait \<or> t_at (producer_t s) = At_lock" "t_at (consumer_t s) = At_wait \<or> t_at (consumer_t s) = At_lock"
    using p c by blast+
  then have "\<not> inside (producer_t s)" "\<not> inside (consumer_t s)" unfolding inside_def by auto
  ultimately have "\<not> locked s" by blast
  then have w: "t_at (producer_t s) = At_wait" "t_at (consumer_t s) = At_wait" "t_i (producer_t s) < items \<Longrightarrow> vacios s = 0"
    "t_i (consumer_t s) < items \<Longrightarrow> llenos s = 0" using p c by auto
  have n: "vacios s + t_i (producer_t s) = N + t_i (consumer_t s)" "llenos s + t_i (consumer_t s) = t_i (producer_t s)"
    "t_i (producer_t s) \<le> items" "t_i (consumer_t s) \<le> items"
    using assms(1) w(1,2) by (simp_all add: buf_inv_def taken_def)
  have "t_i (producer_t s) = items" using w(3,4) n assms(2) by (cases "t_i (producer_t s) < items") auto
  then show ?thesis using w(2,4) n by (cases "t_i (consumer_t s) < items") auto
qed

text \<open>
  C11: the bounded buffer works for every size, number of items and interleaving: at every moment the consumer has read
  the items \<open>0, 1, 2, \<dots>\<close> in order, none lost or repeated; no execution has more than six steps per item
  and thread; and whenever neither thread can go on, both have handled all items.
\<close>

theorem bounded_buffer:
  assumes "buf_run items junk n s" and "junk \<noteq> []"
  shows "results s = map int [0..<length (results s)] \<and> length (results s) \<le> items \<and> n \<le> 12 * items \<and>
    (producer items s = None \<and> consumer items s = None \<longrightarrow> results s = map int [0..<items])"
proof -
  note I = buf_run_inv [OF assms]
  have r: "results s = map int [0..<copied (consumer_t s)]" "taken (producer_t s) \<le> items" "taken (consumer_t s) \<le> items"
    using I by (simp_all add: buf_inv_def)
  have st: "steps t \<le> 6 * taken t" "copied t \<le> taken t" for t by (cases "t_at t"; simp add: thread_defs)+
  have "n \<le> 12 * items" using I r st(1) [of "producer_t s"] st(1) [of "consumer_t s"] by linarith
  moreover have "copied (consumer_t s) = items" if "producer items s = None \<and> consumer items s = None"
    using buf_progress [of items "length junk" s] I assms(2) that by (simp add: copied_def)
  ultimately show ?thesis using r st(2) [of "consumer_t s"] by simp
qed

text \<open>One item through a buffer of one place: the producer's six steps, then the consumer's.\<close>

definition ex_end :: buffer where
  "ex_end = \<lparr>b_buf = [0], b_entrada = 0, b_salida = 0, vacios = 1, llenos = 0, locked = False,
     producer_t = \<lparr>t_at = At_wait, t_i = 1\<rparr>, consumer_t = \<lparr>t_at = At_wait, t_i = 1\<rparr>, results = [0]\<rparr>"

text \<open>Running a schedule: \<open>True\<close> is a step of the producer.\<close>

fun schedule :: "nat \<Rightarrow> bool list \<Rightarrow> buffer \<Rightarrow> buffer option" where
  "schedule items [] s = Some s"
| "schedule items (p # ps) s = Option.bind (if p then producer items s else consumer items s) (schedule items ps)"

lemma schedule_run: "buf_run items junk n s \<Longrightarrow> schedule items ps s = Some t \<Longrightarrow> buf_run items junk (n + length ps) t"
proof (induction ps arbitrary: n s)
  case (Cons p ps)
  then obtain u where u: "(if p then producer items s else consumer items s) = Some u" "schedule items ps u = Some t"
    by (auto simp: bind_eq_Some_conv)
  then have "buf_run items junk (Suc n) u" using Cons.prems(1) by (cases p) (auto intro: buf_run.intros)
  then show ?case using Cons.IH [of "Suc n" u] u(2) by simp
qed simp

theorem bounded_buffer_witness:
  "buf_run 1 [7] 12 ex_end \<and> producer 1 ex_end = None \<and> consumer 1 ex_end = None \<and> results ex_end = map int [0..<1]"
proof -
  have s: "schedule 1 [True, True, True, True, True, True, False, False, False, False, False, False] (start [7]) = Some ex_end"
    by (simp add: producer_def consumer_def start_def ex_end_def)
  have n: "(12 :: nat) = 0 + length [True, True, True, True, True, True, False, False, False, False, False, False]" by simp
  have r: "buf_run 1 [7] 12 ex_end" unfolding n by (rule schedule_run [OF buf_run.init s])
  moreover have "producer 1 ex_end = None" "consumer 1 ex_end = None" by (simp_all add: producer_def consumer_def ex_end_def)
  ultimately show ?thesis using bounded_buffer [OF r] by simp
qed

end
