(* ===== verification/Lab_Sim.thy ===== *)
theory Lab_Sim
  imports Prelude
begin

text \<open>
  The simulator of page replacement, \<open>src/lab-07/sim.c\<close>. A process is numbered from 1 and so are the pages of a
  reference; arrays are functions of the index, from 0.
\<close>

definition NUM_PAGINAS :: nat where "NUM_PAGINAS = 16"
definition NUM_PROCESOS :: nat where "NUM_PROCESOS = 2"
definition NUM_MARCOS :: nat where "NUM_MARCOS = 8"

record marco =
  m_pid :: int
  m_pagina :: int

record entrada =
  e_pid :: int
  e_pagina :: int
  e_presente :: bool
  e_modificado :: bool
  e_contadorLRU :: int
  e_indiceMarco :: int

record sim =
  memoriaFisica :: "nat \<Rightarrow> marco"
  tablaPaginas :: "nat \<Rightarrow> nat \<Rightarrow> entrada"
  almacenamiento :: "nat \<Rightarrow> marco"

definition inicializar :: sim where
  "inicializar = \<lparr>memoriaFisica = \<lambda>_. \<lparr>m_pid = -1, m_pagina = -1\<rparr>,
     tablaPaginas = \<lambda>_ _. \<lparr>e_pid = -1, e_pagina = -1, e_presente = False, e_modificado = False, e_contadorLRU = -1, e_indiceMarco = -1\<rparr>,
     almacenamiento = \<lambda>_. \<lparr>m_pid = -1, m_pagina = -1\<rparr>\<rparr>"

text \<open>The entry of the page that a frame holds.\<close>

definition entrada_de :: "marco \<Rightarrow> sim \<Rightarrow> entrada" where
  "entrada_de m s = tablaPaginas s (nat (m_pid m - 1)) (nat (m_pagina m))"

definition set_entrada :: "int \<Rightarrow> int \<Rightarrow> (entrada \<Rightarrow> entrada) \<Rightarrow> sim \<Rightarrow> sim" where
  "set_entrada pid pagina f s =
     s\<lparr>tablaPaginas := (tablaPaginas s)(nat (pid - 1) := (tablaPaginas s (nat (pid - 1)))
        (nat pagina := f (tablaPaginas s (nat (pid - 1)) (nat pagina))))\<rparr>"

definition set_tabla :: "int \<Rightarrow> (entrada \<Rightarrow> entrada) \<Rightarrow> sim \<Rightarrow> sim" where
  "set_tabla pid f s = s\<lparr>tablaPaginas := (tablaPaginas s)(nat (pid - 1) := (\<lambda>j. if j < NUM_PAGINAS
     then f (tablaPaginas s (nat (pid - 1)) j) else tablaPaginas s (nat (pid - 1)) j))\<rparr>"

text \<open>The counters when the page is in memory, and after a page has been loaded.\<close>

definition cuenta_uso :: "int \<Rightarrow> entrada \<Rightarrow> entrada" where
  "cuenta_uso pagina e =
     (if e_pagina e = pagina - 1 then e\<lparr>e_contadorLRU := 0\<rparr>
      else if e_contadorLRU e \<noteq> -1 then e\<lparr>e_contadorLRU := e_contadorLRU e + 1\<rparr> else e)"

definition envejece :: "entrada \<Rightarrow> entrada" where
  "envejece e = (if e_contadorLRU e \<noteq> -1 then e\<lparr>e_contadorLRU := e_contadorLRU e + 1\<rparr> else e)"

text \<open>The search for a frame: the first free one, otherwise the first with the greatest counter.\<close>

fun busca :: "nat list \<Rightarrow> int \<Rightarrow> int \<Rightarrow> sim \<Rightarrow> int" where
  "busca [] indice_lru max_contador s = indice_lru"
| "busca (i # is) indice_lru max_contador s =
     (if m_pid (memoriaFisica s i) = -1 then int i
      else if max_contador < e_contadorLRU (entrada_de (memoriaFisica s i) s)
      then busca is (int i) (e_contadorLRU (entrada_de (memoriaFisica s i) s)) s
      else busca is indice_lru max_contador s)"

definition guarda :: "marco \<Rightarrow> sim \<Rightarrow> sim" where
  "guarda m s =
     (case List.find (\<lambda>j. m_pid (almacenamiento s j) = -1) [0..<NUM_PAGINAS * NUM_PROCESOS] of
        None \<Rightarrow> s
      | Some j \<Rightarrow> s\<lparr>almacenamiento := (almacenamiento s)(j := m)\<rparr>)"

definition asignarPagina :: "int \<Rightarrow> int \<Rightarrow> string \<Rightarrow> sim \<Rightarrow> sim" where
  "asignarPagina pid pagina algoritmo s =
     (if \<exists>i\<in>set [0..<NUM_MARCOS]. m_pid (memoriaFisica s i) = pid \<and> m_pagina (memoriaFisica s i) = pagina - 1
      then set_tabla pid (cuenta_uso pagina) s
      else
        let indice_lru = busca [0..<NUM_MARCOS] (-1) (-1) s;
            victima = memoriaFisica s (nat indice_lru);
            s = (if m_pid victima \<noteq> -1
                 then guarda victima (set_entrada (m_pid victima) (m_pagina victima) (\<lambda>e. e\<lparr>e_presente := False\<rparr>) s)
                 else s);
            s = s\<lparr>memoriaFisica := (memoriaFisica s)(nat indice_lru := \<lparr>m_pid = pid, m_pagina = pagina - 1\<rparr>)\<rparr>;
            s = set_entrada pid (pagina - 1) (\<lambda>e. e\<lparr>e_pid := pid, e_pagina := pagina - 1, e_presente := True,
                  e_contadorLRU := 0, e_indiceMarco := indice_lru\<rparr>) s
        in set_tabla pid envejece s)"

text \<open>What \<open>main\<close> does with the references it reads.\<close>

definition simula :: "string \<Rightarrow> (int \<times> int) list \<Rightarrow> sim" where
  "simula algoritmo refs = foldl (\<lambda>s (pid, pagina). asignarPagina pid pagina algoritmo s) inicializar refs"

definition imprimirTablaPaginas :: "int \<Rightarrow> sim \<Rightarrow> int option list" where
  "imprimirTablaPaginas pid s = map (\<lambda>i. let e = tablaPaginas s (nat (pid - 1)) i in if e_presente e then Some (e_indiceMarco e) else None)
     [0..<NUM_PAGINAS]"

definition imprimirMarcos :: "(nat \<Rightarrow> marco) \<Rightarrow> nat \<Rightarrow> (int \<times> int) option list" where
  "imprimirMarcos a n = map (\<lambda>i. if m_pid (a i) \<noteq> -1 then Some (m_pid (a i), m_pagina (a i) + 1) else None) [0..<n]"

subsection \<open>Frames and page tables agree\<close>

definition valida :: "int \<Rightarrow> int \<Rightarrow> bool" where
  "valida pid pagina \<longleftrightarrow> 1 \<le> pid \<and> pid \<le> int NUM_PROCESOS \<and> 0 \<le> pagina \<and> pagina < int NUM_PAGINAS"

text \<open>Entry and frame point at each other.\<close>

definition frame_ok :: "sim \<Rightarrow> nat \<Rightarrow> bool" where
  "frame_ok s i \<longleftrightarrow> (let m = memoriaFisica s i; e = entrada_de m s in
     m_pid m \<noteq> -1 \<longrightarrow> valida (m_pid m) (m_pagina m) \<and> e_presente e \<and> e_indiceMarco e = int i \<and> 0 \<le> e_contadorLRU e)"

definition entry_ok :: "sim \<Rightarrow> nat \<Rightarrow> nat \<Rightarrow> bool" where
  "entry_ok s k j \<longleftrightarrow> (let e = tablaPaginas s k j in
     e_presente e \<longrightarrow> 0 \<le> e_indiceMarco e \<and> e_indiceMarco e < int NUM_MARCOS \<and>
       memoriaFisica s (nat (e_indiceMarco e)) = \<lparr>m_pid = int k + 1, m_pagina = int j\<rparr>)"

definition sim_ok :: "sim \<Rightarrow> bool" where
  "sim_ok s \<longleftrightarrow> (\<forall>i<NUM_MARCOS. frame_ok s i) \<and> (\<forall>k<NUM_PROCESOS. \<forall>j<NUM_PAGINAS. entry_ok s k j)"

lemma sim_ok_init: "sim_ok inicializar"
  by (simp add: sim_ok_def frame_ok_def entry_ok_def inicializar_def Let_def)

text \<open>Changing counters only.\<close>

lemma sim_ok_tabla:
  assumes "sim_ok s" and "\<And>e. e_presente (f e) = e_presente e \<and> e_indiceMarco (f e) = e_indiceMarco e \<and> (0 \<le> e_contadorLRU e \<longrightarrow> 0 \<le> e_contadorLRU (f e))"
  shows "sim_ok (set_tabla pid f s)"
proof -
  have t: "tablaPaginas (set_tabla pid f s) k j = (if k = nat (pid - 1) \<and> j < NUM_PAGINAS then f (tablaPaginas s k j) else tablaPaginas s k j)" for k j
    by (auto simp: set_tabla_def)
  have m: "memoriaFisica (set_tabla pid f s) = memoriaFisica s" by (simp add: set_tabla_def)
  show ?thesis using assms unfolding sim_ok_def frame_ok_def entry_ok_def entrada_de_def Let_def t m by auto
qed

lemma busca_range:
  assumes "sim_ok s" and "set is \<subseteq> {..<NUM_MARCOS}" and "is \<noteq> [] \<or> 0 \<le> l \<and> l < int NUM_MARCOS" and "c = -1 \<or> 0 \<le> l \<and> l < int NUM_MARCOS"
  shows "0 \<le> busca is l c s \<and> busca is l c s < int NUM_MARCOS"
  using assms(2-4)
proof (induction "is" arbitrary: l c)
  case (Cons i "is")
  have i: "i < NUM_MARCOS" using Cons.prems(1) by simp
  have "0 \<le> e_contadorLRU (entrada_de (memoriaFisica s i) s)" if "m_pid (memoriaFisica s i) \<noteq> -1"
    using assms(1) i that by (simp add: sim_ok_def frame_ok_def Let_def)
  then show ?case using Cons i by auto
qed simp

text \<open>Putting a page that is in no frame into frame \<open>x\<close>, when the entry of the page there has been marked absent.\<close>

lemma load_ok:
  assumes ok: "sim_ok s" and x: "x < NUM_MARCOS" and p: "valida pid pg" and miss: "\<And>i. i < NUM_MARCOS \<Longrightarrow> memoriaFisica s i \<noteq> \<lparr>m_pid = pid, m_pagina = pg\<rparr>"
    and m: "memoriaFisica t = (memoriaFisica s)(x := \<lparr>m_pid = pid, m_pagina = pg\<rparr>)"
    and tp: "\<And>k j. tablaPaginas t k j =
      (if k = nat (pid - 1) \<and> j = nat pg then (tablaPaginas s k j)\<lparr>e_pid := pid, e_pagina := pg, e_presente := True, e_contadorLRU := 0, e_indiceMarco := int x\<rparr>
       else if m_pid (memoriaFisica s x) \<noteq> -1 \<and> k = nat (m_pid (memoriaFisica s x) - 1) \<and> j = nat (m_pagina (memoriaFisica s x))
       then (tablaPaginas s k j)\<lparr>e_presente := False\<rparr> else tablaPaginas s k j)"
  shows "sim_ok t"
proof -
  have F: "valida (m_pid (memoriaFisica s i)) (m_pagina (memoriaFisica s i)) \<and> e_presente (entrada_de (memoriaFisica s i) s) \<and>
      e_indiceMarco (entrada_de (memoriaFisica s i) s) = int i \<and> 0 \<le> e_contadorLRU (entrada_de (memoriaFisica s i) s)"
    if "i < NUM_MARCOS" "m_pid (memoriaFisica s i) \<noteq> -1" for i
    using ok that by (simp add: sim_ok_def frame_ok_def Let_def)
  have "frame_ok t i" if i: "i < NUM_MARCOS" for i
  proof (cases "i = x")
    case True
    then show ?thesis using p by (simp add: frame_ok_def Let_def m entrada_de_def tp)
  next
    case False
    let ?v = "memoriaFisica s i"
    have "entrada_de ?v t = entrada_de ?v s" if v: "m_pid ?v \<noteq> -1"
    proof -
      have a: "\<not> (nat (m_pid ?v - 1) = nat (pid - 1) \<and> nat (m_pagina ?v) = nat pg)"
      proof
        assume "nat (m_pid ?v - 1) = nat (pid - 1) \<and> nat (m_pagina ?v) = nat pg"
        then have "m_pid ?v = pid" "m_pagina ?v = pg" using F [OF i v] p by (auto simp: valida_def)
        then show False using miss [OF i] by simp
      qed
      have b: "\<not> (m_pid (memoriaFisica s x) \<noteq> -1 \<and> nat (m_pid ?v - 1) = nat (m_pid (memoriaFisica s x) - 1) \<and>
          nat (m_pagina ?v) = nat (m_pagina (memoriaFisica s x)))"
        using F [OF i v] F [OF x] False by (auto simp: entrada_de_def)
      show ?thesis unfolding entrada_de_def tp using a b by auto
    qed
    then show ?thesis using F [OF i] False by (auto simp: frame_ok_def Let_def m)
  qed
  moreover have "entry_ok t k j" if "k < NUM_PROCESOS" "j < NUM_PAGINAS" for k j
  proof -
    let ?e = "tablaPaginas s k j" and ?w = "memoriaFisica s x"
    have E: "e_presente ?e \<Longrightarrow> 0 \<le> e_indiceMarco ?e \<and> e_indiceMarco ?e < int NUM_MARCOS \<and>
        memoriaFisica s (nat (e_indiceMarco ?e)) = \<lparr>m_pid = int k + 1, m_pagina = int j\<rparr>"
      using ok that by (simp add: sim_ok_def entry_ok_def Let_def)
    consider "k = nat (pid - 1) \<and> j = nat pg" | "\<not> (k = nat (pid - 1) \<and> j = nat pg)" "m_pid ?w \<noteq> -1 \<and> k = nat (m_pid ?w - 1) \<and> j = nat (m_pagina ?w)"
      | "\<not> (k = nat (pid - 1) \<and> j = nat pg)" "\<not> (m_pid ?w \<noteq> -1 \<and> k = nat (m_pid ?w - 1) \<and> j = nat (m_pagina ?w))" by blast
    then show ?thesis
    proof cases
      case 1
      then show ?thesis using p x by (simp add: entry_ok_def Let_def tp m valida_def)
    next
      case 2
      then have "\<not> e_presente (tablaPaginas t k j)" unfolding tp by simp
      then show ?thesis by (simp add: entry_ok_def Let_def)
    next
      case 3
      then have e: "tablaPaginas t k j = ?e" unfolding tp by auto
      have "nat (e_indiceMarco ?e) \<noteq> x" if "e_presente ?e" using E [OF that] 3(2) by auto
      then show ?thesis using E by (auto simp: entry_ok_def Let_def e m)
    qed
  qed
  ultimately show ?thesis by (simp add: sim_ok_def)
qed

lemma guarda_sel [simp]: "memoriaFisica (guarda m s) = memoriaFisica s" "tablaPaginas (guarda m s) = tablaPaginas s"
  by (auto simp: guarda_def split: option.splits)

lemma counters:
  "e_presente (cuenta_uso pg e) = e_presente e" "e_indiceMarco (cuenta_uso pg e) = e_indiceMarco e" "0 \<le> e_contadorLRU e \<Longrightarrow> 0 \<le> e_contadorLRU (cuenta_uso pg e)"
  "e_presente (envejece e) = e_presente e" "e_indiceMarco (envejece e) = e_indiceMarco e" "0 \<le> e_contadorLRU e \<Longrightarrow> 0 \<le> e_contadorLRU (envejece e)"
  by (simp_all add: cuenta_uso_def envejece_def)

lemma asignar_ok:
  assumes "sim_ok s" and "valida pid (pagina - 1)"
  shows "sim_ok (asignarPagina pid pagina alg s)"
    and "\<exists>i<NUM_MARCOS. memoriaFisica (asignarPagina pid pagina alg s) i = \<lparr>m_pid = pid, m_pagina = pagina - 1\<rparr>"
proof -
  let ?in = "\<exists>i\<in>set [0..<NUM_MARCOS]. m_pid (memoriaFisica s i) = pid \<and> m_pagina (memoriaFisica s i) = pagina - 1"
  define l where "l = busca [0..<NUM_MARCOS] (-1) (-1) s"
  define x where "x = nat l"
  define v where "v = memoriaFisica s x"
  define s1 where "s1 = (if m_pid v \<noteq> -1 then guarda v (set_entrada (m_pid v) (m_pagina v) (\<lambda>e. e\<lparr>e_presente := False\<rparr>) s) else s)"
  define s2 where "s2 = s1\<lparr>memoriaFisica := (memoriaFisica s1)(x := \<lparr>m_pid = pid, m_pagina = pagina - 1\<rparr>)\<rparr>"
  define s3 where "s3 = set_entrada pid (pagina - 1) (\<lambda>e. e\<lparr>e_pid := pid, e_pagina := pagina - 1, e_presente := True,
                  e_contadorLRU := 0, e_indiceMarco := l\<rparr>) s2"
  have l: "0 \<le> l \<and> l < int NUM_MARCOS" unfolding l_def by (rule busca_range [OF assms(1)]) (auto simp: NUM_MARCOS_def)
  have A: "asignarPagina pid pagina alg s = (if ?in then set_tabla pid (cuenta_uso pagina) s else set_tabla pid envejece s3)"
    unfolding asignarPagina_def Let_def s3_def s2_def s1_def v_def x_def l_def ..
  have lx: "int x = l" "x < NUM_MARCOS" using l by (auto simp: x_def)
  have m1: "memoriaFisica s1 = memoriaFisica s" by (simp add: s1_def set_entrada_def)
  have m3: "memoriaFisica s3 = (memoriaFisica s)(x := \<lparr>m_pid = pid, m_pagina = pagina - 1\<rparr>)"
    by (simp add: s3_def s2_def set_entrada_def m1)
  have "sim_ok s3" if n: "\<not> ?in"
  proof (rule load_ok [OF assms(1) lx(2) assms(2) _ m3])
    show "memoriaFisica s i \<noteq> \<lparr>m_pid = pid, m_pagina = pagina - 1\<rparr>" if "i < NUM_MARCOS" for i
      using n that by force
    show "tablaPaginas s3 k j =
      (if k = nat (pid - 1) \<and> j = nat (pagina - 1) then (tablaPaginas s k j)\<lparr>e_pid := pid, e_pagina := pagina - 1, e_presente := True, e_contadorLRU := 0, e_indiceMarco := int x\<rparr>
       else if m_pid (memoriaFisica s x) \<noteq> -1 \<and> k = nat (m_pid (memoriaFisica s x) - 1) \<and> j = nat (m_pagina (memoriaFisica s x))
       then (tablaPaginas s k j)\<lparr>e_presente := False\<rparr> else tablaPaginas s k j)" for k j
      unfolding s3_def s2_def s1_def set_entrada_def lx(1) v_def by simp
  qed
  then show "sim_ok (asignarPagina pid pagina alg s)"
    unfolding A using assms(1) counters by (auto intro!: sim_ok_tabla)
  have t: "memoriaFisica (set_tabla pid f u) = memoriaFisica u" for f u by (simp add: set_tabla_def)
  have "memoriaFisica s3 x = \<lparr>m_pid = pid, m_pagina = pagina - 1\<rparr>" unfolding m3 by simp
  then show "\<exists>i<NUM_MARCOS. memoriaFisica (asignarPagina pid pagina alg s) i = \<lparr>m_pid = pid, m_pagina = pagina - 1\<rparr>"
    unfolding A using lx(2) by (auto simp: t)
qed

lemma simula_snoc: "simula alg (refs @ [(pid, pagina)]) = asignarPagina pid pagina alg (simula alg refs)"
  by (simp add: simula_def)

lemma simula_ok: "\<forall>(pid, pagina)\<in>set refs. valida pid (pagina - 1) \<Longrightarrow> sim_ok (simula alg refs)"
proof (induction refs rule: rev_induct)
  case Nil
  then show ?case using sim_ok_init by (simp add: simula_def)
next
  case (snoc r refs)
  then show ?case by (cases r) (auto simp: simula_snoc intro: asignar_ok(1))
qed

lemma present_iff:
  assumes "sim_ok s" and "k < NUM_PROCESOS" and "j < NUM_PAGINAS"
  shows "e_presente (tablaPaginas s k j) \<longleftrightarrow> (\<exists>i<NUM_MARCOS. memoriaFisica s i = \<lparr>m_pid = int k + 1, m_pagina = int j\<rparr>)"
proof
  assume "e_presente (tablaPaginas s k j)"
  then have "nat (e_indiceMarco (tablaPaginas s k j)) < NUM_MARCOS \<and>
      memoriaFisica s (nat (e_indiceMarco (tablaPaginas s k j))) = \<lparr>m_pid = int k + 1, m_pagina = int j\<rparr>"
    using assms by (auto simp: sim_ok_def entry_ok_def Let_def nat_less_iff)
  then show "\<exists>i<NUM_MARCOS. memoriaFisica s i = \<lparr>m_pid = int k + 1, m_pagina = int j\<rparr>" by blast
next
  assume "\<exists>i<NUM_MARCOS. memoriaFisica s i = \<lparr>m_pid = int k + 1, m_pagina = int j\<rparr>"
  then obtain i where i: "i < NUM_MARCOS" "memoriaFisica s i = \<lparr>m_pid = int k + 1, m_pagina = int j\<rparr>" by blast
  have "frame_ok s i" using assms(1) i(1) by (simp add: sim_ok_def)
  then show "e_presente (tablaPaginas s k j)" by (simp add: frame_ok_def Let_def i(2) entrada_de_def)
qed

lemma frames_once:
  assumes "sim_ok s" and "i < NUM_MARCOS" and "i' < NUM_MARCOS" and "m_pid (memoriaFisica s i) \<noteq> -1" and "memoriaFisica s i = memoriaFisica s i'"
  shows "i = i'"
proof -
  have "frame_ok s i" "frame_ok s i'" using assms(1-3) by (simp_all add: sim_ok_def)
  then have "int i = int i'" using assms(4,5) by (simp add: frame_ok_def Let_def)
  then show ?thesis by simp
qed

text \<open>
  C33: after any sequence of references to existing pages of existing processes, page tables and physical memory agree: an
  entry is marked present exactly when some frame holds its page, no page is in two frames, and the page referenced last is
  in memory.
\<close>

theorem simula_consistent:
  assumes "\<forall>(pid, pagina)\<in>set (refs @ [(pid0, pagina0)]). valida pid (pagina - 1)"
    and "s = simula algoritmo (refs @ [(pid0, pagina0)])"
  shows "(\<forall>k j. k < NUM_PROCESOS \<and> j < NUM_PAGINAS \<longrightarrow>
           e_presente (tablaPaginas s k j) = (\<exists>i<NUM_MARCOS. memoriaFisica s i = \<lparr>m_pid = int k + 1, m_pagina = int j\<rparr>)) \<and>
         (\<forall>i i'. i < NUM_MARCOS \<and> i' < NUM_MARCOS \<and> m_pid (memoriaFisica s i) \<noteq> -1 \<and> memoriaFisica s i = memoriaFisica s i' \<longrightarrow> i = i') \<and>
         (\<exists>i<NUM_MARCOS. memoriaFisica s i = \<lparr>m_pid = pid0, m_pagina = pagina0 - 1\<rparr>)"
proof -
  have ok: "sim_ok s" unfolding assms(2) by (rule simula_ok [OF assms(1)])
  have "sim_ok (simula algoritmo refs)" "valida pid0 (pagina0 - 1)" using assms(1) by (simp_all add: simula_ok)
  then have "\<exists>i<NUM_MARCOS. memoriaFisica s i = \<lparr>m_pid = pid0, m_pagina = pagina0 - 1\<rparr>"
    unfolding assms(2) simula_snoc by (rule asignar_ok(2))
  then show ?thesis using present_iff [OF ok] frames_once [OF ok] by blast
qed

theorem simula_consistent_witness:
  "e_presente (tablaPaginas (simula ''-l'' ([(1, 1)] @ [(2, 3)])) 0 0) =
     (\<exists>i<NUM_MARCOS. memoriaFisica (simula ''-l'' ([(1, 1)] @ [(2, 3)])) i = \<lparr>m_pid = int 0 + 1, m_pagina = int 0\<rparr>) \<and>
   e_presente (tablaPaginas (simula ''-l'' ([(1, 1)] @ [(2, 3)])) 0 0) \<and>
   \<not> e_presente (tablaPaginas (simula ''-l'' ([(1, 1)] @ [(2, 3)])) 1 0) \<and>
   (\<exists>i<NUM_MARCOS. memoriaFisica (simula ''-l'' ([(1, 1)] @ [(2, 3)])) i = \<lparr>m_pid = 2, m_pagina = 3 - 1\<rparr>)"
proof -
  have v: "\<forall>(pid, pagina)\<in>set ([(1, 1)] @ [(2, 3)]). valida pid (pagina - 1)" by code_simp
  have n: "e_presente (tablaPaginas (simula ''-l'' ([(1, 1)] @ [(2, 3)])) 0 0)"
    "\<not> e_presente (tablaPaginas (simula ''-l'' ([(1, 1)] @ [(2, 3)])) 1 0)" by code_simp+
  have "0 < NUM_PROCESOS" "0 < NUM_PAGINAS" by (simp_all add: NUM_PROCESOS_def NUM_PAGINAS_def)
  then show ?thesis using simula_consistent [OF v refl, of "''-l''"] n by blast
qed

end
