(* ===== verification/Spec2Isabelle.thy ===== *)
theory Spec2Isabelle
  imports Fs_Data Spinlock Vm_Map Pipe Console Sched Log_Ops Pipe_Wait Sys_Checks Grep Shell_Print Lab_Buf Lab_Sim
begin

text \<open>
  \<^bold>\<open>Verification of xv6 and of the exercises of an operating systems course.\<close>

  The repository holds the kernel xv6 with its user programs (\<open>src/xv6\<close>), changed for a course: a memory disk, the system
  calls \<open>getppid\<close>, \<open>trace\<close>, \<open>answer\<close> and \<open>pgcnt\<close>; and the exercises of the course (\<open>src/lab-01\<close> to
  \<open>src/lab-08\<close>). The development models the kernel from the memory disk up to \<open>trap\<close>, the parts of the user programs that
  compute something, and two of the exercises.

  \<^bold>\<open>How code is modelled.\<close> A routine is a function of the same name from a state to a state. Kernel routines return an
  \<open>outcome\<close> (theory Prelude): \<open>Ret\<close> a value with the new state, \<open>Panic\<close> the message, or \<open>Sleep\<close> the address waited on and
  the state at that moment; \<open>obind\<close> composes them. Pointers into tables are indices and the null pointer is \<open>None\<close>.
  Machine integers are words of their width, so arithmetic wraps as in C; kernel memory is a function from addresses
  to bytes. The states are nested as the layers of the kernel are:
  \<open>bcache\<close> (buffers and disk) in \<open>lstate\<close> (with the log) in \<open>fsstate\<close> (with the inodes) in \<open>kstate\<close> (with files, pipes,
  memory, processes, console and clock). What the code takes from elsewhere is a parameter: the address \<open>end\<close> of the
  linker, the table of devices, the initial contents of memory, the results of \<open>read\<close> for \<open>grep\<close>.

  \<^bold>\<open>Interfaces.\<close> Four locales state what one component promises to another, and each is interpreted on the model:

  \<^item> \<open>block_cache\<close> (theory Block_Cache): reading, changing, writing and releasing blocks, over an abstract store with
    the contents, locks and history of the disk. Interpreted in Bio; the log is verified over it.
  \<^item> \<open>logged_store\<close> (Logged_Store): the same inside a transaction, where changes go through \<open>log_write\<close>. Interpreted in
    Log; the file system is verified over it.
  \<^item> \<open>page_allocator\<close> (Page_Allocator): a stack of free pages. Interpreted in Kalloc; used by the page tables.
  \<^item> \<open>ring_buffer\<close> (Ring): a buffer indexed by counters that wrap at 32 bits. Interpreted for pipes (Pipe) and for the
    input of the console (Console).

  \<^bold>\<open>Theories, sources and what is shown.\<close>

  \<^item> Sleeplock (\<open>sleeplock.c\<close>), Bio (\<open>bio.c\<close>, \<open>memide.c\<close>): the list of buffers as a doubly linked ring, the cache and the
    disk with the sequence of its sector writes. \<open>bread\<close> returns the current contents of a block, held by the caller.
  \<^item> Log (\<open>log.c\<close>): the whole log. A commit interrupted by a crash after any number of sector writes, followed by any number
    of interrupted recoveries, is recovered to the state before or after the transaction; recovery, commit,
    \<open>log_write\<close> and \<open>end_op\<close> do what they promise.
  \<^item> Log_Ops (\<open>log.c\<close>): concurrent operations from the start of the machine on. What \<open>begin_op\<close> reserves is enough for
    operations of fewer than \<open>MAXOPBLOCKS\<close> blocks, and one block short for operations of \<open>MAXOPBLOCKS\<close> blocks.
  \<^item> CString (\<open>string.c\<close>, \<open>ulib.c\<close>): memory and string routines, with aliasing, over one memory.
  \<^item> Fs (\<open>fs.c\<close>, all of it), Fs_Alloc, Fs_Data: block allocation on the bitmap, the layout of inodes, and that what
    \<open>writei\<close> writes is what \<open>readi\<close> reads, with blocks allocated, direct and indirect, as the file grows.
  \<^item> Memory (\<open>mmu.h\<close>, \<open>memlayout.h\<close>), Kalloc (\<open>kalloc.c\<close>), Vm (\<open>vm.c\<close>), Vm_Map: the free list threaded through the free
    pages; page tables, given their meaning as a map from addresses to entries; \<open>mappages\<close>, \<open>allocuvm\<close> and \<open>copyout\<close>.
  \<^item> Spinlock (\<open>spinlock.c\<close>): processors that interleave; mutual exclusion and the nesting of \<open>pushcli\<close>.
  \<^item> Pipe (\<open>pipe.c\<close>): a pipe is a queue of bytes. Pipe_Wait: the processes that sleep on a pipe, with the wakeups; readers and
    writers never wait for each other, and a killed writer can leave readers asleep.
  \<^item> Ptable (\<open>proc.c\<close>, \<open>proc.h\<close>), Sched: what the routines do to the process table, and the processors and processes as a
    transition system over them: an invariant of all reachable states, no lost wakeup, fairness of the scheduler.
  \<^item> Printf (\<open>console.c\<close>, \<open>printf.c\<close>), Console (\<open>console.c\<close>, \<open>uart.c\<close>): formatted output, screen, and line editing.
  \<^item> File (\<open>file.c\<close>, \<open>pipe.c\<close>), Proc (\<open>proc.c\<close>), Syscall (\<open>syscall.c\<close>), Sysfile (\<open>sysfile.c\<close>), Exec (\<open>exec.c\<close>), Trap
    (\<open>sysproc.c\<close>, \<open>syscall.c\<close>, \<open>trap.c\<close>): the rest of the kernel over the state \<open>kstate\<close>, up to \<open>trap\<close>.
  \<^item> File_Refs: every system call keeps the reference counts of open files exact. Sys_Checks: checks of user
    pointers, \<open>sys_pgcnt\<close>, \<open>growproc\<close>, and that \<open>wait\<close> finds a child that has exited.
  \<^item> Grep (\<open>grep.c\<close>): the matcher decides the language of the pattern. Shell (\<open>sh.c\<close>), Shell_Print: the parser terminates,
    its commands are well formed, and it reads back what a printer prints.
  \<^item> Lab_Buf (\<open>lab-05/buf.c\<close>): the bounded buffer under all interleavings. Lab_Sim (\<open>lab-07/sim.c\<close>): frames and page tables of the
    page replacement simulator agree.

  \<^bold>\<open>Bounds and fuel.\<close> Loops are structural, or have a termination proof. The parser of the shell takes fuel, one unit per
  level of calls; it is shown that four times the length of the line plus four are always enough.
  Waiting loops (\<open>acquire\<close>, \<open>begin_op\<close>, \<open>sleep\<close>) are one pass per step: a state in which a routine has to wait is a value of
  the model, and progress is a property of the transition systems (Pipe_Wait, Sched, Lab_Buf). The identifiers of processes
  are 32 bits wide and wrap; that they are distinct is shown for executions of fewer than \<open>2 ^ 31 - 2\<close> steps. Counters of the
  simulator are unbounded integers.

  \<^bold>\<open>What is not modelled.\<close> Assembly and what it does: boot code, entry to the kernel, \<open>swtch\<close>, loading of segment and
  control registers (\<open>seginit\<close>, \<open>switchuvm\<close>, \<open>tvinit\<close>). Devices behind ports and registers: the disk controller, interrupt
  controllers, keyboard and the set-up of the serial port. \<open>mkfs.c\<close> and the scripts, which run on the host. The user allocator
  \<open>umalloc.c\<close> and the thread library, whose contents are pointers into raw memory and stack switches. Test programs and the
  small user programs and exercises, which only make a few calls and print. The memory model of the processors is
  sequentially consistent here, and the sections a spin lock protects are single steps outside theory Spinlock. Messages
  that \<open>iinit\<close>, \<open>allocuvm\<close> and the last case of \<open>trap\<close> print on the console are left out.
\<close>

end
